theory Spec2Isabelle
  imports Main "HOL-Library.AList"
begin

section \<open>Data model\<close>

text \<open>
  The graph snapshot of the route planner: a list of nodes and a list of undirected,
  weighted edges, each with a \<open>blocked\<close> flag. Identifiers are JavaScript strings.
  Weights are modelled as integers (the sample graph and the editor's default use whole
  numbers) and added exactly. The code adds IEEE doubles, which is the same as long as
  every sum stays within \<open>2\<^sup>5\<^sup>3\<close> in magnitude; where a statement depends on the
  sums being exact, it carries that bound as a hypothesis (\<open>exact_range\<close> below).

  Plain JavaScript objects used as dictionaries (\<open>graph\<close>, \<open>distances\<close>,
  \<open>previous\<close>, \<open>degrees\<close>) are association lists in insertion order; a missing
  key reads as \<open>undefined\<close>, which is \<open>None\<close> of \<open>map_of\<close>. Node identifiers
  and edge endpoints are assumed not to be names of members of \<open>Object.prototype\<close>.
  The two identifiers passed to \<open>dijkstra\<close> need not be node identifiers: its test
  \<open>!graph[startId] || !graph[endId]\<close> also sees the members that every plain object
  inherits (\<open>has_member\<close> below).
\<close>

record node =
  n_id :: string
  n_label :: string

record edge =
  e_id :: string
  e_from :: string
  e_to :: string
  e_weight :: int
  e_blocked :: bool

type_synonym 'v obj = "(string \<times> 'v) list"

text \<open>The names of the members of \<open>Object.prototype\<close>; all of them are truthy.\<close>

definition object_members :: "string list" where
  "object_members =
     [''constructor'', ''__defineGetter__'', ''__defineSetter__'', ''hasOwnProperty'',
      ''__lookupGetter__'', ''__lookupSetter__'', ''isPrototypeOf'',
      ''propertyIsEnumerable'', ''toString'', ''valueOf'', ''__proto__'',
      ''toLocaleString'']"

text \<open>
  \<open>obj[k]\<close> is truthy, for an object whose own values are arrays: \<open>k\<close> is a key
  of its own or the name of an inherited member.
\<close>

definition has_member :: "'v obj \<Rightarrow> string \<Rightarrow> bool" where
  "has_member g k \<longleftrightarrow> map_of g k \<noteq> None \<or> k \<in> set object_members"

datatype js_error = TypeError

text \<open>What a call does: it returns a value, throws, or never returns.\<close>

datatype 'a outcome = Returns 'a | Throws js_error | Diverges

text \<open>
  JavaScript numbers as they occur in \<open>distances\<close>, \<open>degrees\<close> and
  \<open>totalCost\<close>: a finite value, \<open>Infinity\<close>, \<open>-Infinity\<close> or \<open>NaN\<close>.
  Reading a key that was never written gives \<open>undefined\<close>, which every arithmetic
  operation and comparison used here turns into \<open>NaN\<close>; \<open>num_get\<close> returns
  \<open>NaN\<close> for it.
\<close>

datatype num = Fin int | PInf | NInf | NaN

definition num_get :: "num obj \<Rightarrow> string \<Rightarrow> num" where
  "num_get ds k = (case map_of ds k of None \<Rightarrow> NaN | Some v \<Rightarrow> v)"

text \<open>
  \<open>newDistance < distances[to]\<close> for a finite \<open>newDistance\<close>: a comparison with
  \<open>NaN\<close> is false.
\<close>

fun lt_num :: "int \<Rightarrow> num \<Rightarrow> bool" where
  "lt_num a (Fin b) = (a < b)"
| "lt_num a PInf = True"
| "lt_num a NInf = False"
| "lt_num a NaN = False"

text \<open>\<open>currentDistance > distances[currentNode]\<close> for a finite \<open>currentDistance\<close>.\<close>

fun gt_num :: "int \<Rightarrow> num \<Rightarrow> bool" where
  "gt_num a (Fin b) = (a > b)"
| "gt_num a PInf = False"
| "gt_num a NInf = True"
| "gt_num a NaN = False"

record step =
  step_from :: string
  step_to :: string
  cost :: int
  edgeId :: string

record route =
  path :: "string list"
  totalCost :: num
  steps :: "step list"
  found :: bool

definition no_route :: route where
  "no_route = \<lparr>path = [], totalCost = Fin 0, steps = [], found = False\<rparr>"

section \<open>dijkstra.js\<close>

text \<open>An adjacency entry \<open>{node, weight, edgeId}\<close> is a triple.\<close>

type_synonym arc = "string \<times> int \<times> string"

definition init_graph :: "node list \<Rightarrow> 'a list obj" where
  "init_graph nodes = foldl (\<lambda>g n. AList.update (n_id n) [] g) [] nodes"

text \<open>\<open>graph[k].push(a)\<close>: a \<open>TypeError\<close> when \<open>graph[k]\<close> is \<open>undefined\<close>.\<close>

definition push_to :: "string \<Rightarrow> 'a \<Rightarrow> 'a list obj \<Rightarrow> js_error + 'a list obj" where
  "push_to k a g =
     (case map_of g k of
        None \<Rightarrow> Inl TypeError
      | Some as \<Rightarrow> Inr (AList.update k (as @ [a]) g))"

fun add_edges :: "edge list \<Rightarrow> arc list obj \<Rightarrow> js_error + arc list obj" where
  "add_edges [] g = Inr g"
| "add_edges (e # es) g =
     (if e_blocked e then add_edges es g
      else case push_to (e_from e) (e_to e, e_weight e, e_id e) g of
        Inl x \<Rightarrow> Inl x
      | Inr g1 \<Rightarrow>
         (case push_to (e_to e) (e_from e, e_weight e, e_id e) g1 of
            Inl x \<Rightarrow> Inl x
          | Inr g2 \<Rightarrow> add_edges es g2))"

record dstate =
  distances :: "num obj"
  previous :: "string option obj"
  visited :: "string list"
  pq :: "(string \<times> int) list"

definition init_tables :: "node list \<Rightarrow> num obj \<times> string option obj" where
  "init_tables nodes =
     foldl (\<lambda>(ds, pv) n. (AList.update (n_id n) PInf ds, AList.update (n_id n) None pv))
       ([], []) nodes"

definition init_dstate :: "node list \<Rightarrow> string \<Rightarrow> dstate" where
  "init_dstate nodes startId =
     (case init_tables nodes of (ds, pv) \<Rightarrow>
        \<lparr>distances = AList.update startId (Fin 0) ds, previous = pv,
         visited = [], pq = [(startId, 0)]\<rparr>)"

text \<open>The body of \<open>graph[currentNode].forEach\<close> for one adjacency entry.\<close>

fun relax_arc :: "string \<Rightarrow> dstate \<Rightarrow> arc \<Rightarrow> dstate" where
  "relax_arc cur st (nb, w, eid) =
     (if nb \<in> set (visited st) then st
      else case num_get (distances st) cur of
        Fin d \<Rightarrow>
          (if lt_num (d + w) (num_get (distances st) nb)
           then st\<lparr>distances := AList.update nb (Fin (d + w)) (distances st),
                   previous := AList.update nb (Some cur) (previous st),
                   pq := pq st @ [(nb, d + w)]\<rparr>
           else st)
      | _ \<Rightarrow> st)"

text \<open>
  One turn of \<open>while (pq.length > 0)\<close>, for a non-empty queue. \<open>Array.prototype.sort\<close>
  is stable, as \<open>sort_key\<close> is. The flag is \<open>True\<close> when the turn ends in \<open>break\<close>.
\<close>

definition dijkstra_iter :: "arc list obj \<Rightarrow> string \<Rightarrow> dstate \<Rightarrow> js_error + (dstate \<times> bool)" where
  "dijkstra_iter g endId st =
     (case sort_key snd (pq st) of
        [] \<Rightarrow> Inr (st, True)
      | (cur, cd) # rest \<Rightarrow>
          (let st1 = st\<lparr>pq := rest\<rparr> in
           if cur \<in> set (visited st1) then Inr (st1, False)
           else let st2 = st1\<lparr>visited := visited st1 @ [cur]\<rparr> in
             if cur = endId then Inr (st2, True)
             else if gt_num cd (num_get (distances st2) cur) then Inr (st2, False)
             else case map_of g cur of
                 None \<Rightarrow> Inl TypeError
               | Some arcs \<Rightarrow> Inr (foldl (relax_arc cur) st2 arcs, False)))"

definition arc_targets :: "arc list obj \<Rightarrow> string set" where
  "arc_targets g = (\<Union>(k, arcs) \<in> set g. fst ` set arcs)"

definition todo :: "arc list obj \<Rightarrow> dstate \<Rightarrow> string set" where
  "todo g st = (arc_targets g \<union> fst ` set (pq st)) - set (visited st)"

lemma finite_todo: "finite (todo g st)"
  by (auto simp: todo_def arc_targets_def)

lemma relax_arc_visited: "visited (relax_arc cur st a) = visited st"
  by (cases a) (auto split: num.splits)

lemma relax_arc_pq: "fst ` set (pq (relax_arc cur st a)) \<subseteq> insert (fst a) (fst ` set (pq st))"
  by (cases a) (auto split: num.splits)

lemma foldl_relax_visited: "visited (foldl (relax_arc cur) st arcs) = visited st"
  by (induction arcs arbitrary: st) (simp_all add: relax_arc_visited)

lemma foldl_relax_pq:
  "fst ` set (pq (foldl (relax_arc cur) st arcs)) \<subseteq> fst ` set arcs \<union> fst ` set (pq st)"
proof (induction arcs arbitrary: st)
  case Nil
  then show ?case by simp
next
  case (Cons a arcs)
  have "fst ` set (pq (foldl (relax_arc cur) (relax_arc cur st a) arcs))
          \<subseteq> fst ` set arcs \<union> fst ` set (pq (relax_arc cur st a))"
    by (rule Cons.IH)
  with relax_arc_pq [of cur st a] show ?case
    unfolding foldl_Cons list.set image_insert by blast
qed

lemma map_of_arc_targets: "map_of g k = Some arcs \<Longrightarrow> fst ` set arcs \<subseteq> arc_targets g"
  by (auto simp: arc_targets_def dest!: map_of_SomeD)

lemma dijkstra_iter_decreases:
  assumes "pq st \<noteq> []" and "dijkstra_iter g endId st = Inr (st', False)"
  shows "(st', st) \<in> inv_image (less_than <*lex*> less_than)
           (\<lambda>s. (card (todo g s), length (pq s)))"
proof -
  have "length (sort_key snd (pq st)) = length (pq st)"
    by simp
  with assms(1) obtain cur cd rest where srt: "sort_key snd (pq st) = (cur, cd) # rest"
    by (cases "sort_key snd (pq st)") auto
  have len: "length (pq st) = Suc (length rest)"
    using arg_cong [OF srt, of length] by simp
  have sets: "set (pq st) = insert (cur, cd) (set rest)"
    using arg_cong [OF srt, of set] by simp
  show ?thesis
  proof (cases "cur \<in> set (visited st)")
    case True
    then have st': "st' = st\<lparr>pq := rest\<rparr>"
      using assms(2) srt by (simp add: dijkstra_iter_def)
    have "todo g st' \<subseteq> todo g st"
      by (auto simp: st' todo_def sets)
    then have "card (todo g st') \<le> card (todo g st)"
      by (rule card_mono [OF finite_todo])
    then show ?thesis by (auto simp: st' len)
  next
    case False
    have cur_in: "cur \<in> todo g st"
      using False by (auto simp: todo_def sets)
    have "visited st' = visited st @ [cur] \<and> fst ` set (pq st') \<subseteq> arc_targets g \<union> fst ` set rest"
      using assms(2) srt False foldl_relax_pq [of cur "st\<lparr>pq := rest, visited := visited st @ [cur]\<rparr>"]
      by (auto simp: dijkstra_iter_def Let_def foldl_relax_visited
          split: if_splits option.splits dest!: map_of_arc_targets)
    then have "todo g st' \<subseteq> todo g st - {cur}"
      by (auto simp: todo_def sets)
    then have "todo g st' \<subset> todo g st"
      using cur_in by auto
    then have "card (todo g st') < card (todo g st)"
      by (rule psubset_card_mono [OF finite_todo])
    then show ?thesis by auto
  qed
qed

function dijkstra_loop :: "arc list obj \<Rightarrow> string \<Rightarrow> dstate \<Rightarrow> js_error + dstate" where
  "dijkstra_loop g endId st =
     (if pq st = [] then Inr st
      else case dijkstra_iter g endId st of
        Inl x \<Rightarrow> Inl x
      | Inr (st', brk) \<Rightarrow> if brk then Inr st' else dijkstra_loop g endId st')"
  by pat_completeness auto
termination
proof (relation "inv_image (less_than <*lex*> less_than)
           (\<lambda>(g, endId, s). (card (todo g s), length (pq s)))")
  show "wf (inv_image (less_than <*lex*> less_than)
           (\<lambda>(g, endId, s). (card (todo g s), length (pq s))))"
    by (intro wf_inv_image wf_lex_prod wf_less_than)
next
  fix g endId st x2 x y
  assume "pq st \<noteq> []" "dijkstra_iter g endId st = Inr x2" "(x, y) = x2" "\<not> y"
  then have "dijkstra_iter g endId st = Inr (x, False)" by auto
  from dijkstra_iter_decreases [OF \<open>pq st \<noteq> []\<close> this]
  show "((g, endId, x), g, endId, st) \<in> inv_image (less_than <*lex*> less_than)
           (\<lambda>(g, endId, s). (card (todo g s), length (pq s)))"
    by simp
qed

declare dijkstra_loop.simps [simp del]

text \<open>
  \<open>while (current !== null) { path.unshift(current); current = previous[current]; }\<close>
  The loop has no guard against a cycle in \<open>previous\<close> or against \<open>undefined\<close>
  (which is not \<open>null\<close> and reads \<open>undefined\<close> again): there it never returns.
\<close>

partial_function (option) walk_back :: "string option obj \<Rightarrow> string \<Rightarrow> string list \<Rightarrow> string list option" where
  [code]: "walk_back pv current p =
     (case map_of pv current of
        None \<Rightarrow> None
      | Some None \<Rightarrow> Some (current # p)
      | Some (Some u) \<Rightarrow> walk_back pv u (current # p))"

definition joins :: "string \<Rightarrow> string \<Rightarrow> edge \<Rightarrow> bool" where
  "joins a b e \<longleftrightarrow> (e_from e = a \<and> e_to e = b) \<or> (e_to e = a \<and> e_from e = b)"

definition step_of :: "string \<Rightarrow> string \<Rightarrow> edge \<Rightarrow> step" where
  "step_of a b e = \<lparr>step_from = a, step_to = b, cost = e_weight e, edgeId = e_id e\<rparr>"

text \<open>The steps loop of dijkstra: \<open>edges.find\<close> over the whole edge list.\<close>

fun find_steps :: "edge list \<Rightarrow> string list \<Rightarrow> step list" where
  "find_steps es (a # b # p) =
     (case List.find (joins a b) es of
        None \<Rightarrow> find_steps es (b # p)
      | Some e \<Rightarrow> step_of a b e # find_steps es (b # p))"
| "find_steps es p = []"

text \<open>
  The whole function. An identifier that passes the test on \<open>graph\<close> only through an
  inherited member is no key of \<open>graph\<close>, \<open>distances\<close> or \<open>previous\<close>: as
  \<open>startId\<close> it makes \<open>graph[currentNode].forEach\<close> throw in the first turn of the
  loop, as \<open>endId\<close> it is never reached and the reconstruction of the path never ends.
\<close>

definition dijkstra :: "node list \<Rightarrow> edge list \<Rightarrow> string \<Rightarrow> string \<Rightarrow> route outcome" where
  "dijkstra nodes edges startId endId =
     (if startId = [] \<or> endId = [] \<or> startId = endId then Returns no_route
      else case add_edges edges (init_graph nodes) of
        Inl x \<Rightarrow> Throws x
      | Inr g \<Rightarrow>
          if \<not> has_member g startId \<or> \<not> has_member g endId then Returns no_route
          else case dijkstra_loop g endId (init_dstate nodes startId) of
            Inl x \<Rightarrow> Throws x
          | Inr st \<Rightarrow>
              if num_get (distances st) endId = PInf then Returns no_route
              else case walk_back (previous st) endId [] of
                None \<Rightarrow> Diverges
              | Some p \<Rightarrow>
                  Returns \<lparr>path = p, totalCost = num_get (distances st) endId,
                           steps = find_steps edges p, found = True\<rparr>)"

section \<open>bellmanFord.js\<close>

record bf_route = route +
  hasNegativeCycle :: bool
  error :: "string option"

definition bf_fail :: "bool \<Rightarrow> string option \<Rightarrow> bf_route" where
  "bf_fail neg err =
     \<lparr>path = [], totalCost = Fin 0, steps = [], found = False,
      hasNegativeCycle = neg, error = err\<rparr>"

text \<open>An entry \<open>{from, to, weight, id}\<close> of \<open>bidirectionalEdges\<close>.\<close>

type_synonym dedge = "string \<times> string \<times> int \<times> string"

definition bidirectional :: "edge list \<Rightarrow> dedge list" where
  "bidirectional es =
     concat (map (\<lambda>e. [(e_from e, e_to e, e_weight e, e_id e),
                          (e_to e, e_from e, e_weight e, e_id e)]) es)"

text \<open>The key \<open>`${from}-${to}`\<close> of \<open>edgeMap\<close>.\<close>

definition edge_key :: "string \<Rightarrow> string \<Rightarrow> string" where
  "edge_key a b = a @ ''-'' @ b"

definition edge_map :: "edge list \<Rightarrow> edge obj" where
  "edge_map es =
     foldl (\<lambda>m e. AList.update (edge_key (e_to e) (e_from e)) e
                    (AList.update (edge_key (e_from e) (e_to e)) e m)) [] es"

text \<open>
  Relaxing one directed edge. \<open>distances[from] !== Infinity\<close> lets \<open>undefined\<close>
  through, but then \<open>newDistance\<close> is \<open>NaN\<close> and the comparison fails.
\<close>

fun bf_relax :: "num obj \<times> string option obj \<times> bool \<Rightarrow> dedge \<Rightarrow> num obj \<times> string option obj \<times> bool" where
  "bf_relax (ds, pv, updated) (a, b, w, i) =
     (case num_get ds a of
        Fin d \<Rightarrow>
          (if lt_num (d + w) (num_get ds b)
           then (AList.update b (Fin (d + w)) ds, AList.update b (Some a) pv, True)
           else (ds, pv, updated))
      | _ \<Rightarrow> (ds, pv, updated))"

text \<open>The relaxation loop: at most \<open>k\<close> passes, stopping after a pass without update.\<close>

fun bf_passes :: "nat \<Rightarrow> dedge list \<Rightarrow> num obj \<times> string option obj \<Rightarrow> num obj \<times> string option obj" where
  "bf_passes 0 es (ds, pv) = (ds, pv)"
| "bf_passes (Suc k) es (ds, pv) =
     (case foldl bf_relax (ds, pv, False) es of
        (ds', pv', updated) \<Rightarrow> if updated then bf_passes k es (ds', pv') else (ds', pv'))"

fun relaxable :: "num obj \<Rightarrow> dedge \<Rightarrow> bool" where
  "relaxable ds (a, b, w, i) =
     (case num_get ds a of Fin d \<Rightarrow> lt_num (d + w) (num_get ds b) | _ \<Rightarrow> False)"

text \<open>\<open>nodesInNegativeCycle\<close> after the check of every edge.\<close>

definition still_relaxable :: "num obj \<Rightarrow> dedge list \<Rightarrow> string set" where
  "still_relaxable ds es =
     foldl (\<lambda>S e. if relaxable ds e then insert (fst (snd e)) S else S) {} es"

definition spread_pass :: "dedge list \<Rightarrow> string set \<Rightarrow> string set" where
  "spread_pass es S = foldl (\<lambda>S e. if fst e \<in> S then insert (fst (snd e)) S else S) S es"

fun spread :: "nat \<Rightarrow> dedge list \<Rightarrow> string set \<Rightarrow> string set" where
  "spread 0 es S = S"
| "spread (Suc n) es S = spread n es (spread_pass es S)"

text \<open>
  Path reconstruction with the \<open>visited\<close> guard; \<open>None\<close> is the return
  "Cycle detected in path reconstruction". When \<open>previous[current]\<close> is
  \<open>undefined\<close> the loop goes on with \<open>undefined\<close>, reads \<open>undefined\<close>
  again and leaves through the guard on the following turn.
\<close>

function bf_walk_back :: "string option obj \<Rightarrow> string list \<Rightarrow> string \<Rightarrow> string list \<Rightarrow> string list option" where
  "bf_walk_back pv vis current p =
     (if current \<in> set vis then None
      else case map_of pv current of
        None \<Rightarrow> None
      | Some None \<Rightarrow> Some (current # p)
      | Some (Some u) \<Rightarrow> bf_walk_back pv (current # vis) u (current # p))"
  by pat_completeness auto
termination
proof (relation "measure (\<lambda>(pv, vis, current, p). card (fst ` set pv - set vis))")
  show "wf (measure (\<lambda>(pv, vis, current, p). card (fst ` set pv - set vis)))"
    by simp
next
  fix pv :: "string option obj" and vis current and p :: "string list" and x2 u
  assume a: "current \<notin> set vis" "map_of pv current = Some x2"
  have "current \<in> fst ` set pv"
    using a(2) by (metis map_of_eq_None_iff option.distinct(1))
  then have "fst ` set pv - set (current # vis) \<subset> fst ` set pv - set vis"
    using a(1) by auto
  then have "card (fst ` set pv - set (current # vis)) < card (fst ` set pv - set vis)"
    by (intro psubset_card_mono) auto
  then show "((pv, current # vis, u, current # p), pv, vis, current, p)
      \<in> measure (\<lambda>(pv, vis, current, p). card (fst ` set pv - set vis))"
    by simp
qed

declare bf_walk_back.simps [simp del]

fun map_steps :: "edge obj \<Rightarrow> string list \<Rightarrow> step list" where
  "map_steps m (a # b # p) =
     (case map_of m (edge_key a b) of
        None \<Rightarrow> map_steps m (b # p)
      | Some e \<Rightarrow> step_of a b e # map_steps m (b # p))"
| "map_steps m p = []"

text \<open>
  The function is cut into its stages, each a definition that receives the values
  computed so far: the tail from the test of the destination on, the detection of a
  negative cycle, and the whole.
\<close>

definition bf_report :: "string \<Rightarrow> string \<Rightarrow> edge obj \<Rightarrow> num obj \<Rightarrow> string option obj \<Rightarrow> string set \<Rightarrow> bf_route" where
  "bf_report startId endId edgeMap ds pv cyc =
     (if endId \<in> cyc
      then \<lparr>path = [], totalCost = NInf, steps = [], found = False,
            hasNegativeCycle = True,
            error = Some ''Destination is affected by a negative weight cycle''\<rparr>
      else if num_get ds endId = PInf then bf_fail (cyc \<noteq> {}) None
      else case bf_walk_back pv [] endId [] of
        None \<Rightarrow> bf_fail False (Some ''Cycle detected in path reconstruction'')
      | Some p \<Rightarrow>
          if p = [] \<or> hd p \<noteq> startId \<or> last p \<noteq> endId then bf_fail (cyc \<noteq> {}) None
          else \<lparr>path = p, totalCost = num_get ds endId, steps = map_steps edgeMap p,
                found = True, hasNegativeCycle = (cyc \<noteq> {}), error = None\<rparr>)"

text \<open>
  \<open>nodesInNegativeCycle\<close> when the destination is tested: the propagation runs only
  if some node can still be relaxed.
\<close>

definition negative_cycle_nodes :: "nat \<Rightarrow> dedge list \<Rightarrow> num obj \<Rightarrow> string set" where
  "negative_cycle_nodes nodeCount es ds =
     (if still_relaxable ds es \<noteq> {} then spread nodeCount es (still_relaxable ds es) else {})"

definition bf_tables :: "node list \<Rightarrow> string \<Rightarrow> dedge list \<Rightarrow> num obj \<times> string option obj" where
  "bf_tables nodes startId es =
     (case init_tables nodes of
        (ds0, pv0) \<Rightarrow> bf_passes (length nodes - 1) es (AList.update startId (Fin 0) ds0, pv0))"

definition bf_search :: "node list \<Rightarrow> string \<Rightarrow> string \<Rightarrow> edge list \<Rightarrow> bf_route" where
  "bf_search nodes startId endId activeEdges =
     (if bidirectional activeEdges = [] then bf_fail False (Some ''No active edges in graph'')
      else case bf_tables nodes startId (bidirectional activeEdges) of
        (ds, pv) \<Rightarrow>
          bf_report startId endId (edge_map activeEdges) ds pv
            (negative_cycle_nodes (length nodes) (bidirectional activeEdges) ds))"

definition bellmanFord :: "node list \<Rightarrow> edge list \<Rightarrow> string \<Rightarrow> string \<Rightarrow> bf_route" where
  "bellmanFord nodes edges startId endId =
     (if nodes = [] then bf_fail False (Some ''Invalid input: nodes and edges are required'')
      else if startId = [] \<or> endId = []
        then bf_fail False (Some ''Start and end node IDs are required'')
      else if startId = endId
        then \<lparr>path = [startId], totalCost = Fin 0, steps = [], found = True,
              hasNegativeCycle = False, error = None\<rparr>
      else if startId \<notin> n_id ` set nodes \<or> endId \<notin> n_id ` set nodes
        then bf_fail False (Some ''Start or end node not found in graph'')
      else bf_search nodes startId endId (filter (\<lambda>e. \<not> e_blocked e) edges))"

section \<open>Graph theory analysis (page.jsx)\<close>

subsection \<open>calculateDegrees\<close>

text \<open>\<open>degrees[k]++\<close>: on a key that is absent, the stored value is \<open>NaN\<close>.\<close>

definition incr :: "string \<Rightarrow> num obj \<Rightarrow> num obj" where
  "incr k ds =
     (case num_get ds k of
        Fin d \<Rightarrow> AList.update k (Fin (d + 1)) ds
      | PInf \<Rightarrow> AList.update k PInf ds
      | NInf \<Rightarrow> AList.update k NInf ds
      | NaN \<Rightarrow> AList.update k NaN ds)"

definition calculateDegrees :: "node list \<Rightarrow> edge list \<Rightarrow> num obj" where
  "calculateDegrees nodes edges =
     foldl (\<lambda>ds e. if e_blocked e then ds else incr (e_to e) (incr (e_from e) ds))
       (foldl (\<lambda>ds n. AList.update (n_id n) (Fin 0) ds) [] nodes) edges"

subsection \<open>isGraphConnected\<close>

record connectivity =
  connected :: bool
  components :: nat

fun add_links :: "edge list \<Rightarrow> string list obj \<Rightarrow> js_error + string list obj" where
  "add_links [] g = Inr g"
| "add_links (e # es) g =
     (if e_blocked e then add_links es g
      else case push_to (e_from e) (e_to e) g of
        Inl x \<Rightarrow> Inl x
      | Inr g1 \<Rightarrow>
         (case push_to (e_to e) (e_from e) g1 of
            Inl x \<Rightarrow> Inl x
          | Inr g2 \<Rightarrow> add_links es g2))"

definition obj_ids :: "string list obj \<Rightarrow> string set" where
  "obj_ids g = fst ` set g \<union> (\<Union>(k, ns) \<in> set g. set ns)"

lemma finite_obj_ids: "finite (obj_ids g)"
  by (auto simp: obj_ids_def)

lemma map_of_obj_ids: "map_of g k = Some ns \<Longrightarrow> insert k (set ns) \<subseteq> obj_ids g"
  by (auto simp: obj_ids_def dest!: map_of_SomeD) force

text \<open>
  The recursive \<open>dfs(nodeId)\<close> with its call stack made explicit: the work list holds
  the neighbours still to be looked at by the pending \<open>forEach\<close> loops, innermost
  first. \<open>dfs(n)\<close> on an unvisited \<open>n\<close> is \<open>dfs g vis [n]\<close>. The visited set is
  kept in insertion order.
\<close>

function dfs :: "string list obj \<Rightarrow> string list \<Rightarrow> string list \<Rightarrow> js_error + string list" where
  "dfs g vis [] = Inr vis"
| "dfs g vis (x # work) =
     (if x \<in> set vis then dfs g vis work
      else case map_of g x of
        None \<Rightarrow> Inl TypeError
      | Some ns \<Rightarrow> dfs g (vis @ [x]) (ns @ work))"
  by pat_completeness auto
termination
proof (relation "inv_image (less_than <*lex*> less_than)
         (\<lambda>(g, vis, work). (card ((obj_ids g \<union> set work) - set vis), length work))")
  show "wf (inv_image (less_than <*lex*> less_than)
         (\<lambda>(g, vis, work). (card ((obj_ids g \<union> set work) - set vis), length work)))"
    by (intro wf_inv_image wf_lex_prod wf_less_than)
next
  fix g :: "string list obj" and vis work :: "string list" and x :: string
  assume "x \<in> set vis"
  have "card ((obj_ids g \<union> set work) - set vis) \<le> card ((obj_ids g \<union> set (x # work)) - set vis)"
    by (intro card_mono) (auto simp: finite_obj_ids)
  then show "((g, vis, work), g, vis, x # work)
      \<in> inv_image (less_than <*lex*> less_than)
         (\<lambda>(g, vis, work). (card ((obj_ids g \<union> set work) - set vis), length work))"
    by auto
next
  fix g :: "string list obj" and vis work ns :: "string list" and x :: string
  assume a: "x \<notin> set vis" "map_of g x = Some ns"
  have "(obj_ids g \<union> set (ns @ work)) - set (vis @ [x])
          \<subset> (obj_ids g \<union> set (x # work)) - set vis"
    using a(1) map_of_obj_ids [OF a(2)] by auto
  then have "card ((obj_ids g \<union> set (ns @ work)) - set (vis @ [x]))
          < card ((obj_ids g \<union> set (x # work)) - set vis)"
    by (intro psubset_card_mono) (auto simp: finite_obj_ids)
  then show "((g, vis @ [x], ns @ work), g, vis, x # work)
      \<in> inv_image (less_than <*lex*> less_than)
         (\<lambda>(g, vis, work). (card ((obj_ids g \<union> set work) - set vis), length work))"
    by auto
qed

text \<open>The loop \<open>nodes.forEach\<close> that starts a traversal at every unvisited node.\<close>

fun count_components :: "string list obj \<Rightarrow> node list \<Rightarrow> string list \<Rightarrow> nat \<Rightarrow> js_error + nat" where
  "count_components g [] vis c = Inr c"
| "count_components g (n # ns) vis c =
     (if n_id n \<in> set vis then count_components g ns vis c
      else case dfs g vis [n_id n] of
        Inl x \<Rightarrow> Inl x
      | Inr vis' \<Rightarrow> count_components g ns vis' (c + 1))"

definition isGraphConnected :: "node list \<Rightarrow> edge list \<Rightarrow> js_error + connectivity" where
  "isGraphConnected nodes edges =
     (if length nodes = 0 then Inr \<lparr>connected = True, components = 0\<rparr>
      else if length nodes = 1 then Inr \<lparr>connected = True, components = 1\<rparr>
      else case add_links edges (init_graph nodes) of
        Inl x \<Rightarrow> Inl x
      | Inr g \<Rightarrow>
         (case count_components g nodes [] 0 of
            Inl x \<Rightarrow> Inl x
          | Inr c \<Rightarrow> Inr \<lparr>connected = (c = 1), components = c\<rparr>))"

subsection \<open>analyzeEulerian\<close>

text \<open>
  The result record without its two explanation strings. \<open>connectivity\<close> is absent
  from the record returned for a graph without unblocked edges.
\<close>

record eulerian =
  hasEulerianCircuit :: bool
  hasEulerianPath :: bool
  oddDegreeVertices :: "string list"
  oddDegreeCount :: nat
  degrees :: "num obj"
  connectivity :: "connectivity option"
  startEndVertices :: "(string \<times> string) option"

text \<open>\<open>degrees[nodeId] % 2 === 1\<close>\<close>

fun is_odd :: "num \<Rightarrow> bool" where
  "is_odd (Fin d) = (d mod 2 = 1)"
| "is_odd _ = False"

text \<open>The chain of tests that applies Euler's theorem: (circuit, path).\<close>

definition euler_verdict :: "connectivity \<Rightarrow> nat \<Rightarrow> bool \<times> bool" where
  "euler_verdict conn k =
     (if \<not> connected conn then (False, False)
      else if k = 0 then (True, True)
      else if k = 2 then (False, True)
      else (False, False))"

definition odd_vertices :: "num obj \<Rightarrow> string list" where
  "odd_vertices degs = filter (\<lambda>k. is_odd (num_get degs k)) (map fst degs)"

definition euler_report :: "connectivity \<Rightarrow> num obj \<Rightarrow> string list \<Rightarrow> eulerian" where
  "euler_report conn degs odds =
     \<lparr>hasEulerianCircuit = fst (euler_verdict conn (length odds)),
      hasEulerianPath = snd (euler_verdict conn (length odds)),
      oddDegreeVertices = odds, oddDegreeCount = length odds, degrees = degs,
      connectivity = Some conn,
      startEndVertices = (if length odds = 2 then Some (odds ! 0, odds ! 1) else None)\<rparr>"

definition euler_theorem :: "connectivity \<Rightarrow> num obj \<Rightarrow> eulerian" where
  "euler_theorem conn degs = euler_report conn degs (odd_vertices degs)"

definition euler_active :: "node list \<Rightarrow> edge list \<Rightarrow> js_error + eulerian" where
  "euler_active nodes activeEdges =
     (if length activeEdges = 0
      then Inr \<lparr>hasEulerianCircuit = (length nodes \<le> 1), hasEulerianPath = (length nodes \<le> 1),
                oddDegreeVertices = [], oddDegreeCount = 0,
                degrees = calculateDegrees nodes activeEdges,
                connectivity = None, startEndVertices = None\<rparr>
      else case isGraphConnected nodes activeEdges of
        Inl x \<Rightarrow> Inl x
      | Inr conn \<Rightarrow> Inr (euler_theorem conn (calculateDegrees nodes activeEdges)))"

definition analyzeEulerian :: "node list \<Rightarrow> edge list \<Rightarrow> js_error + eulerian" where
  "analyzeEulerian nodes edges = euler_active nodes (filter (\<lambda>e. \<not> e_blocked e) edges)"

subsection \<open>analyzeHamiltonian\<close>

text \<open>An answer is \<open>true\<close>, \<open>false\<close> or the string \<open>"unknown"\<close>.\<close>

datatype answer = Bool bool | Unknown

text \<open>
  \<open>samplePath\<close>: an array of node ids, \<open>null\<close>, the string "Guaranteed to exist
  (construction not computed)", or no such field.
\<close>

datatype sample = Path "string list" | Null | Guaranteed | Absent

record hamiltonian =
  hasHamiltonianCircuit :: answer
  hasHamiltonianPath :: answer
  certainty :: string
  theoremApplied :: string
  samplePath :: sample

text \<open>A \<open>Set\<close> of neighbours, in insertion order.\<close>

definition set_add :: "string \<Rightarrow> string list \<Rightarrow> string list" where
  "set_add v ns = (if v \<in> set ns then ns else ns @ [v])"

definition add_to :: "string \<Rightarrow> string \<Rightarrow> string list obj \<Rightarrow> js_error + string list obj" where
  "add_to k v g =
     (case map_of g k of
        None \<Rightarrow> Inl TypeError
      | Some ns \<Rightarrow> Inr (AList.update k (set_add v ns) g))"

fun add_adjacent :: "edge list \<Rightarrow> string list obj \<Rightarrow> js_error + string list obj" where
  "add_adjacent [] g = Inr g"
| "add_adjacent (e # es) g =
     (case add_to (e_from e) (e_to e) g of
        Inl x \<Rightarrow> Inl x
      | Inr g1 \<Rightarrow>
         (case add_to (e_to e) (e_from e) g1 of
            Inl x \<Rightarrow> Inl x
          | Inr g2 \<Rightarrow> add_adjacent es g2))"

fun min_num :: "num \<Rightarrow> num \<Rightarrow> num" where
  "min_num NaN b = NaN"
| "min_num a NaN = NaN"
| "min_num NInf b = NInf"
| "min_num a NInf = NInf"
| "min_num PInf b = b"
| "min_num a PInf = a"
| "min_num (Fin a) (Fin b) = Fin (min a b)"

text \<open>\<open>Math.min(...values)\<close>; \<open>Infinity\<close> for no values.\<close>

definition math_min :: "num list \<Rightarrow> num" where
  "math_min vs = foldl min_num PInf vs"

text \<open>\<open>minDegree >= n / 2\<close>\<close>

fun ge_half :: "num \<Rightarrow> nat \<Rightarrow> bool" where
  "ge_half (Fin d) n = (int n \<le> 2 * d)"
| "ge_half PInf n = True"
| "ge_half NInf n = False"
| "ge_half NaN n = False"

text \<open>\<open>degrees[u] + degrees[v] < n\<close>\<close>

fun sum_less :: "num \<Rightarrow> num \<Rightarrow> nat \<Rightarrow> bool" where
  "sum_less (Fin a) (Fin b) n = (a + b < int n)"
| "sum_less NInf (Fin b) n = True"
| "sum_less (Fin a) NInf n = True"
| "sum_less NInf NInf n = True"
| "sum_less a b n = False"

text \<open>
  The two nested loops of the check of Ore's condition; \<open>False\<close> as soon as a
  non-adjacent pair has a degree sum below \<open>n\<close>.
\<close>

fun ore_row :: "string list obj \<Rightarrow> num obj \<Rightarrow> nat \<Rightarrow> string \<Rightarrow> string list \<Rightarrow> js_error + bool" where
  "ore_row g degs n u [] = Inr True"
| "ore_row g degs n u (v # vs) =
     (case map_of g u of
        None \<Rightarrow> Inl TypeError
      | Some ns \<Rightarrow>
          if v \<notin> set ns \<and> sum_less (num_get degs u) (num_get degs v) n then Inr False
          else ore_row g degs n u vs)"

fun ore_rows :: "string list obj \<Rightarrow> num obj \<Rightarrow> nat \<Rightarrow> string list \<Rightarrow> js_error + bool" where
  "ore_rows g degs n [] = Inr True"
| "ore_rows g degs n (u # us) =
     (case ore_row g degs n u us of
        Inl x \<Rightarrow> Inl x
      | Inr False \<Rightarrow> Inr False
      | Inr True \<Rightarrow> ore_rows g degs n us)"

text \<open>
  \<open>hamiltonianPathDFS\<close>. \<open>visited\<close> and \<open>path\<close> always hold the same
  elements (both are extended on entry and both are restored before \<open>return false\<close>),
  so the list \<open>p\<close> stands for both. The result is the path when the search
  returns \<open>true\<close>. \<open>ham_path_next\<close> is the loop over the neighbours.
\<close>

function ham_path_dfs :: "string list obj \<Rightarrow> nat \<Rightarrow> string list \<Rightarrow> string \<Rightarrow> js_error + string list option"
  and ham_path_next :: "string list obj \<Rightarrow> nat \<Rightarrow> string list \<Rightarrow> string list \<Rightarrow> js_error + string list option" where
  "ham_path_dfs g n p current =
     (if length (p @ [current]) = n then Inr (Some (p @ [current]))
      else case map_of g current of
        None \<Rightarrow> Inl TypeError
      | Some ns \<Rightarrow> ham_path_next g n (p @ [current]) ns)"
| "ham_path_next g n p [] = Inr None"
| "ham_path_next g n p (x # xs) =
     (if x \<in> set p then ham_path_next g n p xs
      else case ham_path_dfs g n p x of
        Inl e \<Rightarrow> Inl e
      | Inr (Some q) \<Rightarrow> Inr (Some q)
      | Inr None \<Rightarrow> ham_path_next g n p xs)"
  by pat_completeness auto

definition ham_measure :: "(string list obj \<times> nat \<times> string list \<times> string) + (string list obj \<times> nat \<times> string list \<times> string list) \<Rightarrow> nat \<times> nat \<times> nat" where
  "ham_measure a = (case a of
      Inl (g, n, p, current) \<Rightarrow> (card (obj_ids g - set p - {current}), 1, 0)
    | Inr (g, n, p, xs) \<Rightarrow> (card ((obj_ids g \<union> set xs) - set p), 0, length xs))"

termination ham_path_dfs
proof (relation "inv_image (less_than <*lex*> less_than <*lex*> less_than) ham_measure")
  show "wf (inv_image (less_than <*lex*> less_than <*lex*> less_than) ham_measure)"
    by (intro wf_inv_image wf_lex_prod wf_less_than)
next
  fix g :: "string list obj" and n :: nat and p ns :: "string list" and current :: string
  assume "map_of g current = Some ns"
  then have "set ns \<subseteq> obj_ids g"
    using map_of_obj_ids by fastforce
  then have "(obj_ids g \<union> set ns) - set (p @ [current]) = obj_ids g - set p - {current}"
    by auto
  then show "(Inr (g, n, p @ [current], ns), Inl (g, n, p, current))
      \<in> inv_image (less_than <*lex*> less_than <*lex*> less_than) ham_measure"
    by (simp add: ham_measure_def)
next
  fix g :: "string list obj" and n :: nat and p xs :: "string list" and x :: string
  have "card ((obj_ids g \<union> set xs) - set p) \<le> card ((obj_ids g \<union> set (x # xs)) - set p)"
    by (intro card_mono) (auto simp: finite_obj_ids)
  then show "(Inr (g, n, p, xs), Inr (g, n, p, x # xs))
      \<in> inv_image (less_than <*lex*> less_than <*lex*> less_than) ham_measure"
    by (auto simp: ham_measure_def)
  then show "(Inr (g, n, p, xs), Inr (g, n, p, x # xs))
      \<in> inv_image (less_than <*lex*> less_than <*lex*> less_than) ham_measure" .
next
  fix g :: "string list obj" and n :: nat and p xs :: "string list" and x :: string
  assume "x \<notin> set p"
  then have "obj_ids g - set p - {x} \<subset> (obj_ids g \<union> set (x # xs)) - set p"
    by auto
  then have "card (obj_ids g - set p - {x}) < card ((obj_ids g \<union> set (x # xs)) - set p)"
    by (intro psubset_card_mono) (auto simp: finite_obj_ids)
  then show "(Inl (g, n, p, x), Inr (g, n, p, x # xs))
      \<in> inv_image (less_than <*lex*> less_than <*lex*> less_than) ham_measure"
    by (simp add: ham_measure_def)
qed

text \<open>The loop of \<open>findHamiltonianPath\<close> over the start vertices.\<close>

fun try_starts :: "string list obj \<Rightarrow> nat \<Rightarrow> string list \<Rightarrow> js_error + string list option" where
  "try_starts g n [] = Inr None"
| "try_starts g n (s # ss) =
     (case ham_path_dfs g n [] s of
        Inl e \<Rightarrow> Inl e
      | Inr (Some q) \<Rightarrow> Inr (Some q)
      | Inr None \<Rightarrow> try_starts g n ss)"

definition findHamiltonianPath :: "node list \<Rightarrow> string list obj \<Rightarrow> js_error + string list option" where
  "findHamiltonianPath nodes g = try_starts g (length nodes) (map n_id nodes)"

text \<open>
  \<open>hamiltonianCircuitDFS\<close>: \<open>current\<close> is the last element of \<open>p\<close>, which
  again stands for \<open>visited\<close> as well.
\<close>

function ham_circuit_dfs :: "string list obj \<Rightarrow> nat \<Rightarrow> string \<Rightarrow> string list \<Rightarrow> string \<Rightarrow> js_error + string list option"
  and ham_circuit_next :: "string list obj \<Rightarrow> nat \<Rightarrow> string \<Rightarrow> string list \<Rightarrow> string list \<Rightarrow> js_error + string list option" where
  "ham_circuit_dfs g n start p current =
     (case map_of g current of
        None \<Rightarrow> Inl TypeError
      | Some ns \<Rightarrow>
          if length p = n then (if start \<in> set ns then Inr (Some p) else Inr None)
          else ham_circuit_next g n start p ns)"
| "ham_circuit_next g n start p [] = Inr None"
| "ham_circuit_next g n start p (x # xs) =
     (if x \<in> set p then ham_circuit_next g n start p xs
      else case ham_circuit_dfs g n start (p @ [x]) x of
        Inl e \<Rightarrow> Inl e
      | Inr (Some q) \<Rightarrow> Inr (Some q)
      | Inr None \<Rightarrow> ham_circuit_next g n start p xs)"
  by pat_completeness auto

definition circuit_measure :: "(string list obj \<times> nat \<times> string \<times> string list \<times> string) + (string list obj \<times> nat \<times> string \<times> string list \<times> string list) \<Rightarrow> nat \<times> nat \<times> nat" where
  "circuit_measure a = (case a of
      Inl (g, n, start, p, current) \<Rightarrow> (card (obj_ids g - set p), 1, 0)
    | Inr (g, n, start, p, xs) \<Rightarrow> (card ((obj_ids g \<union> set xs) - set p), 0, length xs))"

termination ham_circuit_dfs
proof (relation "inv_image (less_than <*lex*> less_than <*lex*> less_than) circuit_measure")
  show "wf (inv_image (less_than <*lex*> less_than <*lex*> less_than) circuit_measure)"
    by (intro wf_inv_image wf_lex_prod wf_less_than)
next
  fix g :: "string list obj" and n :: nat and p ns :: "string list" and start current :: string
  assume "map_of g current = Some ns"
  then have "set ns \<subseteq> obj_ids g"
    using map_of_obj_ids by fastforce
  then have "(obj_ids g \<union> set ns) - set p = obj_ids g - set p"
    by auto
  then show "(Inr (g, n, start, p, ns), Inl (g, n, start, p, current))
      \<in> inv_image (less_than <*lex*> less_than <*lex*> less_than) circuit_measure"
    by (simp add: circuit_measure_def)
next
  fix g :: "string list obj" and n :: nat and p xs :: "string list" and start x :: string
  have "card ((obj_ids g \<union> set xs) - set p) \<le> card ((obj_ids g \<union> set (x # xs)) - set p)"
    by (intro card_mono) (auto simp: finite_obj_ids)
  then show "(Inr (g, n, start, p, xs), Inr (g, n, start, p, x # xs))
      \<in> inv_image (less_than <*lex*> less_than <*lex*> less_than) circuit_measure"
    by (auto simp: circuit_measure_def)
  then show "(Inr (g, n, start, p, xs), Inr (g, n, start, p, x # xs))
      \<in> inv_image (less_than <*lex*> less_than <*lex*> less_than) circuit_measure" .
next
  fix g :: "string list obj" and n :: nat and p xs :: "string list" and start x :: string
  assume "x \<notin> set p"
  then have "obj_ids g - set (p @ [x]) \<subset> (obj_ids g \<union> set (x # xs)) - set p"
    by auto
  then have "card (obj_ids g - set (p @ [x])) < card ((obj_ids g \<union> set (x # xs)) - set p)"
    by (intro psubset_card_mono) (auto simp: finite_obj_ids)
  then show "(Inl (g, n, start, p @ [x], x), Inr (g, n, start, p, x # xs))
      \<in> inv_image (less_than <*lex*> less_than <*lex*> less_than) circuit_measure"
    by (simp add: circuit_measure_def)
qed

text \<open>\<open>nodeIds[0]\<close> is \<open>undefined\<close> for an empty node list, and \<open>graph[undefined]\<close> too.\<close>

definition findHamiltonianCircuit :: "node list \<Rightarrow> string list obj \<Rightarrow> js_error + string list option" where
  "findHamiltonianCircuit nodes g =
     (case map n_id nodes of
        [] \<Rightarrow> Inl TypeError
      | start # _ \<Rightarrow> ham_circuit_dfs g (length nodes) start [start] start)"

definition definite :: "bool \<Rightarrow> bool \<Rightarrow> string \<Rightarrow> sample \<Rightarrow> hamiltonian" where
  "definite c p thm smp =
     \<lparr>hasHamiltonianCircuit = Bool c, hasHamiltonianPath = Bool p, certainty = ''definite'',
      theoremApplied = thm, samplePath = smp\<rparr>"

definition analyzeHamiltonian :: "node list \<Rightarrow> edge list \<Rightarrow> js_error + hamiltonian" where
  "analyzeHamiltonian nodes edges =
     (let activeEdges = filter (\<lambda>e. \<not> e_blocked e) edges;
          n = length nodes
      in if n = 0 then Inr (definite True True ''Convention'' (Path []))
      else if n = 1 then Inr (definite True True ''Convention'' (Path [n_id (nodes ! 0)]))
      else if n = 2 then
        (let hasEdge = list_ex (joins (n_id (nodes ! 0)) (n_id (nodes ! 1))) activeEdges
         in Inr (definite False hasEdge ''Definition''
                  (if hasEdge then Path [n_id (nodes ! 0), n_id (nodes ! 1)] else Null)))
      else case add_adjacent activeEdges (init_graph nodes) of
        Inl x \<Rightarrow> Inl x
      | Inr g \<Rightarrow>
         (case isGraphConnected nodes activeEdges of
            Inl x \<Rightarrow> Inl x
          | Inr conn \<Rightarrow>
              let degs = calculateDegrees nodes activeEdges in
              if \<not> connected conn then Inr (definite False False ''Connectivity requirement'' Null)
              else
                let minDegree = math_min (map snd degs);
                    diracCondition = ge_half minDegree n
                in if diracCondition \<and> n \<ge> 3
                   then Inr (definite True True ''Dirac's Theorem'' Guaranteed)
                   else case ore_rows g degs n (map n_id nodes) of
                     Inl x \<Rightarrow> Inl x
                   | Inr oreConditionSatisfied \<Rightarrow>
                       if oreConditionSatisfied \<and> n \<ge> 3
                       then Inr (definite True True ''Ore's Theorem'' Guaranteed)
                       else if n \<le> 8 then
                         (case findHamiltonianPath nodes g of
                            Inl x \<Rightarrow> Inl x
                          | Inr hamiltonianPath \<Rightarrow>
                             (case findHamiltonianCircuit nodes g of
                                Inl x \<Rightarrow> Inl x
                              | Inr hamiltonianCircuit \<Rightarrow>
                                  Inr (definite (hamiltonianCircuit \<noteq> None) (hamiltonianPath \<noteq> None)
                                        ''Backtracking Algorithm (Exhaustive Search)''
                                        (case hamiltonianCircuit of
                                           Some c \<Rightarrow> Path c
                                         | None \<Rightarrow>
                                            (case hamiltonianPath of Some q \<Rightarrow> Path q | None \<Rightarrow> Null)))))
                       else Inr \<lparr>hasHamiltonianCircuit = Unknown, hasHamiltonianPath = Unknown,
                                 certainty = ''unknown'', theoremApplied = ''NP-completeness'',
                                 samplePath = Absent\<rparr>))"

section \<open>Test graphs\<close>

definition mk_node :: "string \<Rightarrow> node" where
  "mk_node k = \<lparr>n_id = k, n_label = k\<rparr>"

definition road :: "string \<Rightarrow> string \<Rightarrow> string \<Rightarrow> int \<Rightarrow> edge" where
  "road k a b w = \<lparr>e_id = k, e_from = a, e_to = b, e_weight = w, e_blocked = False\<rparr>"

definition closed_road :: "string \<Rightarrow> string \<Rightarrow> string \<Rightarrow> int \<Rightarrow> edge" where
  "closed_road k a b w = \<lparr>e_id = k, e_from = a, e_to = b, e_weight = w, e_blocked = True\<rparr>"

section \<open>Origin equal to destination\<close>

text \<open>
  What the two engines do when origin and destination coincide: \<open>dijkstra\<close> leaves
  through its first test, whatever the graph; \<open>bellmanFord\<close> returns the route that
  consists of the node alone.
\<close>

lemma dijkstra_same_node: "dijkstra nodes edges s s = Returns no_route"
  by (simp add: dijkstra_def)

lemma bellmanFord_same_node:
  "s \<in> n_id ` set nodes \<Longrightarrow> s \<noteq> [] \<Longrightarrow>
   bellmanFord nodes edges s s =
     \<lparr>path = [s], totalCost = Fin 0, steps = [], found = True,
      hasNegativeCycle = False, error = None\<rparr>"
  by (auto simp: bellmanFord_def)

text \<open>
  Claim C2 fails on the code. On the two-node graph, from \<open>A\<close> to \<open>A\<close>, \<open>dijkstra\<close>
  returns \<open>found = false\<close> with an empty path, where the claim asks for the
  zero-cost route \<open>[A]\<close>; \<open>bellmanFord\<close>, called the same way, returns that route.
\<close>

theorem same_node_engines_differ:
  "dijkstra [mk_node ''A'', mk_node ''B''] [road ''e1'' ''A'' ''B'' 3] ''A'' ''A'' =
     Returns \<lparr>path = [], totalCost = Fin 0, steps = [], found = False\<rparr> \<and>
   bellmanFord [mk_node ''A'', mk_node ''B''] [road ''e1'' ''A'' ''B'' 3] ''A'' ''A'' =
     \<lparr>path = [''A''], totalCost = Fin 0, steps = [], found = True,
      hasNegativeCycle = False, error = None\<rparr>"
  by (simp add: dijkstra_same_node no_route_def bellmanFord_same_node mk_node_def)

theorem same_node_engines_differ_witness:
  "(\<exists>r. dijkstra [mk_node ''A'', mk_node ''B''] [road ''e1'' ''A'' ''B'' 3] ''A'' ''A'' = Returns r \<and>
        \<not> found r \<and> path r = []) \<and>
   found (bellmanFord [mk_node ''A'', mk_node ''B''] [road ''e1'' ''A'' ''B'' 3] ''A'' ''A'') \<and>
   path (bellmanFord [mk_node ''A'', mk_node ''B''] [road ''e1'' ''A'' ''B'' 3] ''A'' ''A'') = [''A'']"
  using same_node_engines_differ by simp

section \<open>Graphs: adjacency, degree, connectivity\<close>

definition node_ids :: "node list \<Rightarrow> string set" where
  "node_ids nodes = n_id ` set nodes"

definition adjacent :: "edge list \<Rightarrow> string \<Rightarrow> string \<Rightarrow> bool" where
  "adjacent es u v \<longleftrightarrow> (\<exists>e \<in> set es. \<not> e_blocked e \<and> joins u v e)"

definition degree :: "edge list \<Rightarrow> string \<Rightarrow> nat" where
  "degree es v =
     length (filter (\<lambda>e. \<not> e_blocked e \<and> e_from e = v) es) +
     length (filter (\<lambda>e. \<not> e_blocked e \<and> e_to e = v) es)"

definition graph_connected :: "node list \<Rightarrow> edge list \<Rightarrow> bool" where
  "graph_connected nodes es \<longleftrightarrow>
     (\<forall>u \<in> node_ids nodes. \<forall>v \<in> node_ids nodes. (u, v) \<in> {(a, b). adjacent es a b}\<^sup>*)"

definition endpoints_known :: "node list \<Rightarrow> edge list \<Rightarrow> bool" where
  "endpoints_known nodes es \<longleftrightarrow>
     (\<forall>e \<in> set es. \<not> e_blocked e \<longrightarrow> e_from e \<in> node_ids nodes \<and> e_to e \<in> node_ids nodes)"

fun links :: "edge list \<Rightarrow> string \<Rightarrow> string list" where
  "links [] k = []"
| "links (e # es) k =
     (if e_blocked e then []
      else (if e_from e = k then [e_to e] else []) @ (if e_to e = k then [e_from e] else []))
     @ links es k"

lemma set_links: "set (links es k) = {v. adjacent es k v}"
  by (induction es) (auto simp: adjacent_def joins_def)

lemma map_of_foldl_init:
  "map_of (foldl (\<lambda>g n. AList.update (n_id n) [] g) g0 nodes) k =
     (if k \<in> n_id ` set nodes then Some [] else map_of g0 k)"
  by (induction nodes arbitrary: g0) (auto simp: update_conv')

lemma map_of_init_graph:
  "map_of (init_graph nodes) k = (if k \<in> node_ids nodes then Some [] else None)"
  by (simp add: init_graph_def map_of_foldl_init node_ids_def)

lemma push_to_Inr:
  "map_of g k = Some as \<Longrightarrow> \<exists>g'. push_to k a g = Inr g' \<and> map_of g' = (map_of g)(k \<mapsto> as @ [a])"
  by (simp add: push_to_def update_conv')

lemma add_links_Inr:
  assumes "\<forall>e \<in> set es. \<not> e_blocked e \<longrightarrow> map_of g (e_from e) \<noteq> None \<and> map_of g (e_to e) \<noteq> None"
  shows "\<exists>g'. add_links es g = Inr g' \<and>
           (\<forall>k. map_of g' k = map_option (\<lambda>ns. ns @ links es k) (map_of g k))"
  using assms
proof (induction es arbitrary: g)
  case Nil
  then show ?case by (simp add: option.map_ident)
next
  case (Cons e es)
  show ?case
  proof (cases "e_blocked e")
    case True
    with Cons show ?thesis by simp
  next
    case False
    from Cons.prems False obtain as bs where
      as: "map_of g (e_from e) = Some as" and bs: "map_of g (e_to e) = Some bs"
      by auto
    from push_to_Inr [OF as, of "e_to e"] obtain g1 where
      g1: "push_to (e_from e) (e_to e) g = Inr g1"
          "map_of g1 = (map_of g)(e_from e \<mapsto> as @ [e_to e])"
      by blast
    obtain bs1 where bs1: "map_of g1 (e_to e) = Some bs1"
      using g1(2) bs by (cases "e_to e = e_from e") auto
    from push_to_Inr [OF bs1, of "e_from e"] obtain g2 where
      g2: "push_to (e_to e) (e_from e) g1 = Inr g2"
          "map_of g2 = (map_of g1)(e_to e \<mapsto> bs1 @ [e_from e])"
      by blast
    have dom2: "map_of g2 k \<noteq> None \<longleftrightarrow> map_of g k \<noteq> None" for k
      using g1(2) g2(2) as bs by auto
    have "\<forall>e' \<in> set es. \<not> e_blocked e' \<longrightarrow> map_of g2 (e_from e') \<noteq> None \<and> map_of g2 (e_to e') \<noteq> None"
      using Cons.prems dom2 by simp
    from Cons.IH [OF this] obtain g' where
      g': "add_links es g2 = Inr g'"
          "\<forall>k. map_of g' k = map_option (\<lambda>ns. ns @ links es k) (map_of g2 k)"
      by blast
    have step: "map_of g2 k = map_option (\<lambda>ns. ns @
           ((if e_from e = k then [e_to e] else []) @ (if e_to e = k then [e_from e] else [])))
           (map_of g k)" for k
      using g1(2) g2(2) as bs bs1 by (cases "map_of g k") auto
    have "map_of g' k = map_option (\<lambda>ns. ns @ links (e # es) k) (map_of g k)" for k
      using g'(2) step [of k] False by (cases "map_of g k") auto
    then show ?thesis
      using False g1(1) g2(1) g'(1) by simp
  qed
qed

lemma add_links_init:
  assumes "endpoints_known nodes es"
  shows "\<exists>g. add_links es (init_graph nodes) = Inr g \<and>
           (\<forall>k. map_of g k = (if k \<in> node_ids nodes then Some (links es k) else None))"
proof -
  have "\<forall>e \<in> set es. \<not> e_blocked e \<longrightarrow>
          map_of (init_graph nodes) (e_from e) \<noteq> None \<and> map_of (init_graph nodes) (e_to e) \<noteq> None"
    using assms by (simp add: endpoints_known_def map_of_init_graph)
  from add_links_Inr [OF this] show ?thesis
    by (auto simp: map_of_init_graph)
qed

section \<open>Depth-first traversal\<close>

definition nbr :: "string list obj \<Rightarrow> (string \<times> string) set" where
  "nbr g = {(x, y). \<exists>ns. map_of g x = Some ns \<and> y \<in> set ns}"

definition closed_under :: "string list obj \<Rightarrow> string set \<Rightarrow> bool" where
  "closed_under g S \<longleftrightarrow> (\<forall>x \<in> S. \<forall>y. (x, y) \<in> nbr g \<longrightarrow> y \<in> S)"

lemma closed_under_reach:
  assumes "closed_under g S" and "(x, y) \<in> (nbr g)\<^sup>*" and "x \<in> S"
  shows "y \<in> S"
  using assms(2,3)
proof (induction rule: rtrancl_induct)
  case base
  then show ?case .
next
  case (step y z)
  with assms(1) show ?case by (auto simp: closed_under_def)
qed

lemma dfs_result:
  "dfs g vis work = Inr vis' \<Longrightarrow>
     set vis \<union> set work \<subseteq> set vis' \<and>
     (\<forall>v \<in> set vis'. v \<in> set vis \<or> (\<exists>w \<in> set work. (w, v) \<in> (nbr g)\<^sup>*)) \<and>
     (\<forall>x \<in> set vis' - set vis. \<forall>y. (x, y) \<in> nbr g \<longrightarrow> y \<in> set vis')"
proof (induction g vis work arbitrary: vis' rule: dfs.induct)
  case (1 g vis)
  then show ?case by simp
next
  case (2 g vis x work)
  show ?case
  proof (cases "x \<in> set vis")
    case True
    with "2.prems" have "dfs g vis work = Inr vis'" by simp
    from "2.IH"(1) [OF True this]
    have a: "set vis \<union> set work \<subseteq> set vis'"
      and b: "\<forall>v \<in> set vis'. v \<in> set vis \<or> (\<exists>w \<in> set work. (w, v) \<in> (nbr g)\<^sup>*)"
      and c: "\<forall>z \<in> set vis' - set vis. \<forall>y. (z, y) \<in> nbr g \<longrightarrow> y \<in> set vis'"
      by simp_all
    have a': "set vis \<union> set (x # work) \<subseteq> set vis'"
      using a True by auto
    have b': "\<forall>v \<in> set vis'. v \<in> set vis \<or> (\<exists>w \<in> set (x # work). (w, v) \<in> (nbr g)\<^sup>*)"
      using b by auto
    from a' b' c show ?thesis by simp
  next
    case False
    with "2.prems" obtain ns where ns: "map_of g x = Some ns"
      and run: "dfs g (vis @ [x]) (ns @ work) = Inr vis'"
      by (auto split: option.splits)
    from "2.IH"(2) [OF False ns run]
    have a: "set (vis @ [x]) \<union> set (ns @ work) \<subseteq> set vis'"
      and b: "\<forall>v \<in> set vis'. v \<in> set (vis @ [x]) \<or> (\<exists>w \<in> set (ns @ work). (w, v) \<in> (nbr g)\<^sup>*)"
      and c: "\<forall>z \<in> set vis' - set (vis @ [x]). \<forall>y. (z, y) \<in> nbr g \<longrightarrow> y \<in> set vis'"
      by simp_all
    have nsx: "(x, y) \<in> nbr g \<longleftrightarrow> y \<in> set ns" for y
      using ns by (simp add: nbr_def)
    have a': "set vis \<union> set (x # work) \<subseteq> set vis'"
      using a by auto
    have b': "\<forall>v \<in> set vis'. v \<in> set vis \<or> (\<exists>w \<in> set (x # work). (w, v) \<in> (nbr g)\<^sup>*)"
    proof
      fix v assume "v \<in> set vis'"
      with b consider "v \<in> set vis" | "v = x" | n where "n \<in> set ns" "(n, v) \<in> (nbr g)\<^sup>*"
        | w where "w \<in> set work" "(w, v) \<in> (nbr g)\<^sup>*"
        by auto
      then show "v \<in> set vis \<or> (\<exists>w \<in> set (x # work). (w, v) \<in> (nbr g)\<^sup>*)"
      proof cases
        case 1
        then show ?thesis by simp
      next
        case 2
        then show ?thesis by auto
      next
        case 3
        then have "(x, v) \<in> (nbr g)\<^sup>*"
          using nsx by (meson converse_rtrancl_into_rtrancl)
        then show ?thesis by auto
      next
        case 4
        then show ?thesis by auto
      qed
    qed
    have c': "\<forall>z \<in> set vis' - set vis. \<forall>y. (z, y) \<in> nbr g \<longrightarrow> y \<in> set vis'"
    proof (intro ballI allI impI)
      fix z y assume z: "z \<in> set vis' - set vis" and zy: "(z, y) \<in> nbr g"
      show "y \<in> set vis'"
      proof (cases "z = x")
        case True
        with zy nsx a show ?thesis by auto
      next
        case False
        with z have "z \<in> set vis' - set (vis @ [x])" by simp
        with c zy show ?thesis by blast
      qed
    qed
    from a' b' c' show ?thesis by simp
  qed
qed

lemma dfs_returns:
  "\<forall>x y. (x, y) \<in> nbr g \<longrightarrow> map_of g y \<noteq> None \<Longrightarrow>
   \<forall>x \<in> set work. map_of g x \<noteq> None \<Longrightarrow> \<exists>vis'. dfs g vis work = Inr vis'"
proof (induction g vis work rule: dfs.induct)
  case (1 g vis)
  then show ?case by simp
next
  case (2 g vis x work)
  show ?case
  proof (cases "x \<in> set vis")
    case True
    have "\<forall>y \<in> set work. map_of g y \<noteq> None"
      using "2.prems"(2) by simp
    from "2.IH"(1) [OF True "2.prems"(1) this] True show ?thesis by simp
  next
    case False
    from "2.prems"(2) obtain ns where ns: "map_of g x = Some ns" by auto
    have "(x, y) \<in> nbr g" if "y \<in> set ns" for y
      using that ns unfolding nbr_def by blast
    then have "map_of g y \<noteq> None" if "y \<in> set ns" for y
      using that "2.prems"(1) by blast
    then have "\<forall>y \<in> set (ns @ work). map_of g y \<noteq> None"
      using "2.prems"(2) by auto
    from "2.IH"(2) [OF False ns "2.prems"(1) this] False ns show ?thesis by simp
  qed
qed


lemma dfs_closed:
  assumes "dfs g vis work = Inr vis'" and "closed_under g (set vis)"
  shows "closed_under g (set vis') \<and>
         (\<forall>v. v \<in> set vis' \<longleftrightarrow> v \<in> set vis \<or> (\<exists>w \<in> set work. (w, v) \<in> (nbr g)\<^sup>*))"
proof -
  from dfs_result [OF assms(1)]
  have a: "set vis \<union> set work \<subseteq> set vis'"
    and b: "\<forall>v \<in> set vis'. v \<in> set vis \<or> (\<exists>w \<in> set work. (w, v) \<in> (nbr g)\<^sup>*)"
    and c: "\<forall>x \<in> set vis' - set vis. \<forall>y. (x, y) \<in> nbr g \<longrightarrow> y \<in> set vis'"
    by simp_all
  have cl: "closed_under g (set vis')"
    unfolding closed_under_def
  proof (intro ballI allI impI)
    fix x y assume xy: "x \<in> set vis'" "(x, y) \<in> nbr g"
    show "y \<in> set vis'"
    proof (cases "x \<in> set vis")
      case True
      with assms(2) xy(2) have "y \<in> set vis" unfolding closed_under_def by blast
      with a show ?thesis by blast
    next
      case False
      with xy(1) have "x \<in> set vis' - set vis" by simp
      with c xy(2) show ?thesis by blast
    qed
  qed
  have "v \<in> set vis'" if "w \<in> set work" "(w, v) \<in> (nbr g)\<^sup>*" for w v
  proof -
    from that(1) a have "w \<in> set vis'" by blast
    from closed_under_reach [OF cl that(2) this] show ?thesis .
  qed
  with a b cl show ?thesis by blast
qed

lemma count_components_result:
  assumes "\<forall>x y. (x, y) \<in> nbr g \<longrightarrow> map_of g y \<noteq> None"
  shows "\<forall>n \<in> set ns. map_of g (n_id n) \<noteq> None \<Longrightarrow> closed_under g (set vis) \<Longrightarrow>
         \<exists>c'. count_components g ns vis c = Inr c' \<and> c \<le> c' \<and>
              (c' = c \<longleftrightarrow> n_id ` set ns \<subseteq> set vis)"
proof (induction ns arbitrary: vis c)
  case Nil
  then show ?case by simp
next
  case (Cons n ns)
  show ?case
  proof (cases "n_id n \<in> set vis")
    case True
    have "\<forall>n \<in> set ns. map_of g (n_id n) \<noteq> None"
      using Cons.prems(1) by simp
    from Cons.IH [OF this Cons.prems(2), of c] True show ?thesis by simp
  next
    case False
    have "\<forall>x \<in> set [n_id n]. map_of g x \<noteq> None"
      using Cons.prems(1) by simp
    from dfs_returns [OF assms this] obtain vis' where run: "dfs g vis [n_id n] = Inr vis'"
      by blast
    from dfs_closed [OF run Cons.prems(2)] have cl: "closed_under g (set vis')"
      by blast
    have "\<forall>n \<in> set ns. map_of g (n_id n) \<noteq> None"
      using Cons.prems(1) by simp
    from Cons.IH [OF this cl, of "c + 1"] obtain c' where
      c': "count_components g ns vis' (c + 1) = Inr c'" "c + 1 \<le> c'"
      by blast
    then show ?thesis
      using False run by auto
  qed
qed

section \<open>Connectivity\<close>

lemma adjacent_sym: "adjacent es u v \<Longrightarrow> adjacent es v u"
  by (auto simp: adjacent_def joins_def)

lemma sym_adjacent: "sym {(a, b). adjacent es a b}"
  by (auto intro!: symI dest: adjacent_sym)

lemma adjacent_known:
  "endpoints_known nodes es \<Longrightarrow> adjacent es u v \<Longrightarrow> u \<in> node_ids nodes \<and> v \<in> node_ids nodes"
  by (auto simp: endpoints_known_def adjacent_def joins_def)

lemma isGraphConnected_correct:
  assumes "endpoints_known nodes es"
  shows "\<exists>conn. isGraphConnected nodes es = Inr conn \<and> (connected conn \<longleftrightarrow> graph_connected nodes es)"
proof (cases nodes)
  case Nil
  then show ?thesis
    by (simp add: isGraphConnected_def graph_connected_def node_ids_def)
next
  case (Cons n0 rest)
  show ?thesis
  proof (cases rest)
    case Nil
    with Cons show ?thesis
      by (simp add: isGraphConnected_def graph_connected_def node_ids_def)
  next
    case (Cons n1 rest')
    with \<open>nodes = n0 # rest\<close> have len: "length nodes \<noteq> 0" "length nodes \<noteq> 1"
      by simp_all
    let ?R = "{(a, b). adjacent es a b}"
    from add_links_init [OF assms] obtain g where
      g: "add_links es (init_graph nodes) = Inr g"
         "\<And>k. map_of g k = (if k \<in> node_ids nodes then Some (links es k) else None)"
      by blast
    have nbr: "nbr g = ?R"
      using adjacent_known [OF assms] by (auto simp: nbr_def g(2) set_links split: if_splits)
    have keys: "\<forall>x y. (x, y) \<in> nbr g \<longrightarrow> map_of g y \<noteq> None"
      using adjacent_known [OF assms] by (simp add: nbr g(2))
    have n0: "\<forall>x \<in> set [n_id n0]. map_of g x \<noteq> None"
      using \<open>nodes = n0 # rest\<close> by (simp add: g(2) node_ids_def)
    from dfs_returns [OF keys n0] obtain vis1 where run: "dfs g [] [n_id n0] = Inr vis1"
      by blast
    have "closed_under g (set [])"
      by (simp add: closed_under_def)
    from dfs_closed [OF run this]
    have cl: "closed_under g (set vis1)"
      and reach: "\<And>v. v \<in> set vis1 \<longleftrightarrow> (n_id n0, v) \<in> ?R\<^sup>*"
      by (simp_all add: nbr)
    have "\<forall>n \<in> set rest. map_of g (n_id n) \<noteq> None"
      using \<open>nodes = n0 # rest\<close> by (simp add: g(2) node_ids_def)
    from count_components_result [OF keys this cl, of 1] obtain c where
      c: "count_components g rest vis1 1 = Inr c" "c = 1 \<longleftrightarrow> n_id ` set rest \<subseteq> set vis1"
      by blast
    have res: "isGraphConnected nodes es = Inr \<lparr>connected = (c = 1), components = c\<rparr>"
      using len g(1) run c(1) \<open>nodes = n0 # rest\<close> by (simp add: isGraphConnected_def)
    have "c = 1 \<longleftrightarrow> graph_connected nodes es"
    proof
      assume "c = 1"
      with c(2) reach have all: "\<And>v. v \<in> node_ids nodes \<Longrightarrow> (n_id n0, v) \<in> ?R\<^sup>*"
        using \<open>nodes = n0 # rest\<close> by (auto simp: node_ids_def)
      have "sym (rtrancl ?R)"
        by (rule sym_rtrancl [OF sym_adjacent])
      then have bwd: "\<And>v. v \<in> node_ids nodes \<Longrightarrow> (v, n_id n0) \<in> ?R\<^sup>*"
        using all by (meson symD)
      show "graph_connected nodes es"
        unfolding graph_connected_def
        using all bwd by (meson rtrancl_trans)
    next
      assume gc: "graph_connected nodes es"
      have in0: "n_id n0 \<in> node_ids nodes"
        using \<open>nodes = n0 # rest\<close> by (simp add: node_ids_def)
      have "(n_id n0, v) \<in> ?R\<^sup>*" if "v \<in> node_ids nodes" for v
        using gc in0 that unfolding graph_connected_def by blast
      moreover have "n_id ` set rest \<subseteq> node_ids nodes"
        using \<open>nodes = n0 # rest\<close> by (auto simp: node_ids_def)
      ultimately have "n_id ` set rest \<subseteq> set vis1"
        using reach by blast
      with c(2) show "c = 1" by simp
    qed
    with res show ?thesis by simp
  qed
qed

section \<open>Degrees and Euler's theorem\<close>

definition active :: "edge list \<Rightarrow> edge list" where
  "active es = filter (\<lambda>e. \<not> e_blocked e) es"

text \<open>Euler's theorem as the specification words it: (circuit exists, path exists).\<close>

definition euler_by_theorem :: "node list \<Rightarrow> edge list \<Rightarrow> bool \<times> bool" where
  "euler_by_theorem nodes es =
     (if active es = [] then (length nodes \<le> 1, length nodes \<le> 1)
      else if \<not> graph_connected nodes es then (False, False)
      else if card {v \<in> node_ids nodes. odd (degree es v)} = 0 then (True, True)
      else if card {v \<in> node_ids nodes. odd (degree es v)} = 2 then (False, True)
      else (False, False))"

lemma map_of_foldl_zero:
  "map_of (foldl (\<lambda>ds n. AList.update (n_id n) (Fin 0) ds) ds0 nodes) k =
     (if k \<in> n_id ` set nodes then Some (Fin 0) else map_of ds0 k)"
  by (induction nodes arbitrary: ds0) (auto simp: update_conv')

lemma distinct_foldl_zero:
  "distinct (map fst ds0) \<Longrightarrow>
   distinct (map fst (foldl (\<lambda>ds n. AList.update (n_id n) (Fin 0) ds) ds0 nodes))"
  by (induction nodes arbitrary: ds0) (auto simp: distinct_update)

lemma map_of_incr:
  "map_of ds k = Some (Fin d) \<Longrightarrow> map_of (incr k ds) = (map_of ds)(k \<mapsto> Fin (d + 1))"
  by (simp add: incr_def num_get_def update_conv')

lemma distinct_incr: "distinct (map fst ds) \<Longrightarrow> distinct (map fst (incr k ds))"
  by (auto simp: incr_def distinct_update split: num.splits)

lemma degree_Cons:
  "degree (e # es) k =
     (if \<not> e_blocked e \<and> e_from e = k then 1 else 0) +
     (if \<not> e_blocked e \<and> e_to e = k then 1 else 0) + degree es k"
  by (simp add: degree_def)

lemma degrees_fold:
  assumes "\<forall>e \<in> set es. \<not> e_blocked e \<longrightarrow> e_from e \<in> K \<and> e_to e \<in> K"
    and "\<forall>k \<in> K. map_of ds k = Some (Fin (f k))"
    and "\<forall>k. k \<notin> K \<longrightarrow> map_of ds k = None"
  shows "map_of (foldl (\<lambda>ds e. if e_blocked e then ds else incr (e_to e) (incr (e_from e) ds)) ds es) k =
           (if k \<in> K then Some (Fin (f k + int (degree es k))) else None)"
  using assms
proof (induction es arbitrary: ds f)
  case Nil
  then show ?case by (simp add: degree_def)
next
  case (Cons e es)
  show ?case
  proof (cases "e_blocked e")
    case True
    have "\<forall>e \<in> set es. \<not> e_blocked e \<longrightarrow> e_from e \<in> K \<and> e_to e \<in> K"
      using Cons.prems(1) by simp
    from Cons.IH [OF this Cons.prems(2,3)] True show ?thesis
      by (simp add: degree_Cons)
  next
    case False
    with Cons.prems(1) have inK: "e_from e \<in> K" "e_to e \<in> K" by simp_all
    let ?f1 = "\<lambda>k. f k + (if e_from e = k then 1 else 0)"
    let ?f2 = "\<lambda>k. ?f1 k + (if e_to e = k then 1 else 0)"
    let ?d1 = "incr (e_from e) ds"
    let ?d2 = "incr (e_to e) ?d1"
    have m1: "map_of ?d1 = (map_of ds)(e_from e \<mapsto> Fin (f (e_from e) + 1))"
      using Cons.prems(2) inK(1) by (intro map_of_incr) simp
    have v1: "\<forall>k \<in> K. map_of ?d1 k = Some (Fin (?f1 k))"
      using Cons.prems(2) by (simp add: m1)
    have m2: "map_of ?d2 = (map_of ?d1)(e_to e \<mapsto> Fin (?f1 (e_to e) + 1))"
      using v1 inK(2) by (intro map_of_incr) simp
    have v2: "\<forall>k \<in> K. map_of ?d2 k = Some (Fin (?f2 k))"
    proof
      fix k assume "k \<in> K"
      with v1 have "map_of ?d1 k = Some (Fin (?f1 k))" by blast
      then show "map_of ?d2 k = Some (Fin (?f2 k))"
        unfolding m2 by (cases "e_to e = k") simp_all
    qed
    have n2: "\<forall>k. k \<notin> K \<longrightarrow> map_of ?d2 k = None"
    proof (intro allI impI)
      fix k assume "k \<notin> K"
      with Cons.prems(3) inK have "map_of ds k = None" "e_from e \<noteq> k" "e_to e \<noteq> k"
        by auto
      then show "map_of ?d2 k = None"
        unfolding m2 m1 by simp
    qed
    have "\<forall>e \<in> set es. \<not> e_blocked e \<longrightarrow> e_from e \<in> K \<and> e_to e \<in> K"
      using Cons.prems(1) by simp
    from Cons.IH [OF this v2 n2] False show ?thesis
      by (simp add: degree_Cons)
  qed
qed

lemma distinct_degrees_fold:
  "distinct (map fst ds) \<Longrightarrow>
   distinct (map fst (foldl (\<lambda>ds e. if e_blocked e then ds else incr (e_to e) (incr (e_from e) ds)) ds es))"
  by (induction es arbitrary: ds) (auto simp: distinct_incr)

lemma calculateDegrees_correct:
  assumes "endpoints_known nodes es"
  shows "map_of (calculateDegrees nodes es) k =
           (if k \<in> node_ids nodes then Some (Fin (int (degree es k))) else None)"
proof -
  let ?ds = "foldl (\<lambda>ds n. AList.update (n_id n) (Fin 0) ds) [] nodes"
  have a: "\<forall>e \<in> set es. \<not> e_blocked e \<longrightarrow> e_from e \<in> node_ids nodes \<and> e_to e \<in> node_ids nodes"
    using assms by (simp add: endpoints_known_def)
  have b: "\<forall>k \<in> node_ids nodes. map_of ?ds k = Some (Fin ((\<lambda>k. 0) k))"
    by (simp add: map_of_foldl_zero node_ids_def)
  have c: "\<forall>k. k \<notin> node_ids nodes \<longrightarrow> map_of ?ds k = None"
    by (simp add: map_of_foldl_zero node_ids_def)
  from degrees_fold [OF a b c] show ?thesis
    by (simp add: calculateDegrees_def)
qed

lemma distinct_calculateDegrees: "distinct (map fst (calculateDegrees nodes es))"
  unfolding calculateDegrees_def
  by (intro distinct_degrees_fold distinct_foldl_zero) simp

lemma odd_vertices_count:
  assumes "endpoints_known nodes es"
  shows "length (odd_vertices (calculateDegrees nodes es)) = card {v \<in> node_ids nodes. odd (degree es v)}"
proof -
  let ?degs = "calculateDegrees nodes es"
  have "dom (map_of ?degs) = node_ids nodes"
    using calculateDegrees_correct [OF assms] by (auto simp: dom_def split: if_splits)
  then have keys: "fst ` set ?degs = node_ids nodes"
    by (simp add: dom_map_of_conv_image_fst)
  have odd: "is_odd (num_get ?degs k) \<longleftrightarrow> odd (degree es k)" if "k \<in> node_ids nodes" for k
    using that calculateDegrees_correct [OF assms, of k]
    by (simp add: num_get_def) presburger
  have "length (odd_vertices ?degs) = card ({k. is_odd (num_get ?degs k)} \<inter> set (map fst ?degs))"
    unfolding odd_vertices_def
    by (rule distinct_length_filter [OF distinct_calculateDegrees])
  also have "set (map fst ?degs) = node_ids nodes"
    using keys by simp
  also have "{k. is_odd (num_get ?degs k)} \<inter> node_ids nodes = {v \<in> node_ids nodes. odd (degree es v)}"
    using odd by blast
  finally show ?thesis .
qed

lemma endpoints_known_active: "endpoints_known nodes (active es) = endpoints_known nodes es"
  by (auto simp: endpoints_known_def active_def)

lemma adjacent_active: "adjacent (active es) = adjacent es"
  by (auto simp: adjacent_def active_def fun_eq_iff)

lemma degree_active: "degree (active es) = degree es"
proof
  fix v
  have "filter (\<lambda>e. \<not> e_blocked e \<and> P e) (filter (\<lambda>e. \<not> e_blocked e) es)
      = filter (\<lambda>e. \<not> e_blocked e \<and> P e) es" for P
    by (induction es) auto
  then show "degree (active es) v = degree es v"
    by (simp add: degree_def active_def)
qed

lemma graph_connected_active: "graph_connected nodes (active es) = graph_connected nodes es"
  by (simp add: graph_connected_def adjacent_active)

lemma analyzeEulerian_returns:
  assumes "endpoints_known nodes es"
  shows "\<exists>r. analyzeEulerian nodes es = Inr r"
proof (cases "active es = []")
  case True
  then show ?thesis
    by (simp add: analyzeEulerian_def euler_active_def active_def)
next
  case False
  have "endpoints_known nodes (active es)"
    using assms by (simp add: endpoints_known_active)
  from isGraphConnected_correct [OF this] obtain conn where
    "isGraphConnected nodes (active es) = Inr conn"
    by auto
  with False show ?thesis
    by (simp add: analyzeEulerian_def euler_active_def active_def)
qed

text \<open>
  Claim C4. On every snapshot whose unblocked edges join listed nodes, \<open>analyzeEulerian\<close>
  returns a record, and its two answers are those of Euler's theorem: without unblocked
  edges both hold iff there is at most one node; on a disconnected graph both are false;
  otherwise, with \<open>k\<close> the number of nodes of odd degree, \<open>k = 0\<close> gives circuit and
  path, \<open>k = 2\<close> gives a path and no circuit, and any other \<open>k\<close> gives neither.
  Connectivity and degree are the graph-theoretic notions, not the code's tables.
\<close>

theorem analyzeEulerian_applies_euler:
  assumes "endpoints_known nodes es"
  shows "\<exists>r. analyzeEulerian nodes es = Inr r \<and>
           (hasEulerianCircuit r, hasEulerianPath r) = euler_by_theorem nodes es"
proof (cases "active es = []")
  case True
  then show ?thesis
    by (simp add: analyzeEulerian_def euler_active_def euler_by_theorem_def active_def)
next
  case False
  have known: "endpoints_known nodes (active es)"
    using assms by (simp add: endpoints_known_active)
  from isGraphConnected_correct [OF known] obtain conn where
    conn: "isGraphConnected nodes (active es) = Inr conn"
          "connected conn \<longleftrightarrow> graph_connected nodes es"
    by (auto simp: graph_connected_active)
  have k: "length (odd_vertices (calculateDegrees nodes (active es)))
             = card {v \<in> node_ids nodes. odd (degree es v)}"
    using odd_vertices_count [OF known] by (simp add: degree_active)
  have "analyzeEulerian nodes es = Inr (euler_theorem conn (calculateDegrees nodes (active es)))"
    using False conn(1) by (simp add: analyzeEulerian_def euler_active_def active_def)
  moreover have "(hasEulerianCircuit (euler_theorem conn (calculateDegrees nodes (active es))),
                  hasEulerianPath (euler_theorem conn (calculateDegrees nodes (active es))))
                 = euler_by_theorem nodes es"
    using False conn(2) k
    by (simp add: euler_theorem_def euler_report_def euler_verdict_def euler_by_theorem_def)
  ultimately show ?thesis by simp
qed

definition square_nodes :: "node list" where
  "square_nodes = map mk_node [''A'', ''B'', ''C'', ''D'']"

definition square_edges :: "edge list" where
  "square_edges = [road ''e1'' ''A'' ''B'' 1, road ''e2'' ''B'' ''C'' 1,
                   road ''e3'' ''C'' ''D'' 1, road ''e4'' ''D'' ''A'' 1]"

text \<open>The 4-cycle A-B-C-D-A: all degrees are 2, so a circuit exists.\<close>

lemma analyzeEulerian_square:
  "analyzeEulerian square_nodes square_edges =
     Inr \<lparr>hasEulerianCircuit = True, hasEulerianPath = True,
        oddDegreeVertices = [], oddDegreeCount = 0,
        degrees = [(''A'', Fin 2), (''B'', Fin 2), (''C'', Fin 2), (''D'', Fin 2)],
        connectivity = Some \<lparr>connected = True, components = 1\<rparr>,
        startEndVertices = None\<rparr>"
  by code_simp

lemma endpoints_known_square: "endpoints_known square_nodes square_edges"
  by code_simp

theorem analyzeEulerian_applies_euler_witness:
  "endpoints_known square_nodes square_edges \<and>
   euler_by_theorem square_nodes square_edges = (True, True)"
  using analyzeEulerian_applies_euler [OF endpoints_known_square] endpoints_known_square
  by (simp add: analyzeEulerian_square)

section \<open>Hamiltonian analysis: the sufficient conditions\<close>

definition valid_snapshot :: "node list \<Rightarrow> edge list \<Rightarrow> bool" where
  "valid_snapshot nodes es \<longleftrightarrow> distinct (map n_id nodes) \<and> endpoints_known nodes es"

text \<open>Dirac's and Ore's conditions, as the specification words them.\<close>

definition dirac_condition :: "node list \<Rightarrow> edge list \<Rightarrow> bool" where
  "dirac_condition nodes es \<longleftrightarrow> (\<forall>v \<in> node_ids nodes. length nodes \<le> 2 * degree es v)"

definition ore_condition :: "node list \<Rightarrow> edge list \<Rightarrow> bool" where
  "ore_condition nodes es \<longleftrightarrow>
     (\<forall>u \<in> node_ids nodes. \<forall>v \<in> node_ids nodes.
        u \<noteq> v \<and> \<not> adjacent es u v \<longrightarrow> length nodes \<le> degree es u + degree es v)"

lemma set_set_add: "set (set_add v ns) = insert v (set ns)"
  by (auto simp: set_add_def)

lemma add_to_Inr:
  "map_of g k = Some ns \<Longrightarrow> \<exists>g'. add_to k v g = Inr g' \<and> map_of g' = (map_of g)(k \<mapsto> set_add v ns)"
  by (simp add: add_to_def update_conv')

lemma add_adjacent_Inr:
  assumes "\<forall>e \<in> set es. map_of g (e_from e) \<noteq> None \<and> map_of g (e_to e) \<noteq> None"
  shows "\<exists>g'. add_adjacent es g = Inr g' \<and>
           (\<forall>k. map_option set (map_of g' k) =
                  map_option (\<lambda>S. S \<union> {v. \<exists>e \<in> set es. joins k v e}) (map_option set (map_of g k)))"
  using assms
proof (induction es arbitrary: g)
  case Nil
  have "map_option (\<lambda>S. S) x = x" for x :: "string set option"
    by (cases x) simp_all
  then show ?case by simp
next
  case (Cons e es)
  from Cons.prems obtain as bs where
    as: "map_of g (e_from e) = Some as" and bs: "map_of g (e_to e) = Some bs"
    by auto
  from add_to_Inr [OF as, of "e_to e"] obtain g1 where
    g1: "add_to (e_from e) (e_to e) g = Inr g1"
        "map_of g1 = (map_of g)(e_from e \<mapsto> set_add (e_to e) as)"
    by blast
  obtain bs1 where bs1: "map_of g1 (e_to e) = Some bs1"
    using g1(2) bs by (cases "e_to e = e_from e") auto
  from add_to_Inr [OF bs1, of "e_from e"] obtain g2 where
    g2: "add_to (e_to e) (e_from e) g1 = Inr g2"
        "map_of g2 = (map_of g1)(e_to e \<mapsto> set_add (e_from e) bs1)"
    by blast
  have dom2: "map_of g2 k \<noteq> None \<longleftrightarrow> map_of g k \<noteq> None" for k
    using g1(2) g2(2) as bs by auto
  have "\<forall>e' \<in> set es. map_of g2 (e_from e') \<noteq> None \<and> map_of g2 (e_to e') \<noteq> None"
    using Cons.prems dom2 by simp
  from Cons.IH [OF this] obtain g' where
    g': "add_adjacent es g2 = Inr g'"
        "\<And>k. map_option set (map_of g' k) =
                map_option (\<lambda>S. S \<union> {v. \<exists>e \<in> set es. joins k v e}) (map_option set (map_of g2 k))"
    by blast
  have step: "map_option set (map_of g2 k) =
          map_option (\<lambda>S. S \<union> {v. joins k v e}) (map_option set (map_of g k))" for k
  proof (cases "map_of g k")
    case None
    then show ?thesis using g1(2) g2(2) as bs by auto
  next
    case (Some ns)
    show ?thesis
    proof (cases "k = e_from e")
      case True
      then show ?thesis
        using g1(2) g2(2) as bs bs1 Some
        by (cases "e_to e = e_from e") (auto simp: set_set_add joins_def)
    next
      case False
      then show ?thesis
        using g1(2) g2(2) as bs bs1 Some
        by (cases "k = e_to e") (auto simp: set_set_add joins_def)
    qed
  qed
  have "map_option set (map_of g' k) =
          map_option (\<lambda>S. S \<union> {v. \<exists>e' \<in> set (e # es). joins k v e'}) (map_option set (map_of g k))" for k
    unfolding g'(2) [of k] step [of k]
    by (cases "map_of g k") auto
  then show ?case
    using g1(1) g2(1) g'(1) by simp
qed

lemma add_adjacent_init:
  assumes "endpoints_known nodes es"
  shows "\<exists>g. add_adjacent (active es) (init_graph nodes) = Inr g \<and>
           (\<forall>k. map_option set (map_of g k) =
                  (if k \<in> node_ids nodes then Some {v. adjacent es k v} else None))"
proof -
  have "\<forall>e \<in> set (active es).
          map_of (init_graph nodes) (e_from e) \<noteq> None \<and> map_of (init_graph nodes) (e_to e) \<noteq> None"
    using assms by (simp add: endpoints_known_def map_of_init_graph active_def)
  from add_adjacent_Inr [OF this] obtain g where
    g: "add_adjacent (active es) (init_graph nodes) = Inr g"
       "\<And>k. map_option set (map_of g k) =
              map_option (\<lambda>S. S \<union> {v. \<exists>e \<in> set (active es). joins k v e})
                (map_option set (map_of (init_graph nodes) k))"
    by blast
  have "{v. \<exists>e \<in> set (active es). joins k v e} = {v. adjacent es k v}" for k
    by (auto simp: adjacent_def active_def)
  with g show ?thesis
    by (auto simp: map_of_init_graph)
qed

lemma ge_half_foldl:
  "\<forall>v \<in> set vs. \<exists>d. v = Fin d \<Longrightarrow> a = PInf \<or> (\<exists>d. a = Fin d) \<Longrightarrow>
   ge_half (foldl min_num a vs) n \<longleftrightarrow> ge_half a n \<and> (\<forall>v \<in> set vs. ge_half v n)"
proof (induction vs arbitrary: a)
  case Nil
  then show ?case by simp
next
  case (Cons v vs)
  from Cons.prems(1) obtain d where v: "v = Fin d" by auto
  have m: "min_num a v = PInf \<or> (\<exists>d. min_num a v = Fin d)"
    using Cons.prems(2) v by auto
  have g: "ge_half (min_num a v) n \<longleftrightarrow> ge_half a n \<and> ge_half v n"
    using Cons.prems(2) v by (auto simp: min_def split: if_splits)
  have "\<forall>v \<in> set vs. \<exists>d. v = Fin d"
    using Cons.prems(1) by simp
  from Cons.IH [OF this m] g show ?case by auto
qed

lemma degrees_entries:
  assumes "endpoints_known nodes es"
  shows "set (calculateDegrees nodes es) = (\<lambda>k. (k, Fin (int (degree es k)))) ` node_ids nodes"
proof -
  have "(k, v) \<in> set (calculateDegrees nodes es) \<longleftrightarrow> k \<in> node_ids nodes \<and> v = Fin (int (degree es k))" for k v
    using calculateDegrees_correct [OF assms, of k]
      map_of_eq_Some_iff [OF distinct_calculateDegrees, of nodes es k v]
    by (auto split: if_splits)
  then show ?thesis by auto
qed

lemma dirac_correct:
  assumes "endpoints_known nodes es"
  shows "ge_half (math_min (map snd (calculateDegrees nodes es))) (length nodes) \<longleftrightarrow> dirac_condition nodes es"
proof -
  have vals: "set (map snd (calculateDegrees nodes es)) = (\<lambda>k. Fin (int (degree es k))) ` node_ids nodes"
    using degrees_entries [OF assms] by (simp add: image_image)
  have "\<forall>v \<in> set (map snd (calculateDegrees nodes es)). \<exists>d. v = Fin d"
    unfolding vals by auto
  from ge_half_foldl [OF this, of PInf "length nodes"]
  have "ge_half (math_min (map snd (calculateDegrees nodes es))) (length nodes)
      \<longleftrightarrow> (\<forall>v \<in> set (map snd (calculateDegrees nodes es)). ge_half v (length nodes))"
    by (simp add: math_min_def)
  also have "\<dots> \<longleftrightarrow> dirac_condition nodes es"
    unfolding vals dirac_condition_def by auto
  finally show ?thesis .
qed

lemma ore_row_result:
  "map_of g u = Some ns \<Longrightarrow>
   ore_row g degs n u vs =
     Inr (\<forall>v \<in> set vs. v \<in> set ns \<or> \<not> sum_less (num_get degs u) (num_get degs v) n)"
  by (induction vs) auto

lemma ore_rows_result:
  assumes "\<forall>u \<in> set us. \<exists>ns. map_of g u = Some ns \<and> set ns = N u"
  shows "ore_rows g degs n us =
           Inr (sorted_wrt (\<lambda>u v. v \<in> N u \<or> \<not> sum_less (num_get degs u) (num_get degs v) n) us)"
  using assms
proof (induction us)
  case Nil
  then show ?case by simp
next
  case (Cons u us)
  from Cons.prems obtain ns where ns: "map_of g u = Some ns" "set ns = N u" by auto
  have "\<forall>u \<in> set us. \<exists>ns. map_of g u = Some ns \<and> set ns = N u"
    using Cons.prems by simp
  from Cons.IH [OF this] ore_row_result [OF ns(1), of degs n us] ns(2)
  show ?case by (auto split: bool.splits)
qed

lemma sorted_wrt_symmetric:
  assumes "\<And>x y. P x y \<Longrightarrow> P y x" and "distinct xs"
  shows "sorted_wrt P xs \<longleftrightarrow> (\<forall>x \<in> set xs. \<forall>y \<in> set xs. x \<noteq> y \<longrightarrow> P x y)"
  using assms(2)
proof (induction xs)
  case Nil
  then show ?case by simp
next
  case (Cons a xs)
  then show ?case using assms(1) by auto
qed

lemma ore_correct:
  assumes "valid_snapshot nodes es"
    and g: "\<And>k. map_option set (map_of g k) =
              (if k \<in> node_ids nodes then Some {v. adjacent es k v} else None)"
  shows "ore_rows g (calculateDegrees nodes (active es)) (length nodes) (map n_id nodes)
           = Inr (ore_condition nodes es)"
proof -
  have known: "endpoints_known nodes (active es)"
    using assms(1) by (simp add: valid_snapshot_def endpoints_known_active)
  let ?degs = "calculateDegrees nodes (active es)"
  let ?P = "\<lambda>u v. adjacent es u v \<or> \<not> sum_less (num_get ?degs u) (num_get ?degs v) (length nodes)"
  have deg: "num_get ?degs k = Fin (int (degree es k))" if "k \<in> node_ids nodes" for k
    using that calculateDegrees_correct [OF known, of k] by (simp add: num_get_def degree_active)
  have "\<forall>u \<in> set (map n_id nodes). \<exists>ns. map_of g u = Some ns \<and> set ns = {v. adjacent es u v}"
  proof
    fix u assume "u \<in> set (map n_id nodes)"
    then have "map_option set (map_of g u) = Some {v. adjacent es u v}"
      using g [of u] by (simp add: node_ids_def)
    then show "\<exists>ns. map_of g u = Some ns \<and> set ns = {v. adjacent es u v}"
      by (cases "map_of g u") auto
  qed
  from ore_rows_result [OF this]
  have "ore_rows g ?degs (length nodes) (map n_id nodes) = Inr (sorted_wrt ?P (map n_id nodes))"
    by simp
  moreover have "sorted_wrt ?P (map n_id nodes) \<longleftrightarrow> ore_condition nodes es"
  proof -
    let ?Q = "\<lambda>u v. adjacent es u v \<or> length nodes \<le> degree es u + degree es v"
    have PQ: "sum_less (num_get ?degs u) (num_get ?degs v) (length nodes)
                \<longleftrightarrow> degree es u + degree es v < length nodes"
      if "u \<in> n_id ` set nodes" "v \<in> n_id ` set nodes" for u v
      using deg [of u] deg [of v] that by (auto simp: node_ids_def)
    have "sorted_wrt ?P (map n_id nodes) \<longleftrightarrow> sorted_wrt ?Q (map n_id nodes)"
    proof
      assume "sorted_wrt ?P (map n_id nodes)"
      then show "sorted_wrt ?Q (map n_id nodes)"
        by (rule sorted_wrt_mono_rel [rotated]) (auto simp: PQ)
    next
      assume "sorted_wrt ?Q (map n_id nodes)"
      then show "sorted_wrt ?P (map n_id nodes)"
        by (rule sorted_wrt_mono_rel [rotated]) (auto simp: PQ)
    qed
    also have "\<dots> \<longleftrightarrow> (\<forall>x \<in> set (map n_id nodes). \<forall>y \<in> set (map n_id nodes). x \<noteq> y \<longrightarrow> ?Q x y)"
    proof (rule sorted_wrt_symmetric)
      show "?Q y x" if "?Q x y" for x y
        using that adjacent_sym [of es x y] by auto
      show "distinct (map n_id nodes)"
        using assms(1) by (simp add: valid_snapshot_def)
    qed
    also have "\<dots> \<longleftrightarrow> ore_condition nodes es"
      unfolding ore_condition_def node_ids_def by auto
    finally show ?thesis .
  qed
  ultimately show ?thesis by simp
qed

section \<open>Hamiltonian analysis: the exhaustive search\<close>

text \<open>
  \<open>s\<close> completes the path \<open>p\<close>, \<open>c\<close> to \<open>n\<close> vertices: the vertices of \<open>s\<close> are
  new and distinct, and each is a neighbour of the one before.
\<close>

definition completes :: "string list obj \<Rightarrow> nat \<Rightarrow> string list \<Rightarrow> string \<Rightarrow> string list \<Rightarrow> bool" where
  "completes g n p c s \<longleftrightarrow>
     length p + 1 + length s = n \<and> distinct s \<and> c \<notin> set s \<and> set s \<inter> set p = {} \<and>
     successively (\<lambda>a b. (a, b) \<in> nbr g) (c # s)"

definition dfs_spec :: "string list obj \<Rightarrow> nat \<Rightarrow> string list \<Rightarrow> string \<Rightarrow> js_error + string list option \<Rightarrow> bool" where
  "dfs_spec g n p c r =
     (case r of
        Inl e \<Rightarrow> False
      | Inr None \<Rightarrow> \<forall>s. \<not> completes g n p c s
      | Inr (Some q) \<Rightarrow> \<exists>s. q = p @ c # s \<and> completes g n p c s)"

definition next_spec :: "string list obj \<Rightarrow> nat \<Rightarrow> string list \<Rightarrow> string list \<Rightarrow> js_error + string list option \<Rightarrow> bool" where
  "next_spec g n p xs r =
     (case r of
        Inl e \<Rightarrow> False
      | Inr None \<Rightarrow> \<forall>x \<in> set xs. x \<notin> set p \<longrightarrow> (\<forall>s. \<not> completes g n p x s)
      | Inr (Some q) \<Rightarrow> \<exists>x \<in> set xs. x \<notin> set p \<and> (\<exists>s. q = p @ x # s \<and> completes g n p x s))"

lemma completes_Nil: "completes g n p c [] \<longleftrightarrow> length p + 1 = n"
  by (simp add: completes_def)

lemma completes_Cons:
  "completes g n p c (x # s) \<longleftrightarrow>
     (c, x) \<in> nbr g \<and> x \<noteq> c \<and> x \<notin> set p \<and> completes g n (p @ [c]) x s"
  by (auto simp: completes_def)

declare ham_path_dfs.simps [simp del]

lemma ham_path_search:
  "(\<forall>x y. (x, y) \<in> nbr g \<longrightarrow> map_of g y \<noteq> None) \<Longrightarrow> map_of g c \<noteq> None \<Longrightarrow>
     dfs_spec g n p c (ham_path_dfs g n p c)"
  "(\<forall>x y. (x, y) \<in> nbr g \<longrightarrow> map_of g y \<noteq> None) \<Longrightarrow> \<forall>x \<in> set xs. map_of g x \<noteq> None \<Longrightarrow>
     next_spec g n p xs (ham_path_next g n p xs)"
proof (induction g n p c and g n p xs rule: ham_path_dfs_ham_path_next.induct)
  case (1 g n p current)
  show ?case
  proof (cases "length (p @ [current]) = n")
    case True
    then have "ham_path_dfs g n p current = Inr (Some (p @ [current]))"
      by (simp add: ham_path_dfs.simps)
    moreover have "completes g n p current []"
      using True by (simp add: completes_Nil)
    ultimately show ?thesis
      by (simp add: dfs_spec_def)
  next
    case False
    from "1.prems"(2) obtain ns where ns: "map_of g current = Some ns" by auto
    have run: "ham_path_dfs g n p current = ham_path_next g n (p @ [current]) ns"
      using False ns by (simp add: ham_path_dfs.simps)
    have nsx: "(current, y) \<in> nbr g \<longleftrightarrow> y \<in> set ns" for y
      using ns by (simp add: nbr_def)
    have "\<forall>x \<in> set ns. map_of g x \<noteq> None"
      using "1.prems"(1) nsx by blast
    from "1.IH" [OF False ns "1.prems"(1) this]
    have nx: "next_spec g n (p @ [current]) ns (ham_path_next g n (p @ [current]) ns)" .
    show ?thesis
    proof (cases "ham_path_next g n (p @ [current]) ns")
      case (Inl e)
      with nx show ?thesis by (simp add: next_spec_def)
    next
      case (Inr r)
      show ?thesis
      proof (cases r)
        case None
        with nx Inr have no: "\<forall>x \<in> set ns. x \<notin> set (p @ [current]) \<longrightarrow>
            (\<forall>s. \<not> completes g n (p @ [current]) x s)"
          by (simp add: next_spec_def)
        have "\<not> completes g n p current s" for s
        proof (cases s)
          case Nil
          with False show ?thesis by (simp add: completes_Nil)
        next
          case (Cons x s')
          show ?thesis
          proof
            assume "completes g n p current s"
            then have "(current, x) \<in> nbr g" "x \<noteq> current" "x \<notin> set p"
              "completes g n (p @ [current]) x s'"
              unfolding Cons completes_Cons by simp_all
            with no nsx show False by auto
          qed
        qed
        then show ?thesis
          using run Inr None by (simp add: dfs_spec_def)
      next
        case (Some q)
        with nx Inr obtain x s where
          x: "x \<in> set ns" "x \<notin> set (p @ [current])" "q = (p @ [current]) @ x # s"
             "completes g n (p @ [current]) x s"
          by (auto simp: next_spec_def)
        then have "completes g n p current (x # s)"
          using nsx by (simp add: completes_Cons)
        moreover have "q = p @ current # (x # s)"
          using x(3) by simp
        ultimately show ?thesis
          using run Inr Some unfolding dfs_spec_def by auto
      qed
    qed
  qed
next
  case (2 g n p)
  then show ?case by (simp add: next_spec_def)
next
  case (3 g n p x xs)
  have rest: "\<forall>y \<in> set xs. map_of g y \<noteq> None"
    using "3.prems"(2) by simp
  have x: "map_of g x \<noteq> None"
    using "3.prems"(2) by simp
  show ?case
  proof (cases "x \<in> set p")
    case True
    from "3.IH"(1) [OF True "3.prems"(1) rest] True show ?thesis
      by (auto simp: next_spec_def split: sum.splits option.splits)
  next
    case False
    from "3.IH"(2) [OF False "3.prems"(1) x]
    have d: "dfs_spec g n p x (ham_path_dfs g n p x)" .
    show ?thesis
    proof (cases "ham_path_dfs g n p x")
      case (Inl e)
      with d show ?thesis by (simp add: dfs_spec_def)
    next
      case (Inr r)
      show ?thesis
      proof (cases r)
        case None
        from "3.IH"(3) [OF False Inr None "3.prems"(1) rest]
        have "next_spec g n p xs (ham_path_next g n p xs)" .
        moreover have "\<forall>s. \<not> completes g n p x s"
          using d Inr None by (simp add: dfs_spec_def)
        ultimately show ?thesis
          using False Inr None
          by (auto simp: next_spec_def split: sum.splits option.splits)
      next
        case (Some q)
        with d Inr obtain s where "q = p @ x # s" "completes g n p x s"
          by (auto simp: dfs_spec_def)
        then show ?thesis
          using False Inr Some by (auto simp: next_spec_def)
      qed
    qed
  qed
qed

lemma try_starts_result:
  assumes "\<forall>x y. (x, y) \<in> nbr g \<longrightarrow> map_of g y \<noteq> None" and "\<forall>x \<in> set ss. map_of g x \<noteq> None"
  shows "case try_starts g n ss of
           Inl e \<Rightarrow> False
         | Inr None \<Rightarrow> \<forall>x \<in> set ss. \<forall>s. \<not> completes g n [] x s
         | Inr (Some q) \<Rightarrow> \<exists>x \<in> set ss. \<exists>s. q = x # s \<and> completes g n [] x s"
  using assms(2)
proof (induction ss)
  case Nil
  then show ?case by simp
next
  case (Cons x ss)
  have "map_of g x \<noteq> None" using Cons.prems by simp
  from ham_path_search(1) [OF assms(1) this, of n "[]"]
  have d: "dfs_spec g n [] x (ham_path_dfs g n [] x)" .
  have "\<forall>x \<in> set ss. map_of g x \<noteq> None" using Cons.prems by simp
  from Cons.IH [OF this] d show ?case
    by (auto simp: dfs_spec_def split: sum.splits option.splits)
qed

text \<open>
  \<open>s\<close> completes the path \<open>p\<close>, which ends in \<open>c\<close>, to a circuit through \<open>n\<close>
  vertices: its last vertex has \<open>start\<close> as a neighbour.
\<close>

definition closes :: "string list obj \<Rightarrow> nat \<Rightarrow> string \<Rightarrow> string list \<Rightarrow> string \<Rightarrow> string list \<Rightarrow> bool" where
  "closes g n start p c s \<longleftrightarrow>
     length p + length s = n \<and> distinct s \<and> set s \<inter> set p = {} \<and>
     successively (\<lambda>a b. (a, b) \<in> nbr g) (c # s) \<and> (last (c # s), start) \<in> nbr g"

lemma closes_Nil: "closes g n start p c [] \<longleftrightarrow> length p = n \<and> (c, start) \<in> nbr g"
  by (simp add: closes_def)

lemma closes_Cons:
  "closes g n start p c (x # s) \<longleftrightarrow>
     (c, x) \<in> nbr g \<and> x \<notin> set p \<and> closes g n start (p @ [x]) x s"
  by (auto simp: closes_def)

definition circuit_spec :: "string list obj \<Rightarrow> nat \<Rightarrow> string \<Rightarrow> string list \<Rightarrow> string \<Rightarrow> js_error + string list option \<Rightarrow> bool" where
  "circuit_spec g n start p c r =
     (case r of
        Inl e \<Rightarrow> False
      | Inr None \<Rightarrow> \<forall>s. \<not> closes g n start p c s
      | Inr (Some q) \<Rightarrow> \<exists>s. q = p @ s \<and> closes g n start p c s)"

definition circuit_next_spec :: "string list obj \<Rightarrow> nat \<Rightarrow> string \<Rightarrow> string list \<Rightarrow> string list \<Rightarrow> js_error + string list option \<Rightarrow> bool" where
  "circuit_next_spec g n start p xs r =
     (case r of
        Inl e \<Rightarrow> False
      | Inr None \<Rightarrow> \<forall>x \<in> set xs. x \<notin> set p \<longrightarrow> (\<forall>s. \<not> closes g n start (p @ [x]) x s)
      | Inr (Some q) \<Rightarrow> \<exists>x \<in> set xs. x \<notin> set p \<and> (\<exists>s. q = p @ x # s \<and> closes g n start (p @ [x]) x s))"

declare ham_circuit_dfs.simps [simp del]

lemma ham_circuit_search:
  "(\<forall>x y. (x, y) \<in> nbr g \<longrightarrow> map_of g y \<noteq> None) \<Longrightarrow> map_of g c \<noteq> None \<Longrightarrow>
     circuit_spec g n start p c (ham_circuit_dfs g n start p c)"
  "(\<forall>x y. (x, y) \<in> nbr g \<longrightarrow> map_of g y \<noteq> None) \<Longrightarrow> \<forall>x \<in> set xs. map_of g x \<noteq> None \<Longrightarrow>
     circuit_next_spec g n start p xs (ham_circuit_next g n start p xs)"
proof (induction g n start p c and g n start p xs rule: ham_circuit_dfs_ham_circuit_next.induct)
  case (1 g n start p current)
  from "1.prems"(2) obtain ns where ns: "map_of g current = Some ns" by auto
  have nsx: "(current, y) \<in> nbr g \<longleftrightarrow> y \<in> set ns" for y
    using ns by (simp add: nbr_def)
  show ?case
  proof (cases "length p = n")
    case True
    have "\<not> closes g n start p current (x # s)" for x s
      using True by (simp add: closes_def)
    then have "closes g n start p current s \<longleftrightarrow> s = [] \<and> start \<in> set ns" for s
      using True nsx by (cases s) (simp_all add: closes_Nil)
    then show ?thesis
      using True ns by (simp add: ham_circuit_dfs.simps circuit_spec_def)
  next
    case False
    have run: "ham_circuit_dfs g n start p current = ham_circuit_next g n start p ns"
      using False ns by (simp add: ham_circuit_dfs.simps)
    have "\<forall>x \<in> set ns. map_of g x \<noteq> None"
      using "1.prems"(1) nsx by blast
    from "1.IH" [OF ns False "1.prems"(1) this]
    have nx: "circuit_next_spec g n start p ns (ham_circuit_next g n start p ns)" .
    show ?thesis
    proof (cases "ham_circuit_next g n start p ns")
      case (Inl e)
      with nx show ?thesis by (simp add: circuit_next_spec_def)
    next
      case (Inr r)
      show ?thesis
      proof (cases r)
        case None
        with nx Inr have no: "\<forall>x \<in> set ns. x \<notin> set p \<longrightarrow> (\<forall>s. \<not> closes g n start (p @ [x]) x s)"
          by (simp add: circuit_next_spec_def)
        have "\<not> closes g n start p current s" for s
        proof (cases s)
          case Nil
          with False show ?thesis by (simp add: closes_Nil)
        next
          case (Cons x s')
          show ?thesis
          proof
            assume "closes g n start p current s"
            then have "(current, x) \<in> nbr g" "x \<notin> set p" "closes g n start (p @ [x]) x s'"
              unfolding Cons closes_Cons by simp_all
            with no nsx show False by auto
          qed
        qed
        then show ?thesis
          using run Inr None by (simp add: circuit_spec_def)
      next
        case (Some q)
        with nx Inr obtain x s where
          x: "x \<in> set ns" "x \<notin> set p" "q = p @ x # s" "closes g n start (p @ [x]) x s"
          by (auto simp: circuit_next_spec_def)
        then have "closes g n start p current (x # s)"
          using nsx by (simp add: closes_Cons)
        then show ?thesis
          using run Inr Some x(3) unfolding circuit_spec_def by auto
      qed
    qed
  qed
next
  case (2 g n start p)
  then show ?case by (simp add: circuit_next_spec_def)
next
  case (3 g n start p x xs)
  have rest: "\<forall>y \<in> set xs. map_of g y \<noteq> None"
    using "3.prems"(2) by simp
  have x: "map_of g x \<noteq> None"
    using "3.prems"(2) by simp
  show ?case
  proof (cases "x \<in> set p")
    case True
    from "3.IH"(1) [OF True "3.prems"(1) rest] True show ?thesis
      by (auto simp: circuit_next_spec_def split: sum.splits option.splits)
  next
    case False
    from "3.IH"(2) [OF False "3.prems"(1) x]
    have d: "circuit_spec g n start (p @ [x]) x (ham_circuit_dfs g n start (p @ [x]) x)" .
    show ?thesis
    proof (cases "ham_circuit_dfs g n start (p @ [x]) x")
      case (Inl e)
      with d show ?thesis by (simp add: circuit_spec_def)
    next
      case (Inr r)
      show ?thesis
      proof (cases r)
        case None
        from "3.IH"(3) [OF False Inr None "3.prems"(1) rest]
        have "circuit_next_spec g n start p xs (ham_circuit_next g n start p xs)" .
        moreover have "\<forall>s. \<not> closes g n start (p @ [x]) x s"
          using d Inr None by (simp add: circuit_spec_def)
        ultimately show ?thesis
          using False Inr None
          by (auto simp: circuit_next_spec_def split: sum.splits option.splits)
      next
        case (Some q)
        with d Inr obtain s where "q = (p @ [x]) @ s" "closes g n start (p @ [x]) x s"
          by (auto simp: circuit_spec_def)
        then show ?thesis
          using False Inr Some by (auto simp: circuit_next_spec_def)
      qed
    qed
  qed
qed

text \<open>
  A Hamiltonian path visits every node exactly once along unblocked edges; it is a
  circuit when its last vertex is adjacent to its first.
\<close>

definition hamiltonian_path :: "node list \<Rightarrow> edge list \<Rightarrow> string list \<Rightarrow> bool" where
  "hamiltonian_path nodes es p \<longleftrightarrow>
     distinct p \<and> set p = node_ids nodes \<and> successively (adjacent es) p"

definition hamiltonian_circuit :: "node list \<Rightarrow> edge list \<Rightarrow> string list \<Rightarrow> bool" where
  "hamiltonian_circuit nodes es p \<longleftrightarrow>
     hamiltonian_path nodes es p \<and> p \<noteq> [] \<and> adjacent es (last p) (hd p)"

lemma walk_known:
  "endpoints_known nodes es \<Longrightarrow> successively (adjacent es) (c # s) \<Longrightarrow> set s \<subseteq> node_ids nodes"
proof (induction s arbitrary: c)
  case Nil
  then show ?case by simp
next
  case (Cons x s)
  from Cons.prems(2) have "adjacent es c x" "successively (adjacent es) (x # s)"
    by simp_all
  with Cons.IH [OF Cons.prems(1)] adjacent_known [OF Cons.prems(1)] show ?case
    by auto
qed

lemma distinct_all_nodes:
  assumes "distinct (map n_id nodes)" and "distinct p" and "set p \<subseteq> node_ids nodes"
    and "length p = length nodes"
  shows "set p = node_ids nodes"
proof -
  have "card (node_ids nodes) = length nodes"
    using assms(1) distinct_card [of "map n_id nodes"] by (simp add: node_ids_def)
  moreover have "card (set p) = length p"
    using assms(2) by (rule distinct_card)
  moreover have "finite (node_ids nodes)"
    by (simp add: node_ids_def)
  ultimately show ?thesis
    using assms(3,4) by (intro card_subset_eq) simp_all
qed

lemma hamiltonian_path_length:
  assumes "distinct (map n_id nodes)" and "hamiltonian_path nodes es p"
  shows "length p = length nodes"
proof -
  have "distinct p" "set p = set (map n_id nodes)"
    using assms(2) by (simp_all add: hamiltonian_path_def node_ids_def)
  then have "length p = card (set (map n_id nodes))"
    using distinct_card [of p] by simp
  also have "\<dots> = length nodes"
    using assms(1) distinct_card [of "map n_id nodes"] by simp
  finally show ?thesis .
qed

lemma path_search_complete:
  assumes "valid_snapshot nodes es" and "nbr g = {(a, b). adjacent es a b}"
    and "length nodes \<ge> 1"
  shows "(\<exists>x \<in> set (map n_id nodes). \<exists>s. completes g (length nodes) [] x s)
           \<longleftrightarrow> (\<exists>p. hamiltonian_path nodes es p)"
proof
  assume "\<exists>x \<in> set (map n_id nodes). \<exists>s. completes g (length nodes) [] x s"
  then obtain x s where x: "x \<in> node_ids nodes" and c: "completes g (length nodes) [] x s"
    by (auto simp: node_ids_def)
  from c have len: "length (x # s) = length nodes" and dist: "distinct (x # s)"
    and walk: "successively (adjacent es) (x # s)"
    by (simp_all add: completes_def assms(2))
  have "set (x # s) \<subseteq> node_ids nodes"
    using walk_known [OF _ walk, of nodes] assms(1) x by (simp add: valid_snapshot_def)
  from distinct_all_nodes [OF _ dist this len] assms(1)
  have "set (x # s) = node_ids nodes"
    by (simp add: valid_snapshot_def)
  with dist walk have "hamiltonian_path nodes es (x # s)"
    by (simp add: hamiltonian_path_def)
  then show "\<exists>p. hamiltonian_path nodes es p" ..
next
  assume "\<exists>p. hamiltonian_path nodes es p"
  then obtain p where p: "hamiltonian_path nodes es p" ..
  have len: "length p = length nodes"
    using hamiltonian_path_length [OF _ p] assms(1) by (simp add: valid_snapshot_def)
  with assms(3) obtain x s where xs: "p = x # s"
    by (cases p) auto
  have "completes g (length nodes) [] x s"
    using p len unfolding xs completes_def hamiltonian_path_def assms(2) by simp
  moreover have "x \<in> set (map n_id nodes)"
    using p unfolding xs hamiltonian_path_def node_ids_def by auto
  ultimately show "\<exists>x \<in> set (map n_id nodes). \<exists>s. completes g (length nodes) [] x s"
    by blast
qed

lemma circuit_search_complete:
  assumes "valid_snapshot nodes es" and "nbr g = {(a, b). adjacent es a b}"
    and "start \<in> node_ids nodes"
  shows "(\<exists>s. closes g (length nodes) start [start] start s)
           \<longleftrightarrow> (\<exists>p. hamiltonian_circuit nodes es p)"
proof
  assume "\<exists>s. closes g (length nodes) start [start] start s"
  then obtain s where c: "closes g (length nodes) start [start] start s" ..
  then have len: "length (start # s) = length nodes" and dist: "distinct (start # s)"
    and walk: "successively (adjacent es) (start # s)"
    and ret: "adjacent es (last (start # s)) start"
    by (simp_all add: closes_def assms(2))
  have "set (start # s) \<subseteq> node_ids nodes"
    using walk_known [OF _ walk, of nodes] assms(1,3) by (simp add: valid_snapshot_def)
  from distinct_all_nodes [OF _ dist this len] assms(1)
  have "set (start # s) = node_ids nodes"
    by (simp add: valid_snapshot_def)
  with dist walk ret have "hamiltonian_circuit nodes es (start # s)"
    by (simp add: hamiltonian_circuit_def hamiltonian_path_def)
  then show "\<exists>p. hamiltonian_circuit nodes es p" ..
next
  assume "\<exists>p. hamiltonian_circuit nodes es p"
  then obtain p where p: "hamiltonian_path nodes es p" "p \<noteq> []" "adjacent es (last p) (hd p)"
    by (auto simp: hamiltonian_circuit_def)
  have len: "length p = length nodes"
    using hamiltonian_path_length [OF _ p(1)] assms(1) by (simp add: valid_snapshot_def)
  have "start \<in> set p"
    using p(1) assms(3) by (simp add: hamiltonian_path_def)
  then obtain a b where ab: "p = a @ start # b"
    by (auto dest: split_list)
  have dist: "distinct (a @ start # b)" and walk: "successively (adjacent es) (a @ start # b)"
    using p(1) unfolding ab hamiltonian_path_def by simp_all
  from walk have wa: "successively (adjacent es) a" and wb: "successively (adjacent es) (start # b)"
    and join: "a = [] \<or> adjacent es (last a) start"
    by (simp_all add: successively_append_iff)
  have "closes g (length nodes) start [start] start (b @ a)"
  proof (cases "a = []")
    case True
    then show ?thesis
      using len dist wb p(3) unfolding ab closes_def assms(2) by simp
  next
    case False
    then have "hd (a @ start # b) = hd a" "last (a @ start # b) = last (start # b)"
      by simp_all
    with p(3) have turn: "adjacent es (last (start # b)) (hd a)"
      unfolding ab by simp
    have "successively (adjacent es) ((start # b) @ a)"
      unfolding successively_append_iff using wa wb turn by blast
    then have "successively (adjacent es) (start # b @ a)"
      by simp
    moreover have "adjacent es (last (start # b @ a)) start"
      using join False by simp
    ultimately show ?thesis
      using len dist unfolding ab closes_def assms(2) by auto
  qed
  then show "\<exists>s. closes g (length nodes) start [start] start s" ..
qed

section \<open>Hamiltonian analysis: the stages\<close>

definition indeterminate :: hamiltonian where
  "indeterminate =
     \<lparr>hasHamiltonianCircuit = Unknown, hasHamiltonianPath = Unknown, certainty = ''unknown'',
      theoremApplied = ''NP-completeness'', samplePath = Absent\<rparr>"

lemma analyzeHamiltonian_stages:
  assumes valid: "valid_snapshot nodes es" and n3: "3 \<le> length nodes"
  shows "\<exists>r. analyzeHamiltonian nodes es = Inr r \<and>
    (if \<not> graph_connected nodes es then r = definite False False ''Connectivity requirement'' Null
     else if dirac_condition nodes es then r = definite True True ''Dirac's Theorem'' Guaranteed
     else if ore_condition nodes es then r = definite True True ''Ore's Theorem'' Guaranteed
     else if length nodes \<le> 8 then
       certainty r = ''definite'' \<and>
       theoremApplied r = ''Backtracking Algorithm (Exhaustive Search)'' \<and>
       hasHamiltonianPath r = Bool (\<exists>p. hamiltonian_path nodes es p) \<and>
       hasHamiltonianCircuit r = Bool (\<exists>p. hamiltonian_circuit nodes es p)
     else r = indeterminate)"
proof -
  let ?n = "length nodes"
  let ?act = "filter (\<lambda>e. \<not> e_blocked e) es"
  have act: "?act = active es"
    by (simp add: active_def)
  have known: "endpoints_known nodes es" and dist: "distinct (map n_id nodes)"
    using valid by (simp_all add: valid_snapshot_def)
  have known': "endpoints_known nodes (active es)"
    using known by (simp add: endpoints_known_active)
  from add_adjacent_init [OF known] obtain g where
    g: "add_adjacent (active es) (init_graph nodes) = Inr g"
       "\<And>k. map_option set (map_of g k) =
              (if k \<in> node_ids nodes then Some {v. adjacent es k v} else None)"
    by blast
  from isGraphConnected_correct [OF known'] obtain conn where
    conn: "isGraphConnected nodes (active es) = Inr conn"
          "connected conn \<longleftrightarrow> graph_connected nodes es"
    by (auto simp: graph_connected_active)
  have dirac: "ge_half (math_min (map snd (calculateDegrees nodes (active es)))) ?n
                 \<longleftrightarrow> dirac_condition nodes es"
    using dirac_correct [OF known'] by (simp add: dirac_condition_def degree_active)
  have ore: "ore_rows g (calculateDegrees nodes (active es)) ?n (map n_id nodes)
               = Inr (ore_condition nodes es)"
    by (rule ore_correct [OF valid g(2)])
  have gk: "map_of g k \<noteq> None \<longleftrightarrow> k \<in> node_ids nodes" for k
    using g(2) [of k] by (cases "map_of g k") (auto split: if_splits)
  have nbr: "nbr g = {(a, b). adjacent es a b}"
  proof -
    have "(x, y) \<in> nbr g \<longleftrightarrow> adjacent es x y" for x y
    proof (cases "map_of g x")
      case None
      with gk [of x] adjacent_known [OF known, of x y] show ?thesis
        by (auto simp: nbr_def)
    next
      case (Some ns)
      with g(2) [of x] have "set ns = {v. adjacent es x v}"
        by (auto split: if_splits)
      with Some show ?thesis by (auto simp: nbr_def)
    qed
    then show ?thesis by auto
  qed
  have keys: "\<forall>x y. (x, y) \<in> nbr g \<longrightarrow> map_of g y \<noteq> None"
  proof (intro allI impI)
    fix x y assume "(x, y) \<in> nbr g"
    then have "adjacent es x y" by (simp add: nbr)
    then have "y \<in> node_ids nodes" using adjacent_known [OF known] by blast
    then show "map_of g y \<noteq> None" using gk by blast
  qed
  have starts: "\<forall>x \<in> set (map n_id nodes). map_of g x \<noteq> None"
    using gk by (auto simp: node_ids_def)
  obtain hp where hp: "findHamiltonianPath nodes g = Inr hp"
    "hp \<noteq> None \<longleftrightarrow> (\<exists>p. hamiltonian_path nodes es p)"
  proof -
    have one: "1 \<le> ?n" using n3 by simp
    from try_starts_result [OF keys starts, of ?n]
      path_search_complete [OF valid nbr one]
    show ?thesis
      by (cases "try_starts g ?n (map n_id nodes)")
        (auto simp: findHamiltonianPath_def intro!: that split: option.splits)
  qed
  obtain hc where hc: "findHamiltonianCircuit nodes g = Inr hc"
    "hc \<noteq> None \<longleftrightarrow> (\<exists>p. hamiltonian_circuit nodes es p)"
  proof -
    from n3 obtain n0 rest where nodes: "nodes = n0 # rest"
      by (cases nodes) auto
    have s0: "n_id n0 \<in> node_ids nodes"
      by (simp add: nodes node_ids_def)
    then have "map_of g (n_id n0) \<noteq> None"
      using gk by blast
    from ham_circuit_search(1) [OF keys this, of ?n "n_id n0" "[n_id n0]"]
      circuit_search_complete [OF valid nbr s0]
    show ?thesis
      by (cases "ham_circuit_dfs g ?n (n_id n0) [n_id n0] (n_id n0)")
        (auto simp: findHamiltonianCircuit_def nodes circuit_spec_def intro!: that
           split: option.splits)
  qed
  have sizes: "?n \<noteq> 0" "?n \<noteq> 1" "?n \<noteq> 2" "3 \<le> ?n"
    using n3 by auto
  show ?thesis
    unfolding analyzeHamiltonian_def Let_def act
    using sizes g(1) conn dirac ore hp hc
    by (auto simp: definite_def indeterminate_def)
qed

definition star_nodes :: "node list" where
  "star_nodes = map mk_node [''C'', ''L1'', ''L2'', ''L3'', ''L4'']"

definition star_edges :: "edge list" where
  "star_edges = [road ''e1'' ''C'' ''L1'' 1, road ''e2'' ''C'' ''L2'' 1,
                 road ''e3'' ''C'' ''L3'' 1, road ''e4'' ''C'' ''L4'' 1]"

definition chain_nodes :: "node list" where
  "chain_nodes = map mk_node [''N1'', ''N2'', ''N3'', ''N4'', ''N5'', ''N6'', ''N7'', ''N8'', ''N9'']"

definition chain_edges :: "edge list" where
  "chain_edges = [road ''e1'' ''N1'' ''N2'' 1, road ''e2'' ''N2'' ''N3'' 1,
                  road ''e3'' ''N3'' ''N4'' 1, road ''e4'' ''N4'' ''N5'' 1,
                  road ''e5'' ''N5'' ''N6'' 1, road ''e6'' ''N6'' ''N7'' 1,
                  road ''e7'' ''N7'' ''N8'' 1, road ''e8'' ''N8'' ''N9'' 1]"

text \<open>
  Claim C5. On a connected snapshot with 3 to 8 nodes (distinct ids, unblocked edges between
  listed nodes) that satisfies neither Dirac's nor Ore's condition, \<open>analyzeHamiltonian\<close>
  returns a definite answer, and the answer is exact: a path is reported iff some
  Hamiltonian path exists, a circuit iff some Hamiltonian path exists whose last vertex
  is adjacent to its first. The witness is the star on 5 nodes, where both are false.
\<close>

theorem exhaustive_search_definite:
  assumes "valid_snapshot nodes es" and "3 \<le> length nodes" and "length nodes \<le> 8"
    and "graph_connected nodes es"
    and "\<not> dirac_condition nodes es" and "\<not> ore_condition nodes es"
  shows "\<exists>r. analyzeHamiltonian nodes es = Inr r \<and> certainty r = ''definite'' \<and>
           hasHamiltonianPath r = Bool (\<exists>p. hamiltonian_path nodes es p) \<and>
           hasHamiltonianCircuit r = Bool (\<exists>p. hamiltonian_circuit nodes es p)"
  using analyzeHamiltonian_stages [OF assms(1,2)] assms(3-6) by auto

lemma star_valid: "valid_snapshot star_nodes star_edges"
  by code_simp

lemma star_connected: "graph_connected star_nodes star_edges"
proof -
  have "endpoints_known star_nodes star_edges"
    using star_valid by (simp add: valid_snapshot_def)
  from isGraphConnected_correct [OF this]
  have "\<exists>conn. isGraphConnected star_nodes star_edges = Inr conn \<and>
          connected conn = graph_connected star_nodes star_edges" .
  moreover have "isGraphConnected star_nodes star_edges = Inr \<lparr>connected = True, components = 1\<rparr>"
    by code_simp
  ultimately show ?thesis by simp
qed

lemma star_not_dirac: "\<not> dirac_condition star_nodes star_edges"
  by code_simp

lemma star_not_ore: "\<not> ore_condition star_nodes star_edges"
  by code_simp

lemma star_analysis:
  "analyzeHamiltonian star_nodes star_edges =
     Inr \<lparr>hasHamiltonianCircuit = Bool False, hasHamiltonianPath = Bool False,
          certainty = ''definite'',
          theoremApplied = ''Backtracking Algorithm (Exhaustive Search)'',
          samplePath = Null\<rparr>"
  by code_simp

theorem exhaustive_search_definite_witness:
  "valid_snapshot star_nodes star_edges \<and> 3 \<le> length star_nodes \<and> length star_nodes \<le> 8 \<and>
   graph_connected star_nodes star_edges \<and>
   \<not> dirac_condition star_nodes star_edges \<and> \<not> ore_condition star_nodes star_edges \<and>
   analyzeHamiltonian star_nodes star_edges =
     Inr \<lparr>hasHamiltonianCircuit = Bool False, hasHamiltonianPath = Bool False,
          certainty = ''definite'',
          theoremApplied = ''Backtracking Algorithm (Exhaustive Search)'',
          samplePath = Null\<rparr> \<and>
   \<not> (\<exists>p. hamiltonian_path star_nodes star_edges p) \<and>
   \<not> (\<exists>p. hamiltonian_circuit star_nodes star_edges p)"
proof -
  have len: "3 \<le> length star_nodes" "length star_nodes \<le> 8"
    by (simp_all add: star_nodes_def)
  from exhaustive_search_definite [OF star_valid len star_connected star_not_dirac star_not_ore]
  show ?thesis
    using star_valid len star_connected star_not_dirac star_not_ore
    by (simp add: star_analysis)
qed

text \<open>
  Claim C6. On a connected snapshot with more than 8 nodes that satisfies neither Dirac's
  nor Ore's condition, \<open>analyzeHamiltonian\<close> reports \<open>"unknown"\<close> for circuit, path and
  certainty, with no sample path. The witness is the path graph on 9 nodes.
\<close>

theorem large_graph_indeterminate:
  assumes "valid_snapshot nodes es" and "8 < length nodes" and "graph_connected nodes es"
    and "\<not> dirac_condition nodes es" and "\<not> ore_condition nodes es"
  shows "analyzeHamiltonian nodes es =
           Inr \<lparr>hasHamiltonianCircuit = Unknown, hasHamiltonianPath = Unknown,
                certainty = ''unknown'', theoremApplied = ''NP-completeness'',
                samplePath = Absent\<rparr>"
proof -
  have "3 \<le> length nodes" using assms(2) by simp
  from analyzeHamiltonian_stages [OF assms(1) this] assms(2-5) show ?thesis
    by (auto simp: indeterminate_def)
qed

lemma chain_valid: "valid_snapshot chain_nodes chain_edges"
  by code_simp

lemma chain_connected: "graph_connected chain_nodes chain_edges"
proof -
  have "endpoints_known chain_nodes chain_edges"
    using chain_valid by (simp add: valid_snapshot_def)
  from isGraphConnected_correct [OF this]
  have "\<exists>conn. isGraphConnected chain_nodes chain_edges = Inr conn \<and>
          connected conn = graph_connected chain_nodes chain_edges" .
  moreover have "isGraphConnected chain_nodes chain_edges = Inr \<lparr>connected = True, components = 1\<rparr>"
    by code_simp
  ultimately show ?thesis by simp
qed

lemma chain_not_dirac: "\<not> dirac_condition chain_nodes chain_edges"
  by code_simp

lemma chain_not_ore: "\<not> ore_condition chain_nodes chain_edges"
  by code_simp

theorem large_graph_indeterminate_witness:
  "valid_snapshot chain_nodes chain_edges \<and> 8 < length chain_nodes \<and>
   graph_connected chain_nodes chain_edges \<and>
   \<not> dirac_condition chain_nodes chain_edges \<and> \<not> ore_condition chain_nodes chain_edges \<and>
   analyzeHamiltonian chain_nodes chain_edges =
     Inr \<lparr>hasHamiltonianCircuit = Unknown, hasHamiltonianPath = Unknown,
          certainty = ''unknown'', theoremApplied = ''NP-completeness'',
          samplePath = Absent\<rparr>"
proof -
  have len: "8 < length chain_nodes"
    by (simp add: chain_nodes_def)
  from large_graph_indeterminate [OF chain_valid len chain_connected chain_not_dirac chain_not_ore]
  show ?thesis
    using chain_valid len chain_connected chain_not_dirac chain_not_ore by simp
qed

section \<open>The steps reported by dijkstra\<close>

text \<open>
  The step between positions \<open>i\<close> and \<open>i + 1\<close> of a path, as the claim words it: taken
  from the first edge of the list, blocked or not, that joins the two nodes; no step
  when there is none.
\<close>

definition step_at :: "edge list \<Rightarrow> string list \<Rightarrow> nat \<Rightarrow> step list" where
  "step_at es p i =
     (case List.find (joins (p ! i) (p ! Suc i)) es of
        None \<Rightarrow> []
      | Some e \<Rightarrow> [step_of (p ! i) (p ! Suc i) e])"

lemma find_steps_indexed:
  "find_steps es p = concat (map (step_at es p) [0..<length p - 1])"
proof (induction es p rule: find_steps.induct)
  case (1 es a b p)
  have "[0..<length (a # b # p) - 1] = 0 # map Suc [0..<length (b # p) - 1]"
    by (simp add: upt_conv_Cons map_Suc_upt del: upt_Suc)
  moreover have "step_at es (a # b # p) (Suc i) = step_at es (b # p) i" for i
    by (simp add: step_at_def split: option.splits)
  moreover have "step_at es (a # b # p) 0 =
      (case List.find (joins a b) es of None \<Rightarrow> [] | Some e \<Rightarrow> [step_of a b e])"
    by (simp add: step_at_def split: option.splits)
  ultimately show ?case
    using 1 by (simp add: comp_def split: option.splits del: upt_Suc)
qed simp_all

lemma dijkstra_found_steps:
  "dijkstra nodes es s t = Returns r \<Longrightarrow> found r \<Longrightarrow> steps r = find_steps es (path r)"
  by (auto simp: dijkstra_def no_route_def split: if_splits sum.splits option.splits)

definition twin_nodes :: "node list" where
  "twin_nodes = [mk_node ''A'', mk_node ''B'']"

definition twin_edges :: "edge list" where
  "twin_edges = [closed_road ''e1'' ''A'' ''B'' 5, road ''e2'' ''A'' ''B'' 2]"

lemma dijkstra_twin:
  "dijkstra twin_nodes twin_edges ''A'' ''B'' =
     Returns \<lparr>path = [''A'', ''B''], totalCost = Fin 2,
       steps = [\<lparr>step_from = ''A'', step_to = ''B'', cost = 5, edgeId = ''e1''\<rparr>],
       found = True\<rparr>"
  by code_simp

text \<open>
  Claim C10. When \<open>dijkstra\<close> returns \<open>found = true\<close>, the step for each pair of
  consecutive path nodes is taken from the first edge of the edge list, blocked ones
  included, that joins the pair, and is left out when no edge does. On the graph with a
  blocked edge of weight 5 listed before an open parallel edge of weight 2, the single
  step cites the blocked edge with cost 5 while \<open>totalCost\<close> is 2.
\<close>

theorem dijkstra_steps_first_edge:
  "(dijkstra nodes es s t = Returns r \<and> found r \<longrightarrow>
      steps r = concat (map (step_at es (path r)) [0..<length (path r) - 1])) \<and>
   (\<exists>r'. dijkstra twin_nodes twin_edges ''A'' ''B'' = Returns r' \<and> found r' \<and>
      map edgeId (steps r') = [''e1''] \<and> map cost (steps r') = [5] \<and>
      totalCost r' = Fin 2 \<and> totalCost r' \<noteq> Fin (sum_list (map cost (steps r'))))"
  using dijkstra_found_steps [of nodes es s t r] find_steps_indexed [of es "path r"]
  by (simp add: dijkstra_twin)

theorem dijkstra_steps_first_edge_witness:
  "dijkstra twin_nodes twin_edges ''A'' ''B'' =
     Returns \<lparr>path = [''A'', ''B''], totalCost = Fin 2,
       steps = [\<lparr>step_from = ''A'', step_to = ''B'', cost = 5, edgeId = ''e1''\<rparr>],
       found = True\<rparr> \<and>
   [\<lparr>step_from = ''A'', step_to = ''B'', cost = 5, edgeId = ''e1''\<rparr>] =
     concat (map (step_at twin_edges [''A'', ''B'']) [0..<length [''A'', ''B''] - 1])"
  using dijkstra_steps_first_edge [of twin_nodes twin_edges "''A''" "''B''"
      "\<lparr>path = [''A'', ''B''], totalCost = Fin 2,
        steps = [\<lparr>step_from = ''A'', step_to = ''B'', cost = 5, edgeId = ''e1''\<rparr>],
        found = True\<rparr>"]
  by (simp add: dijkstra_twin)

section \<open>dijkstra: the adjacency lists\<close>

text \<open>The adjacency list that \<open>dijkstra\<close> builds for a node.\<close>

fun arcs_of :: "edge list \<Rightarrow> string \<Rightarrow> arc list" where
  "arcs_of [] k = []"
| "arcs_of (e # es) k =
     (if e_blocked e then []
      else (if e_from e = k then [(e_to e, e_weight e, e_id e)] else []) @
           (if e_to e = k then [(e_from e, e_weight e, e_id e)] else []))
     @ arcs_of es k"

lemma set_arcs_of:
  "(v, w, i) \<in> set (arcs_of es k) \<longleftrightarrow>
     (\<exists>e \<in> set es. \<not> e_blocked e \<and> joins k v e \<and> w = e_weight e \<and> i = e_id e)"
  by (induction es) (auto simp: joins_def)

lemma add_edges_Inr:
  assumes "\<forall>e \<in> set es. \<not> e_blocked e \<longrightarrow> map_of g (e_from e) \<noteq> None \<and> map_of g (e_to e) \<noteq> None"
  shows "\<exists>g'. add_edges es g = Inr g' \<and>
           (\<forall>k. map_of g' k = map_option (\<lambda>as. as @ arcs_of es k) (map_of g k))"
  using assms
proof (induction es arbitrary: g)
  case Nil
  then show ?case by (simp add: option.map_ident)
next
  case (Cons e es)
  show ?case
  proof (cases "e_blocked e")
    case True
    with Cons show ?thesis by simp
  next
    case False
    from Cons.prems False obtain as bs where
      as: "map_of g (e_from e) = Some as" and bs: "map_of g (e_to e) = Some bs"
      by auto
    from push_to_Inr [OF as, of "(e_to e, e_weight e, e_id e)"] obtain g1 where
      g1: "push_to (e_from e) (e_to e, e_weight e, e_id e) g = Inr g1"
          "map_of g1 = (map_of g)(e_from e \<mapsto> as @ [(e_to e, e_weight e, e_id e)])"
      by blast
    obtain bs1 where bs1: "map_of g1 (e_to e) = Some bs1"
      using g1(2) bs by (cases "e_to e = e_from e") auto
    from push_to_Inr [OF bs1, of "(e_from e, e_weight e, e_id e)"] obtain g2 where
      g2: "push_to (e_to e) (e_from e, e_weight e, e_id e) g1 = Inr g2"
          "map_of g2 = (map_of g1)(e_to e \<mapsto> bs1 @ [(e_from e, e_weight e, e_id e)])"
      by blast
    have dom2: "map_of g2 k \<noteq> None \<longleftrightarrow> map_of g k \<noteq> None" for k
      using g1(2) g2(2) as bs by auto
    have "\<forall>e' \<in> set es. \<not> e_blocked e' \<longrightarrow> map_of g2 (e_from e') \<noteq> None \<and> map_of g2 (e_to e') \<noteq> None"
      using Cons.prems dom2 by simp
    from Cons.IH [OF this] obtain g' where
      g': "add_edges es g2 = Inr g'"
          "\<forall>k. map_of g' k = map_option (\<lambda>as. as @ arcs_of es k) (map_of g2 k)"
      by blast
    have step: "map_of g2 k = map_option (\<lambda>as. as @
           ((if e_from e = k then [(e_to e, e_weight e, e_id e)] else []) @
            (if e_to e = k then [(e_from e, e_weight e, e_id e)] else [])))
           (map_of g k)" for k
      using g1(2) g2(2) as bs bs1 by (cases "map_of g k") auto
    have "map_of g' k = map_option (\<lambda>as. as @ arcs_of (e # es) k) (map_of g k)" for k
      using g'(2) step [of k] False by (cases "map_of g k") auto
    then show ?thesis
      using False g1(1) g2(1) g'(1) by simp
  qed
qed

lemma add_edges_init:
  assumes "endpoints_known nodes es"
  shows "\<exists>g. add_edges es (init_graph nodes) = Inr g \<and>
           (\<forall>k. map_of g k = (if k \<in> node_ids nodes then Some (arcs_of es k) else None))"
proof -
  have "\<forall>e \<in> set es. \<not> e_blocked e \<longrightarrow>
          map_of (init_graph nodes) (e_from e) \<noteq> None \<and> map_of (init_graph nodes) (e_to e) \<noteq> None"
    using assms by (simp add: endpoints_known_def map_of_init_graph)
  from add_edges_Inr [OF this] show ?thesis
    by (auto simp: map_of_init_graph)
qed

lemma push_to_dom:
  "push_to k a g = Inr g' \<Longrightarrow> (map_of g' x = None \<longleftrightarrow> map_of g x = None)"
  by (auto simp: push_to_def update_conv' split: option.splits if_splits)

lemma add_edges_Inl:
  assumes "\<exists>e \<in> set es. \<not> e_blocked e \<and> (map_of g (e_from e) = None \<or> map_of g (e_to e) = None)"
  shows "add_edges es g = Inl TypeError"
  using assms
proof (induction es arbitrary: g)
  case Nil
  then show ?case by simp
next
  case (Cons e es)
  show ?case
  proof (cases "e_blocked e")
    case True
    with Cons show ?thesis by simp
  next
    case False
    show ?thesis
    proof (cases "push_to (e_from e) (e_to e, e_weight e, e_id e) g")
      case (Inl x)
      with False show ?thesis by (cases x) simp
    next
      case (Inr g1)
      show ?thesis
      proof (cases "push_to (e_to e) (e_from e, e_weight e, e_id e) g1")
        case (Inl x)
        with False Inr show ?thesis by (cases x) simp
      next
        case g2: (Inr g2)
        have dom2: "map_of g2 k = None \<longleftrightarrow> map_of g k = None" for k
          using push_to_dom [OF Inr] push_to_dom [OF g2] by simp
        have "map_of g (e_from e) \<noteq> None"
          using Inr by (auto simp: push_to_def split: option.splits)
        moreover have "map_of g1 (e_to e) \<noteq> None"
          using g2 by (auto simp: push_to_def split: option.splits)
        then have "map_of g (e_to e) \<noteq> None"
          using push_to_dom [OF Inr, of "e_to e"] by simp
        ultimately obtain e' where "e' \<in> set es" "\<not> e_blocked e'"
            "map_of g (e_from e') = None \<or> map_of g (e_to e') = None"
          using Cons.prems False by auto
        then have "\<exists>e' \<in> set es. \<not> e_blocked e' \<and>
            (map_of g2 (e_from e') = None \<or> map_of g2 (e_to e') = None)"
          using dom2 by blast
        from Cons.IH [OF this] False Inr g2 show ?thesis by simp
      qed
    qed
  qed
qed

lemma add_edges_dangling:
  assumes "\<not> endpoints_known nodes es"
  shows "add_edges es (init_graph nodes) = Inl TypeError"
proof -
  have "\<exists>e \<in> set es. \<not> e_blocked e \<and>
          (map_of (init_graph nodes) (e_from e) = None \<or> map_of (init_graph nodes) (e_to e) = None)"
    using assms by (auto simp: endpoints_known_def map_of_init_graph)
  then show ?thesis by (rule add_edges_Inl)
qed

lemma init_tables_foldl:
  "foldl (\<lambda>(ds, pv) n. (AList.update (n_id n) PInf ds, AList.update (n_id n) None pv)) (ds0, pv0) nodes
     = (ds, pv) \<Longrightarrow>
   map_of ds k = (if k \<in> n_id ` set nodes then Some PInf else map_of ds0 k) \<and>
   map_of pv k = (if k \<in> n_id ` set nodes then Some None else map_of pv0 k)"
proof (induction nodes arbitrary: ds0 pv0)
  case Nil
  then show ?case by simp
next
  case (Cons n nodes)
  from Cons.prems Cons.IH [of "AList.update (n_id n) PInf ds0" "AList.update (n_id n) None pv0"]
  show ?case by (auto simp: update_conv')
qed

lemma init_tables_maps:
  "init_tables nodes = (ds, pv) \<Longrightarrow>
   map_of ds k = (if k \<in> node_ids nodes then Some PInf else None) \<and>
   map_of pv k = (if k \<in> node_ids nodes then Some None else None)"
  unfolding init_tables_def node_ids_def
  by (drule init_tables_foldl [where k = k]) simp

section \<open>dijkstra: the loop invariant\<close>

text \<open>
  \<open>previous[v] = u\<close> records a relaxation: \<open>v\<close> is in the adjacency list of \<open>u\<close> with
  some weight \<open>w\<close>, and the distance of \<open>v\<close> is that of \<open>u\<close> plus \<open>w\<close>.
\<close>

definition link_ok :: "arc list obj \<Rightarrow> num obj \<Rightarrow> string \<Rightarrow> string \<Rightarrow> bool" where
  "link_ok g ds u v \<longleftrightarrow>
     (\<exists>du w i as. map_of g u = Some as \<and> (v, w, i) \<in> set as \<and>
        map_of ds u = Some (Fin du) \<and> map_of ds v = Some (Fin (du + w)))"

text \<open>\<open>traced pv s v p\<close>: following \<open>previous\<close> back from \<open>v\<close> ends at \<open>s\<close> and gives \<open>p\<close>.\<close>

inductive traced :: "string option obj \<Rightarrow> string \<Rightarrow> string \<Rightarrow> string list \<Rightarrow> bool"
  for pv :: "string option obj" and s :: string where
  root: "map_of pv s = Some None \<Longrightarrow> traced pv s s [s]"
| link: "map_of pv v = Some (Some u) \<Longrightarrow> traced pv s u p \<Longrightarrow> traced pv s v (p @ [v])"

lemma traced_ends: "traced pv s v p \<Longrightarrow> p \<noteq> [] \<and> hd p = s \<and> last p = v"
  by (induction rule: traced.induct) auto

lemma traced_cong:
  "traced pv s v p \<Longrightarrow> \<forall>x \<in> set p. map_of pv' x = map_of pv x \<Longrightarrow> traced pv' s v p"
proof (induction rule: traced.induct)
  case root
  then show ?case by (simp add: traced.root)
next
  case (link v u p)
  then show ?case by (auto intro: traced.link)
qed

lemma walk_back_traced: "traced pv s v p \<Longrightarrow> walk_back pv v acc = Some (p @ acc)"
proof (induction arbitrary: acc rule: traced.induct)
  case root
  then show ?case by (subst walk_back.simps) simp
next
  case (link v u p)
  then show ?case by (subst walk_back.simps) simp
qed

definition dinv :: "arc list obj \<Rightarrow> string \<Rightarrow> dstate \<Rightarrow> bool" where
  "dinv g s st \<longleftrightarrow>
     (\<forall>v. map_of (distances st) v = None \<longleftrightarrow> map_of g v = None) \<and>
     (\<forall>v d. map_of (distances st) v = Some d \<longrightarrow> d = PInf \<or> (\<exists>i. d = Fin i)) \<and>
     map_of (distances st) s = Some (Fin 0) \<and>
     map_of (previous st) s = Some None \<and>
     (\<forall>v u. map_of (previous st) v = Some (Some u) \<longrightarrow>
        u \<in> set (visited st) \<and> v \<noteq> s \<and> link_ok g (distances st) u v) \<and>
     (\<forall>v i. v \<noteq> s \<and> map_of (distances st) v = Some (Fin i) \<longrightarrow>
        (\<exists>u. map_of (previous st) v = Some (Some u))) \<and>
     (\<forall>v \<in> set (visited st). (\<exists>i. map_of (distances st) v = Some (Fin i)) \<and>
        (\<exists>p. traced (previous st) s v p \<and> set p \<subseteq> set (visited st))) \<and>
     (\<forall>(v, d) \<in> set (pq st). \<exists>i. map_of (distances st) v = Some (Fin i))"

lemma dinv_dom: "dinv g s st \<Longrightarrow> map_of (distances st) v = None \<longleftrightarrow> map_of g v = None"
  unfolding dinv_def by blast

lemma dinv_values: "dinv g s st \<Longrightarrow> map_of (distances st) v = Some d \<Longrightarrow> d = PInf \<or> (\<exists>i. d = Fin i)"
  unfolding dinv_def by blast

lemma dinv_start: "dinv g s st \<Longrightarrow> map_of (distances st) s = Some (Fin 0) \<and> map_of (previous st) s = Some None"
  unfolding dinv_def by blast

lemma dinv_link:
  "dinv g s st \<Longrightarrow> map_of (previous st) v = Some (Some u) \<Longrightarrow>
     u \<in> set (visited st) \<and> v \<noteq> s \<and> link_ok g (distances st) u v"
  unfolding dinv_def by blast

lemma dinv_reached:
  "dinv g s st \<Longrightarrow> v \<noteq> s \<Longrightarrow> map_of (distances st) v = Some (Fin i) \<Longrightarrow>
     \<exists>u. map_of (previous st) v = Some (Some u)"
  unfolding dinv_def by blast

lemma dinv_visited:
  "dinv g s st \<Longrightarrow> v \<in> set (visited st) \<Longrightarrow>
     (\<exists>i. map_of (distances st) v = Some (Fin i)) \<and>
     (\<exists>p. traced (previous st) s v p \<and> set p \<subseteq> set (visited st))"
  unfolding dinv_def by blast

lemma dinv_pq: "dinv g s st \<Longrightarrow> (v, d) \<in> set (pq st) \<Longrightarrow> \<exists>i. map_of (distances st) v = Some (Fin i)"
  unfolding dinv_def by blast

lemma dinv_start_visited:
  assumes "dinv g s st" and "v \<in> set (visited st)"
  shows "s \<in> set (visited st)"
proof -
  from dinv_visited [OF assms] obtain p where "traced (previous st) s v p" "set p \<subseteq> set (visited st)"
    by blast
  with traced_ends [of "previous st" s v p] show ?thesis
    by (cases p) auto
qed

lemma relax_arc_dinv:
  assumes inv: "dinv g s st" and cur: "cur \<in> set (visited st)"
    and as: "map_of g cur = Some as" and a: "a \<in> set as"
  shows "dinv g s (relax_arc cur st a)"
proof -
  obtain nb w eid where a_def: "a = (nb, w, eid)"
    by (cases a) auto
  from dinv_visited [OF inv cur] obtain d where d: "map_of (distances st) cur = Some (Fin d)"
    by blast
  then have get: "num_get (distances st) cur = Fin d"
    by (simp add: num_get_def)
  show ?thesis
  proof (cases "nb \<notin> set (visited st) \<and> lt_num (d + w) (num_get (distances st) nb)")
    case False
    then have "relax_arc cur st a = st"
      by (auto simp: a_def get)
    with inv show ?thesis by simp
  next
    case True
    let ?ds = "AList.update nb (Fin (d + w)) (distances st)"
    let ?pv = "AList.update nb (Some cur) (previous st)"
    let ?st = "st\<lparr>distances := ?ds, previous := ?pv, pq := pq st @ [(nb, d + w)]\<rparr>"
    have new: "relax_arc cur st a = ?st"
      using True by (simp add: a_def get)
    have ds: "map_of ?ds = (map_of (distances st))(nb \<mapsto> Fin (d + w))"
      by (simp add: update_conv')
    have pv: "map_of ?pv = (map_of (previous st))(nb \<mapsto> Some cur)"
      by (simp add: update_conv')
    have nb_vis: "nb \<notin> set (visited st)"
      using True by simp
    have nb_dom: "map_of (distances st) nb \<noteq> None"
      using True by (cases "map_of (distances st) nb") (simp_all add: num_get_def)
    have s_vis: "s \<in> set (visited st)"
      by (rule dinv_start_visited [OF inv cur])
    have nb_s: "nb \<noteq> s" and nb_cur: "nb \<noteq> cur"
      using nb_vis s_vis cur by auto
    have c1: "map_of ?ds v = None \<longleftrightarrow> map_of g v = None" for v
      using dinv_dom [OF inv, of v] dinv_dom [OF inv, of nb] nb_dom by (auto simp: ds)
    have c2: "d' = PInf \<or> (\<exists>i. d' = Fin i)" if "map_of ?ds v = Some d'" for v d'
      using that dinv_values [OF inv, of v d'] by (auto simp: ds split: if_splits)
    have c3: "map_of ?ds s = Some (Fin 0)" "map_of ?pv s = Some None"
      using dinv_start [OF inv] nb_s by (simp_all add: ds pv)
    have c5: "u \<in> set (visited st) \<and> v \<noteq> s \<and> link_ok g ?ds u v"
      if "map_of ?pv v = Some (Some u)" for v u
    proof (cases "v = nb")
      case True
      with that have "u = cur" by (simp add: pv)
      moreover have "link_ok g ?ds cur nb"
        unfolding link_ok_def using as a d nb_cur by (auto simp: ds a_def)
      ultimately show ?thesis
        using True cur nb_s by simp
    next
      case False
      with that have old: "map_of (previous st) v = Some (Some u)"
        by (simp add: pv)
      from dinv_link [OF inv old] have u: "u \<in> set (visited st)" "v \<noteq> s"
        and l: "link_ok g (distances st) u v"
        by simp_all
      have "u \<noteq> nb" using u(1) nb_vis by auto
      with l False have "link_ok g ?ds u v"
        unfolding link_ok_def by (simp add: ds)
      with u show ?thesis by simp
    qed
    have c6: "\<exists>u. map_of ?pv v = Some (Some u)" if "v \<noteq> s" "map_of ?ds v = Some (Fin i)" for v i
    proof (cases "v = nb")
      case True
      then show ?thesis by (simp add: pv)
    next
      case False
      with that dinv_reached [OF inv, of v i] show ?thesis
        by (simp add: ds pv)
    qed
    have c7: "(\<exists>i. map_of ?ds v = Some (Fin i)) \<and> (\<exists>p. traced ?pv s v p \<and> set p \<subseteq> set (visited st))"
      if "v \<in> set (visited st)" for v
    proof -
      from dinv_visited [OF inv that] obtain i p where
        i: "map_of (distances st) v = Some (Fin i)"
        and p: "traced (previous st) s v p" "set p \<subseteq> set (visited st)"
        by blast
      have "v \<noteq> nb" using that nb_vis by auto
      then have "map_of ?ds v = Some (Fin i)"
        using i by (simp add: ds)
      moreover have "\<forall>x \<in> set p. map_of ?pv x = map_of (previous st) x"
        using p(2) nb_vis by (auto simp: pv)
      then have "traced ?pv s v p"
        by (rule traced_cong [OF p(1)])
      ultimately show ?thesis
        using p(2) by blast
    qed
    have c8: "\<exists>i. map_of ?ds v = Some (Fin i)" if "(v, d') \<in> set (pq st @ [(nb, d + w)])" for v d'
    proof (cases "v = nb")
      case True
      then show ?thesis by (simp add: ds)
    next
      case False
      with that have "(v, d') \<in> set (pq st)" by simp
      from dinv_pq [OF inv this] False show ?thesis
        by (simp add: ds)
    qed
    have "dinv g s ?st"
      unfolding dinv_def
    proof (intro conjI)
      show "\<forall>v. (map_of (distances ?st) v = None) = (map_of g v = None)"
        using c1 by simp
      show "\<forall>v d. map_of (distances ?st) v = Some d \<longrightarrow> d = PInf \<or> (\<exists>i. d = Fin i)"
        using c2 by simp
      show "map_of (distances ?st) s = Some (Fin 0)"
        using c3 by simp
      show "map_of (previous ?st) s = Some None"
        using c3 by simp
      show "\<forall>v u. map_of (previous ?st) v = Some (Some u) \<longrightarrow>
          u \<in> set (visited ?st) \<and> v \<noteq> s \<and> link_ok g (distances ?st) u v"
        using c5 by simp
      show "\<forall>v i. v \<noteq> s \<and> map_of (distances ?st) v = Some (Fin i) \<longrightarrow>
          (\<exists>u. map_of (previous ?st) v = Some (Some u))"
        using c6 by simp
      show "\<forall>v \<in> set (visited ?st). (\<exists>i. map_of (distances ?st) v = Some (Fin i)) \<and>
          (\<exists>p. traced (previous ?st) s v p \<and> set p \<subseteq> set (visited ?st))"
        using c7 by simp
      show "\<forall>(v, d) \<in> set (pq ?st). \<exists>i. map_of (distances ?st) v = Some (Fin i)"
        using c8 by auto
    qed
    with new show ?thesis by simp
  qed
qed

lemma foldl_relax_dinv:
  assumes "dinv g s st" and "cur \<in> set (visited st)" and "map_of g cur = Some as"
    and "set bs \<subseteq> set as"
  shows "dinv g s (foldl (relax_arc cur) st bs)"
  using assms(1,2,4)
proof (induction bs arbitrary: st)
  case Nil
  then show ?case by simp
next
  case (Cons b bs)
  have "b \<in> set as" using Cons.prems(3) by simp
  from relax_arc_dinv [OF Cons.prems(1,2) assms(3) this]
  have "dinv g s (relax_arc cur st b)" .
  moreover have "cur \<in> set (visited (relax_arc cur st b))"
    using Cons.prems(2) by (simp add: relax_arc_visited)
  moreover have "set bs \<subseteq> set as"
    using Cons.prems(3) by simp
  ultimately show ?case
    using Cons.IH by simp
qed

lemma dinv_pop:
  assumes inv: "dinv g s st" and sub: "set rest \<subseteq> set (pq st)"
  shows "dinv g s (st\<lparr>pq := rest\<rparr>)"
  using inv sub unfolding dinv_def by auto

lemma dinv_visit:
  assumes inv: "dinv g s st" and fin: "map_of (distances st) cur = Some (Fin i)"
  shows "dinv g s (st\<lparr>visited := visited st @ [cur]\<rparr>)"
proof -
  let ?st = "st\<lparr>visited := visited st @ [cur]\<rparr>"
  have tr: "\<exists>p. traced (previous st) s cur p \<and> set p \<subseteq> set (visited st @ [cur])"
  proof (cases "cur = s")
    case True
    have "traced (previous st) s s [s]"
      using dinv_start [OF inv] by (simp add: traced.root)
    with True show ?thesis by auto
  next
    case False
    from dinv_reached [OF inv False fin] obtain u where u: "map_of (previous st) cur = Some (Some u)"
      by blast
    from dinv_link [OF inv u] have "u \<in> set (visited st)" by simp
    from dinv_visited [OF inv this] obtain p where p: "traced (previous st) s u p" "set p \<subseteq> set (visited st)"
      by blast
    from traced.link [OF u p(1)] p(2) show ?thesis
      by (intro exI [of _ "p @ [cur]"]) auto
  qed
  have c7: "(\<exists>i. map_of (distances st) v = Some (Fin i)) \<and>
            (\<exists>p. traced (previous st) s v p \<and> set p \<subseteq> set (visited st @ [cur]))"
    if "v \<in> set (visited st @ [cur])" for v
  proof (cases "v = cur")
    case True
    with fin tr show ?thesis by blast
  next
    case False
    with that have "v \<in> set (visited st)" by simp
    from dinv_visited [OF inv this] show ?thesis by auto
  qed
  show ?thesis
    unfolding dinv_def
  proof (intro conjI)
    show "\<forall>v. (map_of (distances ?st) v = None) = (map_of g v = None)"
      using dinv_dom [OF inv] by simp
    show "\<forall>v d. map_of (distances ?st) v = Some d \<longrightarrow> d = PInf \<or> (\<exists>i. d = Fin i)"
      using dinv_values [OF inv] by simp
    show "map_of (distances ?st) s = Some (Fin 0)"
      using dinv_start [OF inv] by simp
    show "map_of (previous ?st) s = Some None"
      using dinv_start [OF inv] by simp
    show "\<forall>v u. map_of (previous ?st) v = Some (Some u) \<longrightarrow>
        u \<in> set (visited ?st) \<and> v \<noteq> s \<and> link_ok g (distances ?st) u v"
      using dinv_link [OF inv] by simp
    show "\<forall>v i. v \<noteq> s \<and> map_of (distances ?st) v = Some (Fin i) \<longrightarrow>
        (\<exists>u. map_of (previous ?st) v = Some (Some u))"
      using dinv_reached [OF inv] by simp
    show "\<forall>v \<in> set (visited ?st). (\<exists>i. map_of (distances ?st) v = Some (Fin i)) \<and>
        (\<exists>p. traced (previous ?st) s v p \<and> set p \<subseteq> set (visited ?st))"
      using c7 by simp
    show "\<forall>(v, d) \<in> set (pq ?st). \<exists>i. map_of (distances ?st) v = Some (Fin i)"
      using dinv_pq [OF inv] by auto
  qed
qed

lemma sort_key_pop:
  assumes "pq st \<noteq> []"
  obtains cur cd rest where "sort_key snd (pq st) = (cur, cd) # rest"
    and "set (pq st) = insert (cur, cd) (set rest)"
proof -
  have "length (sort_key snd (pq st)) = length (pq st)"
    by simp
  with assms obtain cur cd rest where srt: "sort_key snd (pq st) = (cur, cd) # rest"
    by (cases "sort_key snd (pq st)") auto
  have "set (pq st) = insert (cur, cd) (set rest)"
    using arg_cong [OF srt, of set] by simp
  with srt show ?thesis by (rule that)
qed

lemma dijkstra_iter_dinv:
  assumes inv: "dinv g s st" and ne: "pq st \<noteq> []"
  shows "\<exists>st' b. dijkstra_iter g t st = Inr (st', b) \<and> dinv g s st' \<and> (b \<longrightarrow> t \<in> set (visited st'))"
proof -
  from ne obtain cur cd rest where srt: "sort_key snd (pq st) = (cur, cd) # rest"
    and sets: "set (pq st) = insert (cur, cd) (set rest)"
    by (rule sort_key_pop)
  let ?st1 = "st\<lparr>pq := rest\<rparr>"
  have inv1: "dinv g s ?st1"
    using sets by (intro dinv_pop [OF inv]) auto
  from dinv_pq [OF inv, of cur cd] sets obtain i where fin: "map_of (distances st) cur = Some (Fin i)"
    by auto
  show ?thesis
  proof (cases "cur \<in> set (visited st)")
    case True
    then have "dijkstra_iter g t st = Inr (?st1, False)"
      using srt by (simp add: dijkstra_iter_def)
    with inv1 show ?thesis
      by (intro exI [of _ ?st1] exI [of _ False]) simp
  next
    case False
    let ?st2 = "?st1\<lparr>visited := visited ?st1 @ [cur]\<rparr>"
    have inv2: "dinv g s ?st2"
      using fin by (intro dinv_visit [OF inv1]) simp
    have cur2: "cur \<in> set (visited ?st2)"
      by simp
    show ?thesis
    proof (cases "cur = t")
      case True
      then have "dijkstra_iter g t st = Inr (?st2, True)"
        using srt False by (simp add: dijkstra_iter_def)
      with inv2 True show ?thesis
        by (intro exI [of _ ?st2] exI [of _ True]) simp
    next
      case nt: False
      show ?thesis
      proof (cases "gt_num cd (num_get (distances ?st2) cur)")
        case True
        then have "dijkstra_iter g t st = Inr (?st2, False)"
          using srt False nt by (simp add: dijkstra_iter_def)
        with inv2 show ?thesis
          by (intro exI [of _ ?st2] exI [of _ False]) simp
      next
        case ngt: False
        have "map_of g cur \<noteq> None"
          using dinv_dom [OF inv, of cur] fin by simp
        then obtain as where as: "map_of g cur = Some as" by auto
        have "dijkstra_iter g t st = Inr (foldl (relax_arc cur) ?st2 as, False)"
          using srt False nt ngt as by (simp add: dijkstra_iter_def)
        moreover have "dinv g s (foldl (relax_arc cur) ?st2 as)"
          by (rule foldl_relax_dinv [OF inv2 cur2 as]) simp
        ultimately show ?thesis
          by (intro exI [of _ "foldl (relax_arc cur) ?st2 as"] exI [of _ False]) simp
      qed
    qed
  qed
qed

lemma dijkstra_loop_dinv:
  "dinv g s st \<Longrightarrow>
   \<exists>st'. dijkstra_loop g t st = Inr st' \<and> dinv g s st' \<and> (pq st' = [] \<or> t \<in> set (visited st'))"
proof (induction g t st rule: dijkstra_loop.induct)
  case (1 g t st)
  show ?case
  proof (cases "pq st = []")
    case True
    with "1.prems" show ?thesis
      by (subst dijkstra_loop.simps) simp
  next
    case False
    from dijkstra_iter_dinv [OF "1.prems" False, of t] obtain st' b where
      it: "dijkstra_iter g t st = Inr (st', b)" and inv': "dinv g s st'"
      and brk: "b \<longrightarrow> t \<in> set (visited st')"
      by blast
    show ?thesis
    proof (cases b)
      case True
      with it inv' brk False show ?thesis
        by (subst dijkstra_loop.simps) simp
    next
      case nb: False
      from "1.IH" [OF False it refl nb inv'] obtain st'' where
        "dijkstra_loop g t st' = Inr st''" "dinv g s st''" "pq st'' = [] \<or> t \<in> set (visited st'')"
        by blast
      with it nb False show ?thesis
        by (subst dijkstra_loop.simps) simp
    qed
  qed
qed

section \<open>dijkstra: the result\<close>

lemma init_dinv:
  assumes g: "\<And>k. map_of g k = None \<longleftrightarrow> k \<notin> node_ids nodes" and s: "s \<in> node_ids nodes"
  shows "dinv g s (init_dstate nodes s)"
proof -
  obtain ds pv where tabs: "init_tables nodes = (ds, pv)"
    by (cases "init_tables nodes") auto
  have ds: "map_of ds k = (if k \<in> node_ids nodes then Some PInf else None)"
    and pv: "map_of pv k = (if k \<in> node_ids nodes then Some None else None)" for k
    using init_tables_maps [OF tabs, of k] by simp_all
  have st: "init_dstate nodes s =
      \<lparr>distances = AList.update s (Fin 0) ds, previous = pv, visited = [], pq = [(s, 0)]\<rparr>"
    by (simp add: init_dstate_def tabs)
  have ds': "map_of (AList.update s (Fin 0) ds) k =
      (if k = s then Some (Fin 0) else if k \<in> node_ids nodes then Some PInf else None)" for k
    by (simp add: update_conv' ds)
  show ?thesis
    unfolding dinv_def st
    using s g by (auto simp: ds' pv)
qed

definition no_parallel :: "edge list \<Rightarrow> bool" where
  "no_parallel es \<longleftrightarrow>
     (\<forall>e \<in> set es. \<forall>e' \<in> set es. \<forall>a b. joins a b e \<and> joins a b e' \<longrightarrow> e = e')"

lemma find_steps_snoc:
  "p \<noteq> [] \<Longrightarrow>
   find_steps es (p @ [v]) = find_steps es p @
     (case List.find (joins (last p) v) es of None \<Rightarrow> [] | Some e \<Rightarrow> [step_of (last p) v e])"
proof (induction es p rule: find_steps.induct)
  case (1 es a b p)
  then show ?case by (simp split: option.splits)
qed (simp_all split: option.splits)


lemma dijkstra_result:
  assumes known: "endpoints_known nodes es"
    and ids: "s \<noteq> []" "t \<noteq> []" "s \<noteq> t" "s \<in> node_ids nodes" "t \<in> node_ids nodes"
  shows "\<exists>g st. (\<forall>k. map_of g k = (if k \<in> node_ids nodes then Some (arcs_of es k) else None)) \<and>
           dinv g s st \<and> (pq st = [] \<or> t \<in> set (visited st)) \<and>
           dijkstra_loop g t (init_dstate nodes s) = Inr st \<and>
           (if num_get (distances st) t = PInf then dijkstra nodes es s t = Returns no_route
            else \<exists>p i. traced (previous st) s t p \<and> map_of (distances st) t = Some (Fin i) \<and>
                   dijkstra nodes es s t =
                     Returns \<lparr>path = p, totalCost = Fin i, steps = find_steps es p, found = True\<rparr>)"
proof -
  from add_edges_init [OF known] obtain g where
    g: "add_edges es (init_graph nodes) = Inr g"
       "\<And>k. map_of g k = (if k \<in> node_ids nodes then Some (arcs_of es k) else None)"
    by blast
  have gdom: "map_of g k = None \<longleftrightarrow> k \<notin> node_ids nodes" for k
    by (simp add: g(2))
  from init_dinv [OF gdom ids(4)] have "dinv g s (init_dstate nodes s)" .
  from dijkstra_loop_dinv [OF this, of t] obtain st where
    st: "dijkstra_loop g t (init_dstate nodes s) = Inr st" "dinv g s st"
        "pq st = [] \<or> t \<in> set (visited st)"
    by blast
  have pre: "dijkstra nodes es s t =
      (if num_get (distances st) t = PInf then Returns no_route
       else case walk_back (previous st) t [] of
         None \<Rightarrow> Diverges
       | Some p \<Rightarrow> Returns \<lparr>path = p, totalCost = num_get (distances st) t,
                            steps = find_steps es p, found = True\<rparr>)"
    using ids g(1) st(1) by (simp add: dijkstra_def has_member_def g(2))
  have tail: "\<exists>p i. traced (previous st) s t p \<and> map_of (distances st) t = Some (Fin i) \<and>
                   dijkstra nodes es s t =
                     Returns \<lparr>path = p, totalCost = Fin i, steps = find_steps es p, found = True\<rparr>"
    if fin: "num_get (distances st) t \<noteq> PInf"
  proof -
    have "map_of (distances st) t \<noteq> None"
      using dinv_dom [OF st(2), of t] gdom [of t] ids(5) by simp
    then obtain d where d: "map_of (distances st) t = Some d" by auto
    with dinv_values [OF st(2) d] fin obtain i where i: "map_of (distances st) t = Some (Fin i)"
      by (auto simp: num_get_def)
    from dinv_reached [OF st(2) _ i] ids(3) obtain u where u: "map_of (previous st) t = Some (Some u)"
      by auto
    from dinv_link [OF st(2) u] have "u \<in> set (visited st)" by simp
    from dinv_visited [OF st(2) this] obtain p where p: "traced (previous st) s u p"
      by blast
    have tr: "traced (previous st) s t (p @ [t])"
      by (rule traced.link [OF u p])
    from walk_back_traced [OF tr, of "[]"] have "walk_back (previous st) t [] = Some (p @ [t])"
      by simp
    with pre fin i have "dijkstra nodes es s t =
        Returns \<lparr>path = p @ [t], totalCost = Fin i, steps = find_steps es (p @ [t]), found = True\<rparr>"
      by (simp add: num_get_def)
    with tr i show ?thesis by blast
  qed
  show ?thesis
  proof (cases "num_get (distances st) t = PInf")
    case True
    with pre have "dijkstra nodes es s t = Returns no_route" by simp
    with True g(2) st show ?thesis
      by (intro exI [of _ g] exI [of _ st]) simp
  next
    case False
    from tail [OF False] False g(2) st show ?thesis
      by (intro exI [of _ g] exI [of _ st]) simp
  qed
qed

text \<open>Only keys of \<open>graph\<close> get an entry in \<open>previous\<close>.\<close>

definition pdom :: "arc list obj \<Rightarrow> dstate \<Rightarrow> bool" where
  "pdom g st \<longleftrightarrow> (\<forall>v. map_of g v = None \<longrightarrow> map_of (previous st) v = None)"

lemma relax_arc_pdom:
  assumes inv: "dinv g s st" and p: "pdom g st"
  shows "pdom g (relax_arc cur st a)"
proof -
  obtain nb w eid where a: "a = (nb, w, eid)" by (cases a) auto
  show ?thesis
  proof (cases "\<exists>d. num_get (distances st) cur = Fin d \<and> nb \<notin> set (visited st) \<and>
      lt_num (d + w) (num_get (distances st) nb)")
    case True
    then obtain d where d: "num_get (distances st) cur = Fin d" "nb \<notin> set (visited st)"
      "lt_num (d + w) (num_get (distances st) nb)"
      by blast
    from d(3) have "map_of (distances st) nb \<noteq> None"
      by (cases "map_of (distances st) nb") (simp_all add: num_get_def)
    then have "map_of g nb \<noteq> None"
      using dinv_dom [OF inv, of nb] by simp
    with p d show ?thesis
      by (auto simp: a pdom_def update_conv')
  next
    case False
    then have "relax_arc cur st a = st"
      by (cases "num_get (distances st) cur") (auto simp: a)
    with p show ?thesis by simp
  qed
qed

lemma foldl_relax_pdom:
  assumes "dinv g s st" and "cur \<in> set (visited st)" and "map_of g cur = Some as"
    and "set bs \<subseteq> set as" and "pdom g st"
  shows "pdom g (foldl (relax_arc cur) st bs)"
  using assms(1,2,4,5)
proof (induction bs arbitrary: st)
  case Nil
  then show ?case by simp
next
  case (Cons b bs)
  have b: "b \<in> set as" using Cons.prems(3) by simp
  have inv1: "dinv g s (relax_arc cur st b)"
    by (rule relax_arc_dinv [OF Cons.prems(1,2) assms(3) b])
  have p1: "pdom g (relax_arc cur st b)"
    by (rule relax_arc_pdom [OF Cons.prems(1,4)])
  have "cur \<in> set (visited (relax_arc cur st b))"
    using Cons.prems(2) by (simp add: relax_arc_visited)
  moreover have "set bs \<subseteq> set as" using Cons.prems(3) by simp
  ultimately show ?case
    using Cons.IH [OF inv1 _ _ p1] by simp
qed

lemma dijkstra_iter_pdom:
  assumes inv: "dinv g s st" and p: "pdom g st" and ne: "pq st \<noteq> []"
    and run: "dijkstra_iter g t st = Inr (st', b)"
  shows "pdom g st'"
proof -
  from ne obtain cur cd rest where srt: "sort_key snd (pq st) = (cur, cd) # rest"
    and sets: "set (pq st) = insert (cur, cd) (set rest)"
    by (rule sort_key_pop)
  let ?st1 = "st\<lparr>pq := rest\<rparr>"
  let ?st2 = "?st1\<lparr>visited := visited ?st1 @ [cur]\<rparr>"
  have inv1: "dinv g s ?st1"
    using sets by (intro dinv_pop [OF inv]) auto
  from dinv_pq [OF inv, of cur cd] sets obtain i where fin: "map_of (distances st) cur = Some (Fin i)"
    by auto
  have inv2: "dinv g s ?st2"
    using fin by (intro dinv_visit [OF inv1]) simp
  have p2: "pdom g ?st1" "pdom g ?st2"
    using p by (simp_all add: pdom_def)
  have fold: "pdom g (foldl (relax_arc cur) ?st2 as)" if "map_of g cur = Some as" for as
    by (rule foldl_relax_pdom [OF inv2 _ that subset_refl p2(2)]) simp
  from run srt consider "st' = ?st1" | "st' = ?st2"
    | as where "map_of g cur = Some as" "st' = foldl (relax_arc cur) ?st2 as"
    by (auto simp: dijkstra_iter_def Let_def split: if_splits option.splits)
  then show ?thesis
    using p2 fold by cases simp_all
qed

lemma dijkstra_loop_pdom:
  "dinv g s st \<Longrightarrow> pdom g st \<Longrightarrow> dijkstra_loop g t st = Inr st' \<Longrightarrow> pdom g st'"
proof (induction g t st rule: dijkstra_loop.induct)
  case (1 g t st)
  show ?case
  proof (cases "pq st = []")
    case True
    with "1.prems" show ?thesis
      by (subst (asm) dijkstra_loop.simps) simp
  next
    case False
    from dijkstra_iter_dinv [OF "1.prems"(1) False, of t] obtain st1 b where
      it: "dijkstra_iter g t st = Inr (st1, b)" and inv1: "dinv g s st1"
      by blast
    have p1: "pdom g st1"
      by (rule dijkstra_iter_pdom [OF "1.prems"(1,2) False it])
    show ?thesis
    proof (cases b)
      case True
      with it False "1.prems"(3) have "st' = st1"
        by (subst (asm) dijkstra_loop.simps) simp
      with p1 show ?thesis by simp
    next
      case nb: False
      with it False "1.prems"(3) have "dijkstra_loop g t st1 = Inr st'"
        by (subst (asm) dijkstra_loop.simps) simp
      from "1.IH" [OF False it refl nb inv1 p1 this] show ?thesis .
    qed
  qed
qed

lemma init_pdom:
  assumes g: "\<And>k. map_of g k = None \<longleftrightarrow> k \<notin> node_ids nodes"
  shows "pdom g (init_dstate nodes s)"
proof -
  obtain ds pv where tabs: "init_tables nodes = (ds, pv)"
    by (cases "init_tables nodes") auto
  have "map_of pv k = (if k \<in> node_ids nodes then Some None else None)" for k
    using init_tables_maps [OF tabs, of k] by simp
  then show ?thesis
    using g by (simp add: pdom_def init_dstate_def tabs)
qed

text \<open>A start that is no key of \<open>graph\<close>: the first turn of the loop throws.\<close>

lemma dijkstra_loop_unknown_start:
  assumes "map_of g s = None" and "s \<noteq> t"
  shows "dijkstra_loop g t (init_dstate nodes s) = Inl TypeError"
proof -
  obtain ds pv where tabs: "init_tables nodes = (ds, pv)"
    by (cases "init_tables nodes") auto
  have st: "init_dstate nodes s =
      \<lparr>distances = AList.update s (Fin 0) ds, previous = pv, visited = [], pq = [(s, 0)]\<rparr>"
    by (simp add: init_dstate_def tabs)
  have "dijkstra_iter g t (init_dstate nodes s) = Inl TypeError"
    using assms by (simp add: st dijkstra_iter_def num_get_def update_conv')
  then show ?thesis
    by (subst dijkstra_loop.simps) (simp add: st)
qed

text \<open>
  A route is found only between two distinct listed nodes, on a snapshot whose unblocked
  edges join listed nodes.
\<close>

lemma dijkstra_found_ids:
  assumes run: "dijkstra nodes es s t = Returns r" and f: "found r"
  shows "endpoints_known nodes es \<and> s \<noteq> [] \<and> t \<noteq> [] \<and> s \<noteq> t \<and>
         s \<in> node_ids nodes \<and> t \<in> node_ids nodes"
proof -
  have q: "s \<noteq> []" "t \<noteq> []" "s \<noteq> t"
    using run f by (auto simp: dijkstra_def no_route_def split: if_splits)
  have known: "endpoints_known nodes es"
  proof (rule ccontr)
    assume "\<not> endpoints_known nodes es"
    from add_edges_dangling [OF this] run q show False
      by (simp add: dijkstra_def)
  qed
  from add_edges_init [OF known] obtain g where
    g: "add_edges es (init_graph nodes) = Inr g"
       "\<And>k. map_of g k = (if k \<in> node_ids nodes then Some (arcs_of es k) else None)"
    by blast
  have gdom: "map_of g k = None \<longleftrightarrow> k \<notin> node_ids nodes" for k
    by (simp add: g(2))
  have s: "s \<in> node_ids nodes"
  proof (rule ccontr)
    assume "s \<notin> node_ids nodes"
    then have "map_of g s = None"
      by (simp add: g(2))
    from dijkstra_loop_unknown_start [OF this q(3), of nodes] run f q g(1) show False
      by (auto simp: dijkstra_def no_route_def split: if_splits)
  qed
  have t: "t \<in> node_ids nodes"
  proof (rule ccontr)
    assume nt: "t \<notin> node_ids nodes"
    have inv0: "dinv g s (init_dstate nodes s)"
      by (rule init_dinv [OF gdom s])
    from dijkstra_loop_dinv [OF inv0, of t] obtain st where
      st: "dijkstra_loop g t (init_dstate nodes s) = Inr st" "dinv g s st"
      by blast
    have p: "pdom g st"
      by (rule dijkstra_loop_pdom [OF inv0 init_pdom [OF gdom] st(1)])
    have gt: "map_of g t = None"
      using nt by (simp add: g(2))
    have "map_of (distances st) t = None"
      using dinv_dom [OF st(2), of t] gt by simp
    then have d: "num_get (distances st) t = NaN"
      by (simp add: num_get_def)
    have "map_of (previous st) t = None"
      using p gt by (simp add: pdom_def)
    then have w: "walk_back (previous st) t [] = None"
      by (subst walk_back.simps) simp
    from run f q g(1) st(1) d w show False
      by (auto simp: dijkstra_def no_route_def split: if_splits)
  qed
  from known q s t show ?thesis by simp
qed

section \<open>Snapshots with dangling edges\<close>

lemma dijkstra_returns:
  assumes known: "endpoints_known nodes es"
    and s: "s \<in> node_ids nodes \<or> s \<notin> set object_members"
    and t: "t \<in> node_ids nodes \<or> t \<notin> set object_members"
  shows "\<exists>r. dijkstra nodes es s t = Returns r"
proof (cases "s = [] \<or> t = [] \<or> s = t")
  case True
  then show ?thesis by (auto simp: dijkstra_def)
next
  case False
  from add_edges_init [OF known] obtain g where
    g: "add_edges es (init_graph nodes) = Inr g"
       "\<And>k. map_of g k = (if k \<in> node_ids nodes then Some (arcs_of es k) else None)"
    by blast
  show ?thesis
  proof (cases "s \<in> node_ids nodes \<and> t \<in> node_ids nodes")
    case True
    with False dijkstra_result [OF known, of s t] show ?thesis
      by (auto split: if_splits)
  next
    case nk: False
    with s t have "\<not> has_member g s \<or> \<not> has_member g t"
      by (auto simp: has_member_def g(2))
    with False g(1) show ?thesis
      by (auto simp: dijkstra_def)
  qed
qed

lemma dijkstra_throws:
  assumes "\<not> endpoints_known nodes es" and "s \<noteq> []" and "t \<noteq> []" and "s \<noteq> t"
  shows "dijkstra nodes es s t = Throws TypeError"
  using add_edges_dangling [OF assms(1)] assms(2-4) by (simp add: dijkstra_def)

lemma analyzeHamiltonian_returns:
  assumes known: "endpoints_known nodes es"
  shows "\<exists>r. analyzeHamiltonian nodes es = Inr r"
proof (cases "length nodes < 3")
  case True
  then consider "length nodes = 0" | "length nodes = 1" | "length nodes = 2"
    by linarith
  then show ?thesis
    by cases (simp_all add: analyzeHamiltonian_def Let_def)
next
  case False
  let ?n = "length nodes"
  have act: "filter (\<lambda>e. \<not> e_blocked e) es = active es"
    by (simp add: active_def)
  have known': "endpoints_known nodes (active es)"
    using known by (simp add: endpoints_known_active)
  from add_adjacent_init [OF known] obtain g where
    g: "add_adjacent (active es) (init_graph nodes) = Inr g"
       "\<And>k. map_option set (map_of g k) =
              (if k \<in> node_ids nodes then Some {v. adjacent es k v} else None)"
    by blast
  from isGraphConnected_correct [OF known'] obtain conn where
    conn: "isGraphConnected nodes (active es) = Inr conn"
    by blast
  have gk: "map_of g k \<noteq> None \<longleftrightarrow> k \<in> node_ids nodes" for k
    using g(2) [of k] by (cases "map_of g k") (auto split: if_splits)
  have keys: "\<forall>x y. (x, y) \<in> nbr g \<longrightarrow> map_of g y \<noteq> None"
  proof (intro allI impI)
    fix x y assume "(x, y) \<in> nbr g"
    then obtain ns where "map_of g x = Some ns" "y \<in> set ns"
      by (auto simp: nbr_def)
    with g(2) [of x] have "adjacent es x y"
      by (auto split: if_splits)
    then have "y \<in> node_ids nodes" using adjacent_known [OF known] by blast
    then show "map_of g y \<noteq> None" using gk by blast
  qed
  have starts: "\<forall>x \<in> set (map n_id nodes). map_of g x \<noteq> None"
    using gk by (auto simp: node_ids_def)
  have "\<forall>u \<in> set (map n_id nodes). \<exists>ns. map_of g u = Some ns \<and> set ns = (\<lambda>u. {v. adjacent es u v}) u"
  proof
    fix u assume "u \<in> set (map n_id nodes)"
    then have "map_option set (map_of g u) = Some {v. adjacent es u v}"
      using g(2) [of u] by (simp add: node_ids_def)
    then show "\<exists>ns. map_of g u = Some ns \<and> set ns = (\<lambda>u. {v. adjacent es u v}) u"
      by (cases "map_of g u") auto
  qed
  from ore_rows_result [OF this] obtain ore where
    ore: "ore_rows g (calculateDegrees nodes (active es)) ?n (map n_id nodes) = Inr ore"
    by blast
  obtain hp where hp: "findHamiltonianPath nodes g = Inr hp"
    using try_starts_result [OF keys starts, of ?n]
    by (cases "try_starts g ?n (map n_id nodes)") (auto simp: findHamiltonianPath_def)
  obtain hc where hc: "findHamiltonianCircuit nodes g = Inr hc"
  proof -
    from False obtain n0 rest where nodes: "nodes = n0 # rest"
      by (cases nodes) auto
    have "n_id n0 \<in> node_ids nodes"
      by (simp add: nodes node_ids_def)
    then have "map_of g (n_id n0) \<noteq> None"
      using gk by blast
    from ham_circuit_search(1) [OF keys this, of ?n "n_id n0" "[n_id n0]"]
    show ?thesis
      by (cases "ham_circuit_dfs g ?n (n_id n0) [n_id n0] (n_id n0)")
        (auto simp: findHamiltonianCircuit_def nodes circuit_spec_def intro!: that)
  qed
  have sizes: "?n \<noteq> 0" "?n \<noteq> 1" "?n \<noteq> 2"
    using False by auto
  show ?thesis
    unfolding analyzeHamiltonian_def Let_def act
    using sizes g(1) conn ore hp hc by auto
qed

text \<open>
  On a snapshot whose unblocked edges have both endpoints in the node list the three
  operations return a result record, provided the two identifiers given to \<open>dijkstra\<close>
  are listed or are no names of inherited members.
\<close>

lemma returns_on_known_endpoints:
  assumes "endpoints_known nodes es"
    and "s \<in> node_ids nodes \<or> s \<notin> set object_members"
    and "t \<in> node_ids nodes \<or> t \<notin> set object_members"
  shows "(\<exists>r. dijkstra nodes es s t = Returns r) \<and>
         (\<exists>r. analyzeEulerian nodes es = Inr r) \<and>
         (\<exists>r. analyzeHamiltonian nodes es = Inr r)"
  using dijkstra_returns [OF assms] analyzeEulerian_returns [OF assms(1)]
    analyzeHamiltonian_returns [OF assms(1)]
  by blast

text \<open>
  Claim C8 fails on the code. With an unblocked edge from \<open>A\<close> to a node \<open>C\<close> that is
  not in the node list, \<open>graph[edge.to].push\<close> throws a \<open>TypeError\<close> in \<open>dijkstra\<close>,
  and so do \<open>adjacencyList[edge.to].push\<close> in \<open>analyzeEulerian\<close> and
  \<open>adjacencyList[edge.to].add\<close> in \<open>analyzeHamiltonian\<close>, while \<open>bellmanFord\<close>
  answers the same snapshot with "no path". \<open>dijkstra\<close> also throws, on a snapshot
  without any dangling edge, when the start identifier is the name of an inherited
  member: it passes the test \<open>!graph[startId]\<close> and fails at
  \<open>graph[currentNode].forEach\<close>.
\<close>

theorem dangling_edge_throws:
  "dijkstra [mk_node ''A'', mk_node ''B''] [road ''e1'' ''A'' ''C'' 5] ''A'' ''B'' = Throws TypeError \<and>
   analyzeEulerian [mk_node ''A'', mk_node ''B''] [road ''e1'' ''A'' ''C'' 5] = Inl TypeError \<and>
   analyzeHamiltonian [mk_node ''A'', mk_node ''B'', mk_node ''D''] [road ''e1'' ''A'' ''C'' 5]
     = Inl TypeError \<and>
   bellmanFord [mk_node ''A'', mk_node ''B''] [road ''e1'' ''A'' ''C'' 5] ''A'' ''B'' =
     \<lparr>path = [], totalCost = Fin 0, steps = [], found = False, hasNegativeCycle = False,
      error = None\<rparr> \<and>
   dijkstra [mk_node ''A'', mk_node ''B''] [road ''e1'' ''A'' ''B'' 5] ''constructor'' ''B''
     = Throws TypeError"
  by code_simp

theorem dangling_edge_throws_witness:
  "(\<forall>r. dijkstra [mk_node ''A'', mk_node ''B''] [road ''e1'' ''A'' ''C'' 5] ''A'' ''B'' \<noteq> Returns r) \<and>
   (\<forall>r. analyzeEulerian [mk_node ''A'', mk_node ''B''] [road ''e1'' ''A'' ''C'' 5] \<noteq> Inr r) \<and>
   (\<forall>r. analyzeHamiltonian [mk_node ''A'', mk_node ''B'', mk_node ''D'']
      [road ''e1'' ''A'' ''C'' 5] \<noteq> Inr r) \<and>
   \<not> found (bellmanFord [mk_node ''A'', mk_node ''B''] [road ''e1'' ''A'' ''C'' 5] ''A'' ''B'')"
  using dangling_edge_throws by simp

section \<open>Bellman-Ford: what the passes reach\<close>

text \<open>
  The nodes within \<open>k\<close> steps of a set, and the bound on the number of steps that
  reach everything reachable in a finite graph.
\<close>

fun level :: "('a \<times> 'a) set \<Rightarrow> 'a set \<Rightarrow> nat \<Rightarrow> 'a set" where
  "level R S 0 = S"
| "level R S (Suc k) = level R S k \<union> R `` level R S k"

lemma level_mono: "level R S k \<subseteq> level R S (k + j)"
  by (induction j) auto

lemma level_mono_le: "k \<le> n \<Longrightarrow> level R S k \<subseteq> level R S n"
  using level_mono [of R S k "n - k"] by simp

lemma level_closed:
  assumes "level R S (Suc k) = level R S k"
  shows "R\<^sup>* `` S \<subseteq> level R S k"
proof
  fix v assume "v \<in> R\<^sup>* `` S"
  then obtain u where u: "u \<in> S" "(u, v) \<in> R\<^sup>*" by auto
  have "u \<in> level R S k"
    using u(1) level_mono [of R S 0 k] by auto
  with u(2) show "v \<in> level R S k"
  proof (induction rule: rtrancl_induct)
    case base
    then show ?case .
  next
    case (step y z)
    then have "z \<in> R `` level R S k" by auto
    with assms show ?case by auto
  qed
qed

lemma level_within:
  assumes "S \<subseteq> V" and "R `` V \<subseteq> V"
  shows "level R S k \<subseteq> V"
  using assms by (induction k) auto

lemma level_grows:
  assumes "finite V" and "S \<subseteq> V" and "R `` V \<subseteq> V"
    and "\<forall>j < k. level R S (Suc j) \<noteq> level R S j"
  shows "card S + k \<le> card (level R S k)"
  using assms(4)
proof (induction k)
  case 0
  then show ?case by simp
next
  case (Suc k)
  then have "card S + k \<le> card (level R S k)" by simp
  moreover have "level R S k \<subset> level R S (Suc k)"
    using Suc.prems by auto
  then have "card (level R S k) < card (level R S (Suc k))"
    using level_within [OF assms(2,3), of "Suc k"] assms(1)
    by (intro psubset_card_mono) (auto intro: finite_subset)
  ultimately show ?case by simp
qed

lemma level_reaches_all:
  assumes "finite V" and "S \<subseteq> V" and "R `` V \<subseteq> V" and "card V \<le> card S + n"
  shows "R\<^sup>* `` S \<subseteq> level R S n"
proof (cases "\<forall>j < n. level R S (Suc j) \<noteq> level R S j")
  case True
  from level_grows [OF assms(1-3) True] assms(4) have "card V \<le> card (level R S n)"
    by simp
  moreover have sub: "level R S n \<subseteq> V"
    by (rule level_within [OF assms(2,3)])
  ultimately have "level R S n = V"
    using assms(1) by (intro card_seteq) auto
  moreover have "level R S (Suc n) \<subseteq> V"
    by (rule level_within [OF assms(2,3)])
  ultimately have "level R S (Suc n) = level R S n"
    by auto
  then show ?thesis by (rule level_closed)
next
  case False
  then obtain j where j: "j < n" "level R S (Suc j) = level R S j"
    by auto
  from level_closed [OF j(2)] level_mono_le [of j n R S] j(1) show ?thesis
    by auto
qed

text \<open>One step along a directed edge between two listed nodes.\<close>

definition hop :: "dedge list \<Rightarrow> string set \<Rightarrow> (string \<times> string) set" where
  "hop E V = {(a, b). a \<in> V \<and> b \<in> V \<and> (\<exists>w i. (a, b, w, i) \<in> set E)}"

definition binv :: "dedge list \<Rightarrow> string set \<Rightarrow> string \<Rightarrow> num obj \<Rightarrow> string option obj \<Rightarrow> bool" where
  "binv E V s ds pv \<longleftrightarrow>
     (\<forall>k. map_of ds k = None \<longleftrightarrow> k \<notin> V) \<and>
     (\<forall>k. map_of pv k = None \<longleftrightarrow> k \<notin> V) \<and>
     (\<forall>k d. map_of ds k = Some d \<longrightarrow> d = PInf \<or> (\<exists>i. d = Fin i)) \<and>
     (\<exists>i. map_of ds s = Some (Fin i)) \<and>
     (map_of pv s = Some None \<longrightarrow> map_of ds s = Some (Fin 0)) \<and>
     (\<forall>v u. map_of pv v = Some (Some u) \<longrightarrow>
        (\<exists>du dv w i. (u, v, w, i) \<in> set E \<and> map_of ds u = Some (Fin du) \<and>
           map_of ds v = Some (Fin dv) \<and> du + w \<le> dv)) \<and>
     (\<forall>v i. v \<noteq> s \<and> map_of ds v = Some (Fin i) \<longrightarrow> (\<exists>u. map_of pv v = Some (Some u))) \<and>
     (\<forall>v i. map_of ds v = Some (Fin i) \<longrightarrow> (s, v) \<in> (hop E V)\<^sup>*)"

lemma binv_dom: "binv E V s ds pv \<Longrightarrow> map_of ds k = None \<longleftrightarrow> k \<notin> V"
  unfolding binv_def by blast

lemma binv_dom_pv: "binv E V s ds pv \<Longrightarrow> map_of pv k = None \<longleftrightarrow> k \<notin> V"
  unfolding binv_def by blast

lemma binv_values: "binv E V s ds pv \<Longrightarrow> map_of ds k = Some d \<Longrightarrow> d = PInf \<or> (\<exists>i. d = Fin i)"
  unfolding binv_def by blast

lemma binv_start: "binv E V s ds pv \<Longrightarrow> \<exists>i. map_of ds s = Some (Fin i)"
  unfolding binv_def by blast

lemma binv_root: "binv E V s ds pv \<Longrightarrow> map_of pv s = Some None \<Longrightarrow> map_of ds s = Some (Fin 0)"
  unfolding binv_def by blast

lemma binv_link:
  "binv E V s ds pv \<Longrightarrow> map_of pv v = Some (Some u) \<Longrightarrow>
     \<exists>du dv w i. (u, v, w, i) \<in> set E \<and> map_of ds u = Some (Fin du) \<and>
        map_of ds v = Some (Fin dv) \<and> du + w \<le> dv"
  unfolding binv_def by blast

lemma binv_reached:
  "binv E V s ds pv \<Longrightarrow> v \<noteq> s \<Longrightarrow> map_of ds v = Some (Fin i) \<Longrightarrow> \<exists>u. map_of pv v = Some (Some u)"
  unfolding binv_def by blast

lemma binv_reach: "binv E V s ds pv \<Longrightarrow> map_of ds v = Some (Fin i) \<Longrightarrow> (s, v) \<in> (hop E V)\<^sup>*"
  unfolding binv_def by blast

text \<open>What one relaxation does to the two tables.\<close>

lemma bf_relax_cases:
  obtains (same) "bf_relax (ds, pv, upd) (a, b, w, i) = (ds, pv, upd)"
      "\<not> (\<exists>d. num_get ds a = Fin d \<and> lt_num (d + w) (num_get ds b))"
  | (update) d where "num_get ds a = Fin d" "lt_num (d + w) (num_get ds b)"
      "bf_relax (ds, pv, upd) (a, b, w, i) =
         (AList.update b (Fin (d + w)) ds, AList.update b (Some a) pv, True)"
  by (cases "num_get ds a") auto

lemma bf_relax_binv:
  assumes inv: "binv E V s ds pv" and e: "(a, b, w, i) \<in> set E"
    and r: "bf_relax (ds, pv, upd) (a, b, w, i) = (ds', pv', upd')"
  shows "binv E V s ds' pv'"
proof (cases rule: bf_relax_cases [of ds pv upd a b w i])
  case same
  with r inv show ?thesis by simp
next
  case (update d)
  with r have ds': "ds' = AList.update b (Fin (d + w)) ds" and pv': "pv' = AList.update b (Some a) pv"
    by simp_all
  have mds: "map_of ds' = (map_of ds)(b \<mapsto> Fin (d + w))"
    and mpv: "map_of pv' = (map_of pv)(b \<mapsto> Some a)"
    by (simp_all add: ds' pv' update_conv')
  have da: "map_of ds a = Some (Fin d)"
    using update(1) by (cases "map_of ds a") (simp_all add: num_get_def)
  have bdom: "map_of ds b \<noteq> None"
    using update(2) by (cases "map_of ds b") (simp_all add: num_get_def)
  then obtain ob where ob: "map_of ds b = Some ob" by auto
  have lt: "lt_num (d + w) ob"
    using update(2) ob by (simp add: num_get_def)
  have aV: "a \<in> V" and bV: "b \<in> V"
    using binv_dom [OF inv, of a] binv_dom [OF inv, of b] da bdom by auto
  have le: "\<exists>j. map_of ds' k = Some (Fin j) \<and> j \<le> j0" if "map_of ds k = Some (Fin j0)" for k j0
  proof (cases "k = b")
    case True
    with that ob lt show ?thesis by (simp add: mds)
  next
    case False
    with that show ?thesis by (simp add: mds)
  qed
  have c6: "\<exists>du dv w' i'. (u, v, w', i') \<in> set E \<and> map_of ds' u = Some (Fin du) \<and>
        map_of ds' v = Some (Fin dv) \<and> du + w' \<le> dv"
    if "map_of pv' v = Some (Some u)" for v u
  proof (cases "v = b")
    case True
    with that have "u = a" by (simp add: mpv)
    from le [OF da] obtain ja where ja: "map_of ds' a = Some (Fin ja)" "ja \<le> d"
      by blast
    have "map_of ds' b = Some (Fin (d + w))" by (simp add: mds)
    with ja e True \<open>u = a\<close> show ?thesis by force
  next
    case False
    with that have "map_of pv v = Some (Some u)" by (simp add: mpv)
    from binv_link [OF inv this] obtain du dv w' i' where
      l: "(u, v, w', i') \<in> set E" "map_of ds u = Some (Fin du)" "map_of ds v = Some (Fin dv)"
         "du + w' \<le> dv"
      by blast
    from le [OF l(2)] obtain ju where ju: "map_of ds' u = Some (Fin ju)" "ju \<le> du"
      by blast
    have "map_of ds' v = Some (Fin dv)"
      using l(3) False by (simp add: mds)
    with ju l show ?thesis by force
  qed
  have c8: "(s, v) \<in> (hop E V)\<^sup>*" if "map_of ds' v = Some (Fin j)" for v j
  proof (cases "v = b")
    case True
    have "(s, a) \<in> (hop E V)\<^sup>*"
      by (rule binv_reach [OF inv da])
    moreover have "(a, b) \<in> hop E V"
      using aV bV e by (auto simp: hop_def)
    ultimately show ?thesis
      using True by auto
  next
    case False
    with that have "map_of ds v = Some (Fin j)" by (simp add: mds)
    then show ?thesis by (rule binv_reach [OF inv])
  qed
  show ?thesis
    unfolding binv_def
  proof (intro conjI allI impI)
    show "map_of ds' k = None \<longleftrightarrow> k \<notin> V" for k
      using binv_dom [OF inv, of k] bV by (simp add: mds)
    show "map_of pv' k = None \<longleftrightarrow> k \<notin> V" for k
      using binv_dom_pv [OF inv, of k] bV by (simp add: mpv)
    show "d' = PInf \<or> (\<exists>i. d' = Fin i)" if "map_of ds' k = Some d'" for k d'
      using that binv_values [OF inv, of k d'] by (auto simp: mds split: if_splits)
    show "\<exists>i. map_of ds' s = Some (Fin i)"
      using binv_start [OF inv] le by blast
    show "map_of ds' s = Some (Fin 0)" if "map_of pv' s = Some None"
      using that binv_root [OF inv] by (auto simp: mds mpv split: if_splits)
    show "\<exists>du dv w i. (u, v, w, i) \<in> set E \<and> map_of ds' u = Some (Fin du) \<and>
        map_of ds' v = Some (Fin dv) \<and> du + w \<le> dv"
      if "map_of pv' v = Some (Some u)" for v u
      using that by (rule c6)
    show "\<exists>u. map_of pv' v = Some (Some u)" if "v \<noteq> s \<and> map_of ds' v = Some (Fin j)" for v j
      using that binv_reached [OF inv, of v j] by (auto simp: mds mpv split: if_splits)
    show "(s, v) \<in> (hop E V)\<^sup>*" if "map_of ds' v = Some (Fin j)" for v j
      using that by (rule c8)
  qed
qed

definition reached :: "num obj \<Rightarrow> string set" where
  "reached ds = {v. \<exists>i. map_of ds v = Some (Fin i)}"

lemma bf_relax_reached:
  assumes "bf_relax (ds, pv, upd) (a, b, w, i) = (ds', pv', upd')"
  shows "reached ds \<subseteq> reached ds'"
proof (cases rule: bf_relax_cases [of ds pv upd a b w i])
  case same
  with assms show ?thesis by simp
next
  case (update d)
  with assms have "map_of ds' = (map_of ds)(b \<mapsto> Fin (d + w))"
    by (auto simp: update_conv')
  then show ?thesis by (auto simp: reached_def)
qed

lemma bf_relax_covers:
  assumes inv: "binv E V s ds pv" and r: "bf_relax (ds, pv, upd) (a, b, w, i) = (ds', pv', upd')"
    and a: "a \<in> reached ds" and b: "b \<in> V"
  shows "b \<in> reached ds'"
proof (cases rule: bf_relax_cases [of ds pv upd a b w i])
  case same
  from a obtain d where d: "map_of ds a = Some (Fin d)"
    by (auto simp: reached_def)
  from b binv_dom [OF inv, of b] obtain ob where ob: "map_of ds b = Some ob"
    by auto
  from same(2) d ob have "\<not> lt_num (d + w) ob"
    by (simp add: num_get_def)
  with binv_values [OF inv ob] obtain j where "ob = Fin j"
    by auto
  with ob same(1) r show ?thesis
    by (simp add: reached_def)
next
  case (update d)
  with r have "map_of ds' = (map_of ds)(b \<mapsto> Fin (d + w))"
    by (auto simp: update_conv')
  then show ?thesis by (simp add: reached_def)
qed

lemma bf_relax_flag:
  assumes "bf_relax (ds, pv, upd) (a, b, w, i) = (ds', pv', upd')"
  shows "(upd \<longrightarrow> upd') \<and> (\<not> upd' \<longrightarrow> ds' = ds \<and> pv' = pv \<and> \<not> relaxable ds (a, b, w, i))"
proof (cases rule: bf_relax_cases [of ds pv upd a b w i])
  case same
  with assms show ?thesis
    by (cases "num_get ds a") auto
next
  case (update d)
  with assms show ?thesis by simp
qed

lemma bf_pass_binv:
  assumes "set xs \<subseteq> set E"
  shows "binv E V s ds pv \<Longrightarrow> foldl bf_relax (ds, pv, upd) xs = (ds', pv', upd') \<Longrightarrow>
         binv E V s ds' pv'"
  using assms
proof (induction xs arbitrary: ds pv upd)
  case Nil
  then show ?case by simp
next
  case (Cons x xs)
  obtain a b w i where x: "x = (a, b, w, i)" by (cases x) auto
  obtain ds1 pv1 upd1 where r: "bf_relax (ds, pv, upd) (a, b, w, i) = (ds1, pv1, upd1)"
    by (cases "bf_relax (ds, pv, upd) (a, b, w, i)") auto
  have "(a, b, w, i) \<in> set E" using Cons.prems(3) x by simp
  from bf_relax_binv [OF Cons.prems(1) this r] have "binv E V s ds1 pv1" .
  moreover have "foldl bf_relax (ds1, pv1, upd1) xs = (ds', pv', upd')"
    using Cons.prems(2) r x by simp
  moreover have "set xs \<subseteq> set E" using Cons.prems(3) by simp
  ultimately show ?case by (rule Cons.IH)
qed

lemma bf_pass_reached:
  "foldl bf_relax (ds, pv, upd) xs = (ds', pv', upd') \<Longrightarrow> reached ds \<subseteq> reached ds'"
proof (induction xs arbitrary: ds pv upd)
  case Nil
  then show ?case by simp
next
  case (Cons x xs)
  obtain a b w i where x: "x = (a, b, w, i)" by (cases x) auto
  obtain ds1 pv1 upd1 where r: "bf_relax (ds, pv, upd) (a, b, w, i) = (ds1, pv1, upd1)"
    by (cases "bf_relax (ds, pv, upd) (a, b, w, i)") auto
  have "foldl bf_relax (ds1, pv1, upd1) xs = (ds', pv', upd')"
    using Cons.prems r x by simp
  from Cons.IH [OF this] bf_relax_reached [OF r] show ?case by auto
qed

lemma bf_pass_covers:
  assumes "set xs \<subseteq> set E"
  shows "binv E V s ds pv \<Longrightarrow> foldl bf_relax (ds, pv, upd) xs = (ds', pv', upd') \<Longrightarrow>
         \<forall>(a, b, w, i) \<in> set xs. a \<in> reached ds \<and> b \<in> V \<longrightarrow> b \<in> reached ds'"
  using assms
proof (induction xs arbitrary: ds pv upd)
  case Nil
  then show ?case by simp
next
  case (Cons x xs)
  obtain a b w i where x: "x = (a, b, w, i)" by (cases x) auto
  obtain ds1 pv1 upd1 where r: "bf_relax (ds, pv, upd) (a, b, w, i) = (ds1, pv1, upd1)"
    by (cases "bf_relax (ds, pv, upd) (a, b, w, i)") auto
  have eE: "(a, b, w, i) \<in> set E" and sub: "set xs \<subseteq> set E"
    using Cons.prems(3) x by simp_all
  have inv1: "binv E V s ds1 pv1"
    by (rule bf_relax_binv [OF Cons.prems(1) eE r])
  have rest: "foldl bf_relax (ds1, pv1, upd1) xs = (ds', pv', upd')"
    using Cons.prems(2) r x by simp
  have mono1: "reached ds \<subseteq> reached ds1"
    by (rule bf_relax_reached [OF r])
  have mono2: "reached ds1 \<subseteq> reached ds'"
    by (rule bf_pass_reached [OF rest])
  have head: "b \<in> reached ds'" if "a \<in> reached ds" "b \<in> V"
    using bf_relax_covers [OF Cons.prems(1) r that] mono2 by auto
  have tail: "\<forall>(a, b, w, i) \<in> set xs. a \<in> reached ds1 \<and> b \<in> V \<longrightarrow> b \<in> reached ds'"
    by (rule Cons.IH [OF inv1 rest sub])
  show ?case
    unfolding x using head tail mono1 by auto
qed

lemma bf_pass_flag:
  "foldl bf_relax (ds, pv, upd) xs = (ds', pv', upd') \<Longrightarrow>
     (upd \<longrightarrow> upd') \<and> (\<not> upd' \<longrightarrow> ds' = ds \<and> pv' = pv \<and> (\<forall>e \<in> set xs. \<not> relaxable ds e))"
proof (induction xs arbitrary: ds pv upd)
  case Nil
  then show ?case by simp
next
  case (Cons x xs)
  obtain a b w i where x: "x = (a, b, w, i)" by (cases x) auto
  obtain ds1 pv1 upd1 where r: "bf_relax (ds, pv, upd) (a, b, w, i) = (ds1, pv1, upd1)"
    by (cases "bf_relax (ds, pv, upd) (a, b, w, i)") auto
  have rest: "foldl bf_relax (ds1, pv1, upd1) xs = (ds', pv', upd')"
    using Cons.prems r x by simp
  from Cons.IH [OF rest] bf_relax_flag [OF r] show ?case
    unfolding x by auto
qed

lemma hop_within: "hop E V `` X \<subseteq> V"
  by (auto simp: hop_def)

lemma bf_passes_result:
  assumes "binv E V s ds pv" and "level (hop E V) {s} j \<subseteq> reached ds"
    and "bf_passes k E (ds, pv) = (ds', pv')"
  shows "binv E V s ds' pv' \<and>
         ((hop E V)\<^sup>* `` {s} \<subseteq> reached ds' \<or> level (hop E V) {s} (j + k) \<subseteq> reached ds')"
  using assms
proof (induction k arbitrary: ds pv j)
  case 0
  then show ?case by simp
next
  case (Suc k)
  obtain ds1 pv1 upd1 where pass: "foldl bf_relax (ds, pv, False) E = (ds1, pv1, upd1)"
    by (cases "foldl bf_relax (ds, pv, False) E") auto
  have inv1: "binv E V s ds1 pv1"
    by (rule bf_pass_binv [OF subset_refl Suc.prems(1) pass])
  have mono: "reached ds \<subseteq> reached ds1"
    by (rule bf_pass_reached [OF pass])
  have cov: "\<forall>(a, b, w, i) \<in> set E. a \<in> reached ds \<and> b \<in> V \<longrightarrow> b \<in> reached ds1"
    by (rule bf_pass_covers [OF subset_refl Suc.prems(1) pass])
  have step: "hop E V `` X \<subseteq> reached ds1" if "X \<subseteq> reached ds" for X
    using cov that by (fastforce simp: hop_def)
  show ?case
  proof (cases upd1)
    case True
    then have run: "bf_passes k E (ds1, pv1) = (ds', pv')"
      using Suc.prems(3) pass by simp
    have "level (hop E V) {s} (Suc j) \<subseteq> reached ds1"
      using step [OF Suc.prems(2)] Suc.prems(2) mono by auto
    from Suc.IH [OF inv1 this run] show ?thesis by simp
  next
    case False
    then have res: "ds' = ds1" "pv' = pv1"
      using Suc.prems(3) pass by simp_all
    from bf_pass_flag [OF pass] False have same: "ds1 = ds"
      by simp
    have "hop E V `` reached ds1 \<subseteq> reached ds1"
      using step [of "reached ds"] same by simp
    then have "(hop E V)\<^sup>* `` reached ds1 = reached ds1"
      by (rule Image_closed_trancl)
    moreover have "{s} \<subseteq> reached ds1"
      using binv_start [OF inv1] by (auto simp: reached_def)
    ultimately have "(hop E V)\<^sup>* `` {s} \<subseteq> reached ds1"
      by (metis Image_mono subset_refl)
    with inv1 res show ?thesis by simp
  qed
qed

lemma bf_passes_complete:
  assumes inv: "binv E V s ds pv" and fin: "finite V" and card: "card V \<le> Suc k" and s: "s \<in> V"
    and run: "bf_passes k E (ds, pv) = (ds', pv')"
  shows "binv E V s ds' pv' \<and> reached ds' = (hop E V)\<^sup>* `` {s}"
proof -
  have "level (hop E V) {s} 0 \<subseteq> reached ds"
    using binv_start [OF inv] by (auto simp: reached_def)
  from bf_passes_result [OF inv this run]
  have inv': "binv E V s ds' pv'"
    and alt: "(hop E V)\<^sup>* `` {s} \<subseteq> reached ds' \<or> level (hop E V) {s} k \<subseteq> reached ds'"
    by simp_all
  have "(hop E V)\<^sup>* `` {s} \<subseteq> level (hop E V) {s} k"
    using fin s card by (intro level_reaches_all [where V = V] hop_within) auto
  with alt have "(hop E V)\<^sup>* `` {s} \<subseteq> reached ds'"
    by auto
  moreover have "reached ds' \<subseteq> (hop E V)\<^sup>* `` {s}"
    using binv_reach [OF inv'] by (auto simp: reached_def)
  ultimately show ?thesis
    using inv' by auto
qed

lemma init_binv:
  assumes tabs: "init_tables nodes = (ds0, pv0)" and s: "s \<in> node_ids nodes"
  shows "binv E (node_ids nodes) s (AList.update s (Fin 0) ds0) pv0"
proof -
  have ds: "map_of (AList.update s (Fin 0) ds0) k =
      (if k = s then Some (Fin 0) else if k \<in> node_ids nodes then Some PInf else None)"
    and pv: "map_of pv0 k = (if k \<in> node_ids nodes then Some None else None)" for k
    using init_tables_maps [OF tabs, of k] by (simp_all add: update_conv')
  show ?thesis
    unfolding binv_def using s by (auto simp: ds pv)
qed

lemma foldl_collect:
  "foldl (\<lambda>S e. if P e then insert (f e) S else S) S0 xs = S0 \<union> f ` {e \<in> set xs. P e}"
  by (induction xs arbitrary: S0) auto

lemma still_relaxable_eq:
  "still_relaxable ds E = {b. \<exists>a w i. (a, b, w, i) \<in> set E \<and> relaxable ds (a, b, w, i)}"
proof -
  have "(\<lambda>e. fst (snd e)) ` {e \<in> set E. relaxable ds e}
      = {b. \<exists>a w i. (a, b, w, i) \<in> set E \<and> relaxable ds (a, b, w, i)}" (is "?L = ?R")
  proof (rule set_eqI)
    fix x
    show "x \<in> ?L \<longleftrightarrow> x \<in> ?R"
    proof
      assume "x \<in> ?L"
      then obtain e where e: "e \<in> set E" "relaxable ds e" "x = fst (snd e)"
        by auto
      obtain a b w i where "e = (a, b, w, i)" by (cases e) auto
      with e show "x \<in> ?R" by auto
    next
      assume "x \<in> ?R"
      then obtain a w i where "(a, x, w, i) \<in> set E" "relaxable ds (a, x, w, i)"
        by auto
      then have "(a, x, w, i) \<in> {e \<in> set E. relaxable ds e}" by simp
      then show "x \<in> ?L" by (rule rev_image_eqI) simp
    qed
  qed
  then show ?thesis
    unfolding still_relaxable_def foldl_collect by simp
qed

lemma spread_pass_covers:
  "S \<subseteq> spread_pass E S \<and> (\<forall>e \<in> set E. fst e \<in> S \<longrightarrow> fst (snd e) \<in> spread_pass E S)"
proof (induction E arbitrary: S)
  case Nil
  then show ?case by (simp add: spread_pass_def)
next
  case (Cons x xs)
  let ?S = "if fst x \<in> S then insert (fst (snd x)) S else S"
  have unfold: "spread_pass (x # xs) S = spread_pass xs ?S"
    by (simp add: spread_pass_def)
  have sub: "S \<subseteq> ?S" by auto
  from Cons.IH [of ?S] have a: "?S \<subseteq> spread_pass xs ?S"
    and b: "\<And>e. e \<in> set xs \<Longrightarrow> fst e \<in> ?S \<Longrightarrow> fst (snd e) \<in> spread_pass xs ?S"
    by blast+
  have "S \<subseteq> spread_pass xs ?S"
    using sub a by (rule subset_trans)
  moreover have "fst (snd e) \<in> spread_pass xs ?S" if "e \<in> set (x # xs)" "fst e \<in> S" for e
  proof (cases "e = x")
    case True
    with that(2) have "fst (snd e) \<in> ?S" by simp
    then show ?thesis using a by (rule rev_subsetD)
  next
    case False
    with that(1) have "e \<in> set xs" by simp
    moreover have "fst e \<in> ?S" using that(2) sub by (rule rev_subsetD)
    ultimately show ?thesis by (rule b)
  qed
  ultimately show ?case
    unfolding unfold by blast
qed

lemma spread_Suc: "spread (Suc n) E S = spread_pass E (spread n E S)"
  by (induction n arbitrary: S) simp_all

lemma spread_mono: "spread n E S \<subseteq> spread (n + k) E S"
proof (induction k)
  case 0
  then show ?case by simp
next
  case (Suc k)
  have "spread (n + k) E S \<subseteq> spread_pass E (spread (n + k) E S)"
    using spread_pass_covers by blast
  with Suc show ?case
    unfolding add_Suc_right spread_Suc by blast
qed

lemma level_spread:
  assumes "S \<subseteq> T"
  shows "level (hop E V) S k \<subseteq> spread k E T"
proof (induction k)
  case 0
  then show ?case using assms by simp
next
  case (Suc k)
  let ?T = "spread k E T"
  have a: "?T \<subseteq> spread_pass E ?T"
    and b: "\<forall>e \<in> set E. fst e \<in> ?T \<longrightarrow> fst (snd e) \<in> spread_pass E ?T"
    using spread_pass_covers [of ?T E] by simp_all
  have "hop E V `` level (hop E V) S k \<subseteq> spread_pass E ?T"
  proof
    fix y assume "y \<in> hop E V `` level (hop E V) S k"
    then obtain x w i where "x \<in> level (hop E V) S k" "(x, y, w, i) \<in> set E"
      by (auto simp: hop_def)
    with Suc b show "y \<in> spread_pass E ?T" by fastforce
  qed
  with Suc a show ?case
    unfolding level.simps spread_Suc by blast
qed

lemma set_bidirectional:
  "(a, b, w, i) \<in> set (bidirectional es) \<longleftrightarrow>
     (\<exists>e \<in> set es. joins a b e \<and> w = e_weight e \<and> i = e_id e)"
  by (auto simp: bidirectional_def joins_def)

lemma bidirectional_sym:
  "(a, b, w, i) \<in> set (bidirectional es) \<Longrightarrow> (b, a, w, i) \<in> set (bidirectional es)"
  by (auto simp: set_bidirectional joins_def)

lemma sym_hop: "sym (hop (bidirectional es) V)"
  by (auto intro!: symI simp: hop_def dest: bidirectional_sym)

lemma relaxable_reached:
  assumes "binv E V s ds pv" and "relaxable ds (a, b, w, i)"
  shows "a \<in> reached ds \<and> a \<in> V \<and> b \<in> V"
proof -
  from assms(2) obtain d where d: "num_get ds a = Fin d" "lt_num (d + w) (num_get ds b)"
    by (cases "num_get ds a") auto
  have a: "map_of ds a = Some (Fin d)"
    using d(1) by (cases "map_of ds a") (simp_all add: num_get_def)
  have b: "map_of ds b \<noteq> None"
    using d(2) by (cases "map_of ds b") (simp_all add: num_get_def)
  show ?thesis
    using a b binv_dom [OF assms(1), of a] binv_dom [OF assms(1), of b]
    by (auto simp: reached_def)
qed

text \<open>
  In an undirected graph, a node that can still be relaxed taints every node the origin
  reaches: the propagation runs long enough for that.
\<close>

lemma taint_reaches:
  assumes inv: "binv (bidirectional es) V s ds pv"
    and fin: "finite V" and card: "card V \<le> Suc k"
    and cyc: "still_relaxable ds (bidirectional es) \<noteq> {}"
    and t: "t \<in> reached ds"
  shows "t \<in> spread (Suc k) (bidirectional es) (still_relaxable ds (bidirectional es))"
proof -
  let ?E = "bidirectional es"
  let ?R = "hop ?E V"
  from cyc obtain a b w i where e: "(a, b, w, i) \<in> set ?E" "relaxable ds (a, b, w, i)"
    by (auto simp: still_relaxable_eq)
  then have b0: "b \<in> still_relaxable ds ?E"
    by (auto simp: still_relaxable_eq)
  from relaxable_reached [OF inv e(2)] have a: "a \<in> reached ds" "a \<in> V" and b: "b \<in> V"
    by simp_all
  have "(b, a) \<in> ?R"
    using a(2) b bidirectional_sym [OF e(1)] by (auto simp: hop_def)
  moreover have "(s, a) \<in> ?R\<^sup>*"
    using a(1) binv_reach [OF inv] by (auto simp: reached_def)
  then have "(a, s) \<in> ?R\<^sup>*"
    using sym_rtrancl [OF sym_hop, of es V] by (meson symD)
  moreover have "(s, t) \<in> ?R\<^sup>*"
    using t binv_reach [OF inv] by (auto simp: reached_def)
  ultimately have "(b, t) \<in> ?R\<^sup>*"
    by (meson converse_rtrancl_into_rtrancl rtrancl_trans)
  then have "t \<in> ?R\<^sup>* `` {b}" by auto
  moreover have "?R\<^sup>* `` {b} \<subseteq> level ?R {b} k"
    using fin b card by (intro level_reaches_all [where V = V] hop_within) auto
  moreover have "level ?R {b} k \<subseteq> spread k ?E (still_relaxable ds ?E)"
    using b0 by (intro level_spread) simp
  moreover have "spread k ?E (still_relaxable ds ?E) \<subseteq> spread (Suc k) ?E (still_relaxable ds ?E)"
    using spread_mono [of k ?E _ 1] by simp
  ultimately show ?thesis by blast
qed

text \<open>An unblocked edge of negative weight at a reached node can always be relaxed again.\<close>

lemma negative_edge_relaxable:
  assumes inv: "binv (bidirectional es) V s ds pv"
    and full: "reached ds = (hop (bidirectional es) V)\<^sup>* `` {s}"
    and e: "e \<in> set es" "e_weight e < 0" "e_to e \<in> V"
    and r: "(s, e_from e) \<in> (hop (bidirectional es) V)\<^sup>*"
  shows "still_relaxable ds (bidirectional es) \<noteq> {}"
proof -
  let ?E = "bidirectional es"
  let ?a = "e_from e" and ?b = "e_to e" and ?w = "e_weight e"
  have ab: "(?a, ?b, ?w, e_id e) \<in> set ?E" and ba: "(?b, ?a, ?w, e_id e) \<in> set ?E"
    using e(1) by (auto simp: set_bidirectional joins_def)
  have a: "?a \<in> reached ds"
    using r full by auto
  then have aV: "?a \<in> V"
    using binv_dom [OF inv, of ?a] by (auto simp: reached_def)
  have "(?a, ?b) \<in> hop ?E V"
    using aV e(3) ab by (auto simp: hop_def)
  with r have "(s, ?b) \<in> (hop ?E V)\<^sup>*" by auto
  then have b: "?b \<in> reached ds"
    using full by auto
  from a b obtain da db where d: "map_of ds ?a = Some (Fin da)" "map_of ds ?b = Some (Fin db)"
    by (auto simp: reached_def)
  have "relaxable ds (?a, ?b, ?w, e_id e) \<or> relaxable ds (?b, ?a, ?w, e_id e)"
    using d e(2) by (auto simp: num_get_def)
  with ab ba show ?thesis
    by (auto simp: still_relaxable_eq)
qed

lemma spread_extensive: "S \<subseteq> spread n E S"
  using spread_mono [of 0 E S n] by simp

lemma bf_report_tainted:
  assumes inv: "binv (bidirectional es) V s ds pv"
    and fin: "finite V" and card: "card V \<le> Suc k" and t: "t \<in> V"
    and cyc: "still_relaxable ds (bidirectional es) \<noteq> {}"
  shows "\<not> found (bf_report s t m ds pv (negative_cycle_nodes (Suc k) (bidirectional es) ds)) \<and>
         hasNegativeCycle (bf_report s t m ds pv (negative_cycle_nodes (Suc k) (bidirectional es) ds))"
proof -
  let ?E = "bidirectional es"
  let ?cyc = "negative_cycle_nodes (Suc k) ?E ds"
  have c: "?cyc = spread (Suc k) ?E (still_relaxable ds ?E)"
    using cyc by (simp add: negative_cycle_nodes_def)
  have ne: "?cyc \<noteq> {}"
    using cyc spread_extensive [of "still_relaxable ds ?E" "Suc k" ?E] unfolding c by auto
  show ?thesis
  proof (cases "t \<in> ?cyc")
    case True
    then show ?thesis by (simp add: bf_report_def)
  next
    case False
    have "num_get ds t = PInf"
    proof (rule ccontr)
      assume n: "num_get ds t \<noteq> PInf"
      from t binv_dom [OF inv, of t] obtain d where d: "map_of ds t = Some d" by auto
      with binv_values [OF inv d] n have "t \<in> reached ds"
        by (auto simp: num_get_def reached_def)
      from taint_reaches [OF inv fin card cyc this] False c show False by simp
    qed
    with False ne show ?thesis
      by (simp add: bf_report_def bf_fail_def)
  qed
qed

text \<open>Two listed nodes joined by an unblocked edge.\<close>

definition linked :: "node list \<Rightarrow> edge list \<Rightarrow> (string \<times> string) set" where
  "linked nodes es =
     {(a, b). a \<in> node_ids nodes \<and> b \<in> node_ids nodes \<and> adjacent es a b}"

lemma hop_linked: "hop (bidirectional (active es)) (node_ids nodes) = linked nodes es"
  by (auto simp: hop_def linked_def adjacent_def set_bidirectional active_def)

lemma bf_tables_result:
  assumes s: "s \<in> node_ids nodes"
  shows "\<exists>ds pv. bf_tables nodes s E = (ds, pv) \<and> binv E (node_ids nodes) s ds pv \<and>
           reached ds = (hop E (node_ids nodes))\<^sup>* `` {s}"
proof -
  obtain ds0 pv0 where tabs: "init_tables nodes = (ds0, pv0)"
    by (cases "init_tables nodes")
  obtain ds pv where run:
    "bf_passes (length nodes - 1) E (AList.update s (Fin 0) ds0, pv0) = (ds, pv)"
    by (cases "bf_passes (length nodes - 1) E (AList.update s (Fin 0) ds0, pv0)")
  have "nodes \<noteq> []"
    using s by (auto simp: node_ids_def)
  then have len: "Suc (length nodes - 1) = length nodes"
    by (cases nodes) simp_all
  have "card (node_ids nodes) \<le> length nodes"
    unfolding node_ids_def by (metis card_image_le card_length le_trans List.finite_set)
  then have card: "card (node_ids nodes) \<le> Suc (length nodes - 1)"
    using len by simp
  have fin: "finite (node_ids nodes)"
    by (simp add: node_ids_def)
  from bf_passes_complete [OF init_binv [OF tabs s] fin card s run]
  show ?thesis
    using tabs run by (simp add: bf_tables_def)
qed

lemma still_relaxable_Nil: "still_relaxable ds [] = {}"
  by (simp add: still_relaxable_def)

lemma bellmanFord_tainted:
  assumes q: "s \<noteq> []" "t \<noteq> []" "s \<noteq> t" "s \<in> node_ids nodes" "t \<in> node_ids nodes"
    and cyc: "still_relaxable (fst (bf_tables nodes s (bidirectional (active es))))
                (bidirectional (active es)) \<noteq> {}"
  shows "\<not> found (bellmanFord nodes es s t) \<and> hasNegativeCycle (bellmanFord nodes es s t)"
proof -
  let ?E = "bidirectional (active es)"
  from bf_tables_result [OF q(4), of ?E] obtain ds pv where
    tabs: "bf_tables nodes s ?E = (ds, pv)" and inv: "binv ?E (node_ids nodes) s ds pv"
    by blast
  have ne: "?E \<noteq> []"
    using cyc still_relaxable_Nil by auto
  have "nodes \<noteq> []"
    using q(4) by (auto simp: node_ids_def)
  then have len: "length nodes = Suc (length nodes - 1)"
    by (cases nodes) simp_all
  have "card (node_ids nodes) \<le> length nodes"
    unfolding node_ids_def by (metis card_image_le card_length le_trans List.finite_set)
  then have card: "card (node_ids nodes) \<le> Suc (length nodes - 1)"
    using len by simp
  have fin: "finite (node_ids nodes)"
    by (simp add: node_ids_def)
  have cyc': "still_relaxable ds ?E \<noteq> {}"
    using cyc tabs by simp
  have run: "bellmanFord nodes es s t =
      bf_report s t (edge_map (active es)) ds pv (negative_cycle_nodes (Suc (length nodes - 1)) ?E ds)"
    using q \<open>nodes \<noteq> []\<close> ne tabs len
    by (simp add: bellmanFord_def bf_search_def node_ids_def active_def)
  show ?thesis
    unfolding run
    using bf_report_tainted [OF inv fin card q(5) cyc'] by simp
qed

lemma bellmanFord_negative_edge:
  assumes q: "s \<noteq> []" "t \<noteq> []" "s \<noteq> t" "s \<in> node_ids nodes" "t \<in> node_ids nodes"
    and e: "e \<in> set es" "\<not> e_blocked e" "e_weight e < 0" "e_to e \<in> node_ids nodes"
    and r: "(s, e_from e) \<in> (linked nodes es)\<^sup>*"
  shows "\<not> found (bellmanFord nodes es s t) \<and> hasNegativeCycle (bellmanFord nodes es s t)"
proof -
  let ?E = "bidirectional (active es)"
  from bf_tables_result [OF q(4), of ?E] obtain ds pv where
    tabs: "bf_tables nodes s ?E = (ds, pv)" and inv: "binv ?E (node_ids nodes) s ds pv"
    and full: "reached ds = (hop ?E (node_ids nodes))\<^sup>* `` {s}"
    by blast
  have "e \<in> set (active es)"
    using e(1,2) by (simp add: active_def)
  from negative_edge_relaxable [OF inv full this e(3,4)] r
  have "still_relaxable ds ?E \<noteq> {}"
    by (simp add: hop_linked)
  then show ?thesis
    using bellmanFord_tainted [OF q] tabs by simp
qed

section \<open>Negative cycles reported by bellmanFord\<close>

definition toll_nodes :: "node list" where
  "toll_nodes = map mk_node [''A'', ''B'', ''C'']"

definition toll_edges :: "edge list" where
  "toll_edges = [road ''e1'' ''A'' ''B'' 2, road ''e2'' ''B'' ''C'' (- 1)]"

text \<open>The road A-B-C whose second edge is a toll edge of weight -1, from A to C.\<close>

lemma toll_linked: "(''A'', ''B'') \<in> (linked toll_nodes toll_edges)\<^sup>*"
proof -
  have "(''A'', ''B'') \<in> linked toll_nodes toll_edges"
    by (simp add: linked_def node_ids_def toll_nodes_def toll_edges_def adjacent_def joins_def
        mk_node_def road_def)
  then show ?thesis by (rule r_into_rtrancl)
qed

lemma toll_run:
  "bellmanFord toll_nodes toll_edges ''A'' ''C'' =
     \<lparr>path = [], totalCost = NInf, steps = [], found = False, hasNegativeCycle = True,
      error = Some ''Destination is affected by a negative weight cycle''\<rparr>"
  by code_simp

text \<open>Nodes tainted by a negative cycle, as the claim words it.\<close>

definition tainted :: "node list \<Rightarrow> edge list \<Rightarrow> string \<Rightarrow> string set" where
  "tainted nodes es s =
     {(a, b). \<exists>w i. (a, b, w, i) \<in> set (bidirectional (active es))}\<^sup>* ``
       still_relaxable (fst (bf_tables nodes s (bidirectional (active es))))
         (bidirectional (active es))"

definition negative_triangle :: "edge list \<Rightarrow> string \<Rightarrow> string \<Rightarrow> string \<Rightarrow> bool" where
  "negative_triangle es a b c \<longleftrightarrow>
     (\<exists>e1 \<in> set (active es). \<exists>e2 \<in> set (active es). \<exists>e3 \<in> set (active es).
        joins a b e1 \<and> joins b c e2 \<and> joins c a e3 \<and>
        e_weight e1 + e_weight e2 + e_weight e3 < 0)"

lemma tainted_base:
  "t \<in> still_relaxable (fst (bf_tables nodes s (bidirectional (active es))))
         (bidirectional (active es)) \<Longrightarrow> t \<in> tainted nodes es s"
  by (auto simp: tainted_def)

lemma tainted_relaxable:
  "t \<in> tainted nodes es s \<Longrightarrow>
   still_relaxable (fst (bf_tables nodes s (bidirectional (active es))))
         (bidirectional (active es)) \<noteq> {}"
  by (auto simp: tainted_def)

lemma joins_sym: "joins a b e \<Longrightarrow> joins b a e"
  by (auto simp: joins_def)

lemma joined_linked:
  assumes "e \<in> set (active es)" and "joins a b e"
    and "a \<in> node_ids nodes" and "b \<in> node_ids nodes"
  shows "(a, b) \<in> linked nodes es"
  using assms by (auto simp: linked_def adjacent_def active_def)

lemma negative_joining_edge:
  assumes q: "s \<noteq> []" "t \<noteq> []" "s \<noteq> t" "s \<in> node_ids nodes" "t \<in> node_ids nodes"
    and e: "e \<in> set (active es)" "joins a b e" "e_weight e < 0"
    and ab: "a \<in> node_ids nodes" "b \<in> node_ids nodes"
    and r: "(s, a) \<in> (linked nodes es)\<^sup>*"
  shows "\<not> found (bellmanFord nodes es s t) \<and> hasNegativeCycle (bellmanFord nodes es s t)"
proof -
  have e': "e \<in> set es" "\<not> e_blocked e"
    using e(1) by (simp_all add: active_def)
  have rb: "(s, b) \<in> (linked nodes es)\<^sup>*"
    using r joined_linked [OF e(1,2) ab] by auto
  from e(2) consider "e_from e = a" "e_to e = b" | "e_from e = b" "e_to e = a"
    by (auto simp: joins_def)
  then show ?thesis
  proof cases
    case 1
    then show ?thesis
      using bellmanFord_negative_edge [OF q e' e(3)] ab r by simp
  next
    case 2
    then show ?thesis
      using bellmanFord_negative_edge [OF q e' e(3)] ab rb by simp
  qed
qed

text \<open>
  A tainted destination is rejected, and so is every destination when a triangle of
  negative total weight is within reach of the origin.
\<close>

lemma tainted_or_triangle_rejected:
  assumes "s \<noteq> []" and "t \<noteq> []" and "s \<noteq> t"
    and "s \<in> node_ids nodes" and "t \<in> node_ids nodes"
    and "t \<in> tainted nodes es s \<or>
         (negative_triangle es a b c \<and> {a, b, c} \<subseteq> node_ids nodes \<and>
          (s, a) \<in> (linked nodes es)\<^sup>*)"
  shows "\<not> found (bellmanFord nodes es s t) \<and> hasNegativeCycle (bellmanFord nodes es s t)"
proof -
  note q = assms(1-5)
  from assms(6) show ?thesis
  proof
    assume "t \<in> tainted nodes es s"
    from bellmanFord_tainted [OF q tainted_relaxable [OF this]] show ?thesis .
  next
    assume tri: "negative_triangle es a b c \<and> {a, b, c} \<subseteq> node_ids nodes \<and>
          (s, a) \<in> (linked nodes es)\<^sup>*"
    then obtain e1 e2 e3 where
      es: "e1 \<in> set (active es)" "e2 \<in> set (active es)" "e3 \<in> set (active es)"
      and j: "joins a b e1" "joins b c e2" "joins c a e3"
      and w: "e_weight e1 + e_weight e2 + e_weight e3 < 0"
      unfolding negative_triangle_def by blast
    from tri have ids: "a \<in> node_ids nodes" "b \<in> node_ids nodes" "c \<in> node_ids nodes"
      and ra: "(s, a) \<in> (linked nodes es)\<^sup>*"
      by simp_all
    have rb: "(s, b) \<in> (linked nodes es)\<^sup>*"
      using ra joined_linked [OF es(1) j(1) ids(1,2)] by auto
    have rc: "(s, c) \<in> (linked nodes es)\<^sup>*"
      using rb joined_linked [OF es(2) j(2) ids(2,3)] by auto
    from w consider "e_weight e1 < 0" | "e_weight e2 < 0" | "e_weight e3 < 0"
      by linarith
    then show ?thesis
    proof cases
      case 1
      from negative_joining_edge [OF q es(1) j(1) 1 ids(1,2) ra] show ?thesis .
    next
      case 2
      from negative_joining_edge [OF q es(2) j(2) 2 ids(2,3) rb] show ?thesis .
    next
      case 3
      from negative_joining_edge [OF q es(3) j(3) 3 ids(3,1) rc] show ?thesis .
    qed
  qed
qed

text \<open>
  The triangle A-B-C of total weight -1 and a fourth node S, joined to it by the edge
  S-A in \<open>spur_edges\<close> and isolated in \<open>ring_edges\<close>.
\<close>

definition ring_nodes :: "node list" where
  "ring_nodes = map mk_node [''S'', ''A'', ''B'', ''C'']"

definition ring_edges :: "edge list" where
  "ring_edges = [road ''e1'' ''A'' ''B'' 1, road ''e2'' ''B'' ''C'' 1, road ''e3'' ''C'' ''A'' (- 3)]"

definition spur_edges :: "edge list" where
  "spur_edges = road ''e0'' ''S'' ''A'' 4 # ring_edges"

lemma spur_tainted: "''B'' \<in> tainted ring_nodes spur_edges ''S''"
proof -
  have "''B'' \<in> still_relaxable (fst (bf_tables ring_nodes ''S'' (bidirectional (active spur_edges))))
         (bidirectional (active spur_edges))"
    by code_simp
  then show ?thesis by (rule tainted_base)
qed

lemma spur_triangle: "negative_triangle spur_edges ''A'' ''B'' ''C''"
  by code_simp

lemma spur_linked: "(''S'', ''A'') \<in> (linked ring_nodes spur_edges)\<^sup>*"
proof -
  have "(''S'', ''A'') \<in> linked ring_nodes spur_edges"
    by (simp add: linked_def node_ids_def ring_nodes_def spur_edges_def ring_edges_def
        adjacent_def joins_def mk_node_def road_def)
  then show ?thesis by (rule r_into_rtrancl)
qed

section \<open>Routes returned with found = true\<close>

lemma bf_walk_back_traced:
  "bf_walk_back pv vis v acc = Some q \<Longrightarrow> \<exists>p r. q = p @ acc \<and> traced pv r v p"
proof (induction pv vis v acc rule: bf_walk_back.induct)
  case (1 pv vis current p)
  from "1.prems" have nv: "current \<notin> set vis"
    by (subst (asm) bf_walk_back.simps) (simp split: if_splits)
  show ?case
  proof (cases "map_of pv current")
    case None
    with "1.prems" nv show ?thesis
      by (subst (asm) bf_walk_back.simps) simp
  next
    case (Some x)
    show ?thesis
    proof (cases x)
      case None
      with Some "1.prems" nv have "q = [current] @ p"
        by (subst (asm) bf_walk_back.simps) simp
      moreover have "traced pv current current [current]"
        using Some None by (simp add: traced.root)
      ultimately show ?thesis by blast
    next
      case (Some u)
      with \<open>map_of pv current = Some x\<close> "1.prems" nv
      have run: "bf_walk_back pv (current # vis) u (current # p) = Some q"
        by (subst (asm) bf_walk_back.simps) simp
      from "1.IH" [OF nv \<open>map_of pv current = Some x\<close> Some run]
      obtain p' r where p': "q = p' @ current # p" "traced pv r u p'"
        by blast
      have "traced pv r current (p' @ [current])"
        using \<open>map_of pv current = Some x\<close> Some p'(2) by (simp add: traced.link)
      moreover have "q = (p' @ [current]) @ p"
        using p'(1) by simp
      ultimately show ?thesis by blast
    qed
  qed
qed

lemma map_steps_snoc:
  "p \<noteq> [] \<Longrightarrow>
   map_steps m (p @ [v]) = map_steps m p @
     (case map_of m (edge_key (last p) v) of None \<Rightarrow> [] | Some e \<Rightarrow> [step_of (last p) v e])"
proof (induction m p rule: map_steps.induct)
  case (1 m a b p)
  then show ?case by (simp split: option.splits)
qed (simp_all split: option.splits)

text \<open>The two keys under which \<open>edgeMap\<close> stores an edge.\<close>

definition edge_keys :: "edge \<Rightarrow> string set" where
  "edge_keys e = {edge_key (e_from e) (e_to e), edge_key (e_to e) (e_from e)}"

text \<open>No two unblocked edges are stored under a common key.\<close>

definition unique_keys :: "edge list \<Rightarrow> bool" where
  "unique_keys es \<longleftrightarrow>
     (\<forall>e \<in> set (active es). \<forall>e' \<in> set (active es).
        edge_keys e \<inter> edge_keys e' \<noteq> {} \<longrightarrow> e = e')"

lemma edge_map_fold:
  "map_of (foldl (\<lambda>m e. AList.update (edge_key (e_to e) (e_from e)) e
                    (AList.update (edge_key (e_from e) (e_to e)) e m)) m0 es) k = Some e' \<Longrightarrow>
   (e' \<in> set es \<and> k \<in> edge_keys e') \<or> map_of m0 k = Some e'"
proof (induction es arbitrary: m0)
  case Nil
  then show ?case by simp
next
  case (Cons e es)
  from Cons.IH [OF Cons.prems [unfolded foldl_Cons]]
  show ?case
    by (auto simp: update_conv' edge_keys_def split: if_splits)
qed

lemma edge_map_fold_defined:
  "(\<exists>e \<in> set es. k \<in> edge_keys e) \<or> map_of m0 k \<noteq> None \<Longrightarrow>
   map_of (foldl (\<lambda>m e. AList.update (edge_key (e_to e) (e_from e)) e
                    (AList.update (edge_key (e_from e) (e_to e)) e m)) m0 es) k \<noteq> None"
proof (induction es arbitrary: m0)
  case Nil
  then show ?case by simp
next
  case (Cons e es)
  have "(\<exists>e \<in> set es. k \<in> edge_keys e) \<or>
        map_of (AList.update (edge_key (e_to e) (e_from e)) e
                    (AList.update (edge_key (e_from e) (e_to e)) e m0)) k \<noteq> None"
    using Cons.prems by (auto simp: update_conv' edge_keys_def)
  from Cons.IH [OF this] show ?case by simp
qed

lemma edge_map_lookup:
  "map_of (edge_map es) k = Some e' \<Longrightarrow> e' \<in> set es \<and> k \<in> edge_keys e'"
  using edge_map_fold [of "[]" es k e'] by (simp add: edge_map_def)

lemma edge_map_defined:
  "e \<in> set es \<Longrightarrow> k \<in> edge_keys e \<Longrightarrow> \<exists>e'. map_of (edge_map es) k = Some e'"
  using edge_map_fold_defined [of es k "[]"] by (auto simp: edge_map_def)

lemma joins_edge_key: "joins a b e \<Longrightarrow> edge_key a b \<in> edge_keys e"
  by (auto simp: joins_def edge_keys_def)

lemma unique_lookup:
  assumes "unique_keys es" and "e \<in> set (active es)" and "joins a b e"
  shows "map_of (edge_map (active es)) (edge_key a b) = Some e"
proof -
  from edge_map_defined [OF assms(2) joins_edge_key [OF assms(3)]]
  obtain e' where e': "map_of (edge_map (active es)) (edge_key a b) = Some e'"
    by blast
  from edge_map_lookup [OF this] have "e' \<in> set (active es)" "edge_key a b \<in> edge_keys e'"
    by simp_all
  with assms joins_edge_key [OF assms(3)] have "e = e'"
    unfolding unique_keys_def by blast
  with e' show ?thesis by simp
qed


lemma bellmanFord_found:
  assumes "found (bellmanFord nodes es s t)" and "s \<noteq> t"
  shows "s \<in> node_ids nodes \<and> t \<in> node_ids nodes \<and>
         (\<exists>ds pv p. binv (bidirectional (active es)) (node_ids nodes) s ds pv \<and>
            reached ds = (linked nodes es)\<^sup>* `` {s} \<and>
            still_relaxable ds (bidirectional (active es)) = {} \<and>
            traced pv s t p \<and>
            bellmanFord nodes es s t =
              \<lparr>path = p, totalCost = num_get ds t, steps = map_steps (edge_map (active es)) p,
               found = True, hasNegativeCycle = False, error = None\<rparr>)"
proof -
  let ?E = "bidirectional (active es)"
  from assms have q: "nodes \<noteq> []" "s \<noteq> []" "t \<noteq> []" "s \<in> node_ids nodes" "t \<in> node_ids nodes"
    by (auto simp: bellmanFord_def bf_fail_def node_ids_def split: if_splits)
  from bf_tables_result [OF q(4), of ?E] obtain ds pv where
    tabs: "bf_tables nodes s ?E = (ds, pv)" and inv: "binv ?E (node_ids nodes) s ds pv"
    and full: "reached ds = (linked nodes es)\<^sup>* `` {s}"
    by (auto simp: hop_linked)
  have tight: "still_relaxable ds ?E = {}"
  proof (rule ccontr)
    assume "still_relaxable ds ?E \<noteq> {}"
    then have "still_relaxable (fst (bf_tables nodes s ?E)) ?E \<noteq> {}"
      using tabs by simp
    from bellmanFord_tainted [OF q(2,3) assms(2) q(4,5) this] assms(1) show False
      by simp
  qed
  then have cyc: "negative_cycle_nodes (length nodes) ?E ds = {}"
    by (simp add: negative_cycle_nodes_def)
  have run: "bellmanFord nodes es s t = bf_report s t (edge_map (active es)) ds pv {}"
    using assms q tabs cyc
    by (auto simp: bellmanFord_def bf_search_def node_ids_def active_def bf_fail_def
        split: if_splits)
  with assms(1) obtain p where
    p: "bf_walk_back pv [] t [] = Some p" "p \<noteq> []" "hd p = s" "last p = t"
    and r: "bf_report s t (edge_map (active es)) ds pv {} =
      \<lparr>path = p, totalCost = num_get ds t, steps = map_steps (edge_map (active es)) p,
       found = True, hasNegativeCycle = False, error = None\<rparr>"
    by (auto simp: bf_report_def bf_fail_def split: if_splits option.splits)
  from bf_walk_back_traced [OF p(1)] obtain r' where "traced pv r' t p"
    by auto
  with traced_ends [OF this] p(3) have "traced pv s t p"
    by simp
  with inv full tight run r q show ?thesis
    by auto
qed

lemma dijkstra_found:
  assumes run: "dijkstra nodes es s t = Returns r" and f: "found r"
  shows "\<exists>g st p i. (\<forall>k. map_of g k = (if k \<in> node_ids nodes then Some (arcs_of es k) else None)) \<and>
           dinv g s st \<and> traced (previous st) s t p \<and> map_of (distances st) t = Some (Fin i) \<and>
           r = \<lparr>path = p, totalCost = Fin i, steps = find_steps es p, found = True\<rparr>"
proof -
  from dijkstra_found_ids [OF run f]
  have known: "endpoints_known nodes es"
    and q: "s \<noteq> []" "t \<noteq> []" "s \<noteq> t"
    and ids: "s \<in> node_ids nodes" "t \<in> node_ids nodes"
    by simp_all
  from dijkstra_result [OF known q ids] obtain g st where
    g: "\<forall>k. map_of g k = (if k \<in> node_ids nodes then Some (arcs_of es k) else None)"
    and inv: "dinv g s st"
    and res: "if num_get (distances st) t = PInf then dijkstra nodes es s t = Returns no_route
            else \<exists>p i. traced (previous st) s t p \<and> map_of (distances st) t = Some (Fin i) \<and>
                   dijkstra nodes es s t =
                     Returns \<lparr>path = p, totalCost = Fin i, steps = find_steps es p, found = True\<rparr>"
    by blast
  have "num_get (distances st) t \<noteq> PInf"
    using res run f by (auto simp: no_route_def)
  with res run obtain p i where
    "traced (previous st) s t p" "map_of (distances st) t = Some (Fin i)"
    "r = \<lparr>path = p, totalCost = Fin i, steps = find_steps es p, found = True\<rparr>"
    by auto
  with g inv show ?thesis by blast
qed




definition plain_nodes :: "node list" where
  "plain_nodes = map mk_node [''A'', ''B'', ''C'']"

definition plain_edges :: "edge list" where
  "plain_edges = [road ''e1'' ''A'' ''B'' 2, road ''e2'' ''B'' ''C'' 3]"


lemma bellmanFord_plain:
  "bellmanFord plain_nodes plain_edges ''A'' ''C'' =
     \<lparr>path = [''A'', ''B'', ''C''], totalCost = Fin 5,
       steps = [\<lparr>step_from = ''A'', step_to = ''B'', cost = 2, edgeId = ''e1''\<rparr>,
                \<lparr>step_from = ''B'', step_to = ''C'', cost = 3, edgeId = ''e2''\<rparr>],
       found = True, hasNegativeCycle = False, error = None\<rparr>"
  by code_simp


lemma plain_unique_keys: "unique_keys plain_edges"
  by (auto simp: unique_keys_def active_def plain_edges_def edge_keys_def edge_key_def road_def)



section \<open>dijkstra on non-negative weights\<close>

text \<open>
  \<open>wpath es s v d\<close>: some walk over unblocked edges leads from \<open>s\<close> to \<open>v\<close> and has
  total weight \<open>d\<close>.
\<close>

inductive wpath :: "edge list \<Rightarrow> string \<Rightarrow> string \<Rightarrow> int \<Rightarrow> bool"
  for es :: "edge list" and s :: string where
  start: "wpath es s s 0"
| hop: "wpath es s u d \<Longrightarrow> e \<in> set es \<Longrightarrow> \<not> e_blocked e \<Longrightarrow> joins u v e \<Longrightarrow>
        wpath es s v (d + e_weight e)"

definition nonneg :: "edge list \<Rightarrow> bool" where
  "nonneg es \<longleftrightarrow> (\<forall>e \<in> set es. \<not> e_blocked e \<longrightarrow> 0 \<le> e_weight e)"

text \<open>The adjacency lists lead to listed nodes along non-negative weights.\<close>

definition proper :: "arc list obj \<Rightarrow> bool" where
  "proper g \<longleftrightarrow>
     (\<forall>k as v w i. map_of g k = Some as \<and> (v, w, i) \<in> set as \<longrightarrow> map_of g v \<noteq> None \<and> 0 \<le> w)"

text \<open>
  What makes the search optimal: every open node with a finite distance is queued with
  that distance; no queue entry is below the distance of its node, nor below the
  distance of a visited node; the entries of the expanded nodes \<open>X\<close> have been relaxed;
  and the distance of a visited node is a lower bound of every walk to it.
\<close>

definition oinv :: "arc list obj \<Rightarrow> edge list \<Rightarrow> string \<Rightarrow> string set \<Rightarrow> dstate \<Rightarrow> bool" where
  "oinv g es s X st \<longleftrightarrow>
     (\<forall>v i. v \<notin> set (visited st) \<and> map_of (distances st) v = Some (Fin i) \<longrightarrow>
        (v, i) \<in> set (pq st)) \<and>
     (\<forall>v d. (v, d) \<in> set (pq st) \<longrightarrow>
        (\<exists>i. map_of (distances st) v = Some (Fin i) \<and> i \<le> d)) \<and>
     (\<forall>u v d. u \<in> set (visited st) \<and> (v, d) \<in> set (pq st) \<longrightarrow>
        (\<exists>du. map_of (distances st) u = Some (Fin du) \<and> du \<le> d)) \<and>
     (\<forall>u as v w i. u \<in> X \<and> map_of g u = Some as \<and> (v, w, i) \<in> set as \<longrightarrow>
        (\<exists>du dv. map_of (distances st) u = Some (Fin du) \<and>
           map_of (distances st) v = Some (Fin dv) \<and> dv \<le> du + w)) \<and>
     (\<forall>v d. v \<in> set (visited st) \<and> wpath es s v d \<longrightarrow>
        (\<exists>dv. map_of (distances st) v = Some (Fin dv) \<and> dv \<le> d))"

lemma oinv_queued:
  "oinv g es s X st \<Longrightarrow> v \<notin> set (visited st) \<Longrightarrow> map_of (distances st) v = Some (Fin i) \<Longrightarrow>
   (v, i) \<in> set (pq st)"
  unfolding oinv_def by blast

lemma oinv_entry:
  "oinv g es s X st \<Longrightarrow> (v, d) \<in> set (pq st) \<Longrightarrow>
   \<exists>i. map_of (distances st) v = Some (Fin i) \<and> i \<le> d"
  unfolding oinv_def by blast

lemma oinv_below:
  "oinv g es s X st \<Longrightarrow> u \<in> set (visited st) \<Longrightarrow> (v, d) \<in> set (pq st) \<Longrightarrow>
   \<exists>du. map_of (distances st) u = Some (Fin du) \<and> du \<le> d"
  unfolding oinv_def by blast

lemma oinv_relaxed:
  "oinv g es s X st \<Longrightarrow> u \<in> X \<Longrightarrow> map_of g u = Some as \<Longrightarrow> (v, w, i) \<in> set as \<Longrightarrow>
   \<exists>du dv. map_of (distances st) u = Some (Fin du) \<and>
      map_of (distances st) v = Some (Fin dv) \<and> dv \<le> du + w"
  unfolding oinv_def by blast

lemma oinv_lower:
  "oinv g es s X st \<Longrightarrow> v \<in> set (visited st) \<Longrightarrow> wpath es s v d \<Longrightarrow>
   \<exists>dv. map_of (distances st) v = Some (Fin dv) \<and> dv \<le> d"
  unfolding oinv_def by blast

text \<open>The two outcomes of relaxing one adjacency entry.\<close>

lemma relax_arc_cases:
  assumes "map_of (distances st) cur = Some (Fin dc)"
  obtains (same) "relax_arc cur st (nb, w, eid) = st"
      "nb \<in> set (visited st) \<or> \<not> lt_num (dc + w) (num_get (distances st) nb)"
    | (lower) "nb \<notin> set (visited st)" "lt_num (dc + w) (num_get (distances st) nb)"
      "relax_arc cur st (nb, w, eid) =
         st\<lparr>distances := AList.update nb (Fin (dc + w)) (distances st),
            previous := AList.update nb (Some cur) (previous st),
            pq := pq st @ [(nb, dc + w)]\<rparr>"
proof -
  have get: "num_get (distances st) cur = Fin dc"
    using assms by (simp add: num_get_def)
  show ?thesis
  proof (cases "nb \<notin> set (visited st) \<and> lt_num (dc + w) (num_get (distances st) nb)")
    case True
    then show ?thesis
      by (intro lower) (simp_all add: get)
  next
    case False
    then show ?thesis
      by (intro same) (auto simp: get)
  qed
qed

lemma relax_arc_frozen:
  "u \<in> set (visited st) \<Longrightarrow>
   map_of (distances (relax_arc cur st a)) u = map_of (distances st) u"
  by (cases a) (auto simp: update_conv' split: num.splits)

lemma relax_arc_lowers:
  assumes "map_of (distances st) v = Some (Fin i)"
  shows "\<exists>j. map_of (distances (relax_arc cur st a)) v = Some (Fin j) \<and> j \<le> i"
proof -
  obtain nb w eid where a: "a = (nb, w, eid)" by (cases a) auto
  show ?thesis
    using assms unfolding a
    by (cases "num_get (distances st) cur")
      (auto simp: update_conv' num_get_def split: if_splits)
qed

lemma foldl_relax_frozen:
  "u \<in> set (visited st) \<Longrightarrow>
   map_of (distances (foldl (relax_arc cur) st bs)) u = map_of (distances st) u"
  by (induction bs arbitrary: st) (simp_all add: relax_arc_frozen relax_arc_visited)

lemma foldl_relax_lowers:
  "map_of (distances st) v = Some (Fin i) \<Longrightarrow>
   \<exists>j. map_of (distances (foldl (relax_arc cur) st bs)) v = Some (Fin j) \<and> j \<le> i"
proof (induction bs arbitrary: st i)
  case Nil
  then show ?case by simp
next
  case (Cons b bs)
  from relax_arc_lowers [OF Cons.prems, of cur b] obtain j where
    j: "map_of (distances (relax_arc cur st b)) v = Some (Fin j)" "j \<le> i"
    by blast
  from Cons.IH [OF j(1)] j(2) show ?case
    by (auto intro: order_trans)
qed

lemma relax_arc_oinv:
  assumes o: "oinv g es s X st" and sub: "X \<subseteq> set (visited st)"
    and dc: "map_of (distances st) cur = Some (Fin dc)"
    and top: "\<forall>u \<in> set (visited st). \<exists>du. map_of (distances st) u = Some (Fin du) \<and> du \<le> dc"
    and w: "0 \<le> w"
  shows "oinv g es s X (relax_arc cur st (nb, w, eid))"
  using dc
proof (cases rule: relax_arc_cases [of st cur dc nb w eid])
  case same
  with o show ?thesis by simp
next
  case lower
  let ?ds = "AList.update nb (Fin (dc + w)) (distances st)"
  let ?st = "st\<lparr>distances := ?ds, previous := AList.update nb (Some cur) (previous st),
                pq := pq st @ [(nb, dc + w)]\<rparr>"
  have ds: "map_of ?ds = (map_of (distances st))(nb \<mapsto> Fin (dc + w))"
    by (simp add: update_conv')
  have below: "dc + w \<le> i" if "map_of (distances st) nb = Some (Fin i)" for i
    using lower(2) that by (simp add: num_get_def)
  have c1: "(v, i) \<in> set (pq st @ [(nb, dc + w)])"
    if "v \<notin> set (visited st)" "map_of ?ds v = Some (Fin i)" for v i
  proof (cases "v = nb")
    case True
    with that show ?thesis by (simp add: ds)
  next
    case False
    with that oinv_queued [OF o, of v i] show ?thesis by (simp add: ds)
  qed
  have c2: "\<exists>i. map_of ?ds v = Some (Fin i) \<and> i \<le> d"
    if "(v, d) \<in> set (pq st @ [(nb, dc + w)])" for v d
  proof (cases "v = nb")
    case True
    show ?thesis
    proof (cases "(v, d) \<in> set (pq st)")
      case True
      from oinv_entry [OF o this] obtain i where "map_of (distances st) v = Some (Fin i)" "i \<le> d"
        by blast
      with below [of i] \<open>v = nb\<close> show ?thesis by (simp add: ds)
    next
      case False
      with that \<open>v = nb\<close> show ?thesis by (simp add: ds)
    qed
  next
    case False
    with that have "(v, d) \<in> set (pq st)" by simp
    from oinv_entry [OF o this] False show ?thesis by (simp add: ds)
  qed
  have c3: "\<exists>du. map_of ?ds u = Some (Fin du) \<and> du \<le> d"
    if "u \<in> set (visited st)" "(v, d) \<in> set (pq st @ [(nb, dc + w)])" for u v d
  proof -
    have u: "map_of ?ds u = map_of (distances st) u"
      using that(1) lower(1) by (auto simp: ds)
    show ?thesis
    proof (cases "(v, d) \<in> set (pq st)")
      case True
      from oinv_below [OF o that(1) this] u show ?thesis by simp
    next
      case False
      with that(2) have "d = dc + w" by simp
      with top that(1) w u show ?thesis by fastforce
    qed
  qed
  have c4: "\<exists>du dv. map_of ?ds u = Some (Fin du) \<and> map_of ?ds v = Some (Fin dv) \<and> dv \<le> du + w'"
    if "u \<in> X" "map_of g u = Some as" "(v, w', i) \<in> set as" for u as v w' i
  proof -
    from oinv_relaxed [OF o that] obtain du dv where
      d: "map_of (distances st) u = Some (Fin du)" "map_of (distances st) v = Some (Fin dv)"
         "dv \<le> du + w'"
      by blast
    have u: "map_of ?ds u = Some (Fin du)"
      using that(1) sub lower(1) d(1) by (auto simp: ds)
    show ?thesis
    proof (cases "v = nb")
      case True
      with d(2) below [of dv] have "dc + w \<le> dv" by simp
      with d(3) u True show ?thesis by (simp add: ds)
    next
      case False
      with u d show ?thesis by (simp add: ds)
    qed
  qed
  have c5: "\<exists>dv. map_of ?ds v = Some (Fin dv) \<and> dv \<le> d"
    if "v \<in> set (visited st)" "wpath es s v d" for v d
  proof -
    have "map_of ?ds v = map_of (distances st) v"
      using that(1) lower(1) by (auto simp: ds)
    with oinv_lower [OF o that] show ?thesis by simp
  qed
  have "oinv g es s X ?st"
    unfolding oinv_def
  proof (intro conjI)
    show "\<forall>v i. v \<notin> set (visited ?st) \<and> map_of (distances ?st) v = Some (Fin i) \<longrightarrow>
        (v, i) \<in> set (pq ?st)"
      using c1 by (simp; blast)
    show "\<forall>v d. (v, d) \<in> set (pq ?st) \<longrightarrow>
        (\<exists>i. map_of (distances ?st) v = Some (Fin i) \<and> i \<le> d)"
      using c2 by (simp; blast)
    show "\<forall>u v d. u \<in> set (visited ?st) \<and> (v, d) \<in> set (pq ?st) \<longrightarrow>
        (\<exists>du. map_of (distances ?st) u = Some (Fin du) \<and> du \<le> d)"
      using c3 by (simp; blast)
    show "\<forall>u as v w i. u \<in> X \<and> map_of g u = Some as \<and> (v, w, i) \<in> set as \<longrightarrow>
        (\<exists>du dv. map_of (distances ?st) u = Some (Fin du) \<and>
           map_of (distances ?st) v = Some (Fin dv) \<and> dv \<le> du + w)"
      using c4 by (simp; blast)
    show "\<forall>v d. v \<in> set (visited ?st) \<and> wpath es s v d \<longrightarrow>
        (\<exists>dv. map_of (distances ?st) v = Some (Fin dv) \<and> dv \<le> d)"
      using c5 by (simp; blast)
  qed
  with lower(3) show ?thesis by simp
qed

text \<open>After the relaxation of an entry, its target is within reach of the current node.\<close>

lemma relax_arc_bound:
  assumes inv: "dinv g s st" and nb: "map_of g nb \<noteq> None"
    and dc: "map_of (distances st) cur = Some (Fin dc)"
    and top: "\<forall>u \<in> set (visited st). \<exists>du. map_of (distances st) u = Some (Fin du) \<and> du \<le> dc"
    and w: "0 \<le> w"
  shows "\<exists>dv. map_of (distances (relax_arc cur st (nb, w, eid))) nb = Some (Fin dv) \<and> dv \<le> dc + w"
  using dc
proof (cases rule: relax_arc_cases [of st cur dc nb w eid])
  case same
  from nb dinv_dom [OF inv, of nb] obtain d where d: "map_of (distances st) nb = Some d"
    by auto
  from same(2) show ?thesis
  proof
    assume "nb \<in> set (visited st)"
    with top w same(1) show ?thesis by fastforce
  next
    assume n: "\<not> lt_num (dc + w) (num_get (distances st) nb)"
    from dinv_values [OF inv d] n d same(1) show ?thesis
      by (auto simp: num_get_def)
  qed
next
  case lower
  then show ?thesis by (simp add: update_conv')
qed

lemma foldl_relax_oinv:
  assumes inv: "dinv g s st" and o: "oinv g es s X st" and sub: "X \<subseteq> set (visited st)"
    and cur: "cur \<in> set (visited st)" and as: "map_of g cur = Some as" and bs: "set bs \<subseteq> set as"
    and g: "proper g"
    and dc: "map_of (distances st) cur = Some (Fin dc)"
    and top: "\<forall>u \<in> set (visited st). \<exists>du. map_of (distances st) u = Some (Fin du) \<and> du \<le> dc"
  shows "oinv g es s X (foldl (relax_arc cur) st bs) \<and>
         (\<forall>v w i. (v, w, i) \<in> set bs \<longrightarrow>
            (\<exists>dv. map_of (distances (foldl (relax_arc cur) st bs)) v = Some (Fin dv) \<and> dv \<le> dc + w))"
  using inv o sub cur bs dc top
proof (induction bs arbitrary: st)
  case Nil
  then show ?case by simp
next
  case (Cons b bs)
  obtain nb w eid where b: "b = (nb, w, eid)" by (cases b) auto
  have b_in: "b \<in> set as" using Cons.prems(5) by simp
  then have pw: "map_of g nb \<noteq> None" "0 \<le> w"
    using g as unfolding proper_def b by blast+
  let ?st = "relax_arc cur st b"
  have inv1: "dinv g s ?st"
    by (rule relax_arc_dinv [OF Cons.prems(1) Cons.prems(4) as b_in])
  have o1: "oinv g es s X ?st"
    unfolding b by (rule relax_arc_oinv [OF Cons.prems(2,3,6,7) pw(2)])
  have vis: "visited ?st = visited st"
    by (rule relax_arc_visited)
  have dc1: "map_of (distances ?st) cur = Some (Fin dc)"
    using relax_arc_frozen [OF Cons.prems(4)] Cons.prems(6) by simp
  have top1: "\<forall>u \<in> set (visited ?st). \<exists>du. map_of (distances ?st) u = Some (Fin du) \<and> du \<le> dc"
    using Cons.prems(7) relax_arc_frozen [of _ st cur b] by (simp add: vis)
  have "set bs \<subseteq> set as" using Cons.prems(5) by simp
  from Cons.IH [OF inv1 o1 _ _ this dc1 top1] Cons.prems(3,4)
  have rest: "oinv g es s X (foldl (relax_arc cur) ?st bs)"
    "\<forall>v w i. (v, w, i) \<in> set bs \<longrightarrow>
       (\<exists>dv. map_of (distances (foldl (relax_arc cur) ?st bs)) v = Some (Fin dv) \<and> dv \<le> dc + w)"
    by (simp_all add: vis)
  from relax_arc_bound [OF Cons.prems(1) pw(1) Cons.prems(6,7) pw(2), of eid]
  obtain dv where dv: "map_of (distances ?st) nb = Some (Fin dv)" "dv \<le> dc + w"
    unfolding b by blast
  from foldl_relax_lowers [OF dv(1), of cur bs] dv(2)
  have first: "\<exists>j. map_of (distances (foldl (relax_arc cur) ?st bs)) nb = Some (Fin j) \<and> j \<le> dc + w"
    by (auto intro: order_trans)
  show ?case
    using rest first by (auto simp: b)
qed

lemma proper_graph:
  assumes gl: "\<forall>k. map_of g k = (if k \<in> node_ids nodes then Some (arcs_of es k) else None)"
    and known: "endpoints_known nodes es" and nn: "nonneg es"
  shows "proper g"
  unfolding proper_def
proof (intro allI impI)
  fix k as v w i
  assume a: "map_of g k = Some as \<and> (v, w, i) \<in> set as"
  then have "as = arcs_of es k"
    using gl by (auto split: if_splits)
  with a obtain e where e: "e \<in> set es" "\<not> e_blocked e" "joins k v e" "w = e_weight e"
    by (auto simp: set_arcs_of)
  from e(1,2) known have "e_from e \<in> node_ids nodes" "e_to e \<in> node_ids nodes"
    by (auto simp: endpoints_known_def)
  with e(3) have "v \<in> node_ids nodes"
    by (auto simp: joins_def)
  with gl e nn show "map_of g v \<noteq> None \<and> 0 \<le> w"
    by (auto simp: nonneg_def)
qed

text \<open>
  Every walk from the origin ends at a visited node or has passed an open node whose
  finite distance is no more than the weight of the walk.
\<close>

lemma frontier:
  assumes inv: "dinv g s st" and o: "oinv g es s X st" and sub: "set (visited st) \<subseteq> X"
    and gl: "\<forall>k. map_of g k = (if k \<in> node_ids nodes then Some (arcs_of es k) else None)"
    and nn: "nonneg es"
  shows "wpath es s v d \<Longrightarrow>
         v \<in> set (visited st) \<or>
         (\<exists>y dy. y \<notin> set (visited st) \<and> map_of (distances st) y = Some (Fin dy) \<and> dy \<le> d)"
proof (induction rule: wpath.induct)
  case start
  show ?case
    using dinv_start [OF inv] by auto
next
  case (hop u d e v)
  have w: "0 \<le> e_weight e"
    using nn hop.hyps(2,3) by (simp add: nonneg_def)
  show ?case
  proof (cases "v \<in> set (visited st)")
    case True
    then show ?thesis by simp
  next
    case False
    from hop.IH show ?thesis
    proof
      assume u: "u \<in> set (visited st)"
      from dinv_visited [OF inv u] obtain i where "map_of (distances st) u = Some (Fin i)"
        by blast
      then have "map_of g u \<noteq> None"
        using dinv_dom [OF inv, of u] by simp
      then have gu: "map_of g u = Some (arcs_of es u)"
        using gl by (auto split: if_splits)
      have arc: "(v, e_weight e, e_id e) \<in> set (arcs_of es u)"
        using hop.hyps(2-4) by (auto simp: set_arcs_of)
      from u sub have "u \<in> X" by auto
      from oinv_relaxed [OF o this gu arc] obtain du dv where
        d: "map_of (distances st) u = Some (Fin du)" "map_of (distances st) v = Some (Fin dv)"
           "dv \<le> du + e_weight e"
        by blast
      from oinv_lower [OF o u hop.hyps(1)] d(1) have "du \<le> d" by simp
      with d(3) have "dv \<le> d + e_weight e" by simp
      with False d(2) show ?thesis by blast
    next
      assume "\<exists>y dy. y \<notin> set (visited st) \<and> map_of (distances st) y = Some (Fin dy) \<and> dy \<le> d"
      then obtain y dy where
        "y \<notin> set (visited st)" "map_of (distances st) y = Some (Fin dy)" "dy \<le> d"
        by blast
      with w have "y \<notin> set (visited st) \<and> map_of (distances st) y = Some (Fin dy) \<and>
          dy \<le> d + e_weight e"
        by simp
      then show ?thesis by blast
    qed
  qed
qed

lemma sort_key_min:
  assumes "sort_key snd xs = (c, cd) # rest"
  shows "\<forall>(v, d) \<in> set xs. cd \<le> d"
proof -
  have "sorted (map snd (sort_key snd xs))"
    by (rule sorted_sort_key)
  then have "\<forall>x \<in> set rest. cd \<le> snd x"
    unfolding assms by simp
  moreover have "set xs = insert (c, cd) (set rest)"
    using arg_cong [OF assms, of set] by simp
  ultimately show ?thesis by auto
qed

lemma oinv_pop_visited:
  assumes o: "oinv g es s X st" and sets: "set (pq st) = insert (cur, cd) (set rest)"
    and cur: "cur \<in> set (visited st)"
  shows "oinv g es s X (st\<lparr>pq := rest\<rparr>)"
proof -
  have sub: "set rest \<subseteq> set (pq st)"
    using sets by auto
  have c1: "(v, i) \<in> set rest"
    if "v \<notin> set (visited st)" "map_of (distances st) v = Some (Fin i)" for v i
    using oinv_queued [OF o that] that(1) cur sets by auto
  show ?thesis
    unfolding oinv_def
  proof (intro conjI)
    show "\<forall>v i. v \<notin> set (visited (st\<lparr>pq := rest\<rparr>)) \<and>
            map_of (distances (st\<lparr>pq := rest\<rparr>)) v = Some (Fin i) \<longrightarrow>
            (v, i) \<in> set (pq (st\<lparr>pq := rest\<rparr>))"
      using c1 by (simp; blast)
    show "\<forall>v d. (v, d) \<in> set (pq (st\<lparr>pq := rest\<rparr>)) \<longrightarrow>
        (\<exists>i. map_of (distances (st\<lparr>pq := rest\<rparr>)) v = Some (Fin i) \<and> i \<le> d)"
      using oinv_entry [OF o] sub by (simp; blast)
    show "\<forall>u v d. u \<in> set (visited (st\<lparr>pq := rest\<rparr>)) \<and> (v, d) \<in> set (pq (st\<lparr>pq := rest\<rparr>)) \<longrightarrow>
        (\<exists>du. map_of (distances (st\<lparr>pq := rest\<rparr>)) u = Some (Fin du) \<and> du \<le> d)"
      using oinv_below [OF o] sub by (simp; blast)
    show "\<forall>u as v w i. u \<in> X \<and> map_of g u = Some as \<and> (v, w, i) \<in> set as \<longrightarrow>
        (\<exists>du dv. map_of (distances (st\<lparr>pq := rest\<rparr>)) u = Some (Fin du) \<and>
           map_of (distances (st\<lparr>pq := rest\<rparr>)) v = Some (Fin dv) \<and> dv \<le> du + w)"
      using oinv_relaxed [OF o] by (simp; blast)
    show "\<forall>v d. v \<in> set (visited (st\<lparr>pq := rest\<rparr>)) \<and> wpath es s v d \<longrightarrow>
        (\<exists>dv. map_of (distances (st\<lparr>pq := rest\<rparr>)) v = Some (Fin dv) \<and> dv \<le> d)"
      using oinv_lower [OF o] by (simp; blast)
  qed
qed

text \<open>
  Taking the smallest entry of the queue for an open node: the entry carries the
  distance of the node, and that distance is optimal.
\<close>

lemma oinv_pop_open:
  assumes inv: "dinv g s st" and o: "oinv g es s (set (visited st)) st"
    and gl: "\<forall>k. map_of g k = (if k \<in> node_ids nodes then Some (arcs_of es k) else None)"
    and nn: "nonneg es"
    and sets: "set (pq st) = insert (cur, cd) (set rest)"
    and least: "\<forall>(v, d) \<in> set (pq st). cd \<le> d"
    and cur: "cur \<notin> set (visited st)"
  shows "map_of (distances st) cur = Some (Fin cd) \<and>
         oinv g es s (set (visited st)) (st\<lparr>pq := rest, visited := visited st @ [cur]\<rparr>) \<and>
         (\<forall>u \<in> set (visited st @ [cur]). \<exists>du. map_of (distances st) u = Some (Fin du) \<and> du \<le> cd)"
proof -
  let ?st = "st\<lparr>pq := rest, visited := visited st @ [cur]\<rparr>"
  have top: "(cur, cd) \<in> set (pq st)"
    using sets by simp
  from oinv_entry [OF o top] obtain i where i: "map_of (distances st) cur = Some (Fin i)" "i \<le> cd"
    by blast
  from oinv_queued [OF o cur i(1)] least have "cd \<le> i"
    by auto
  with i have dc: "map_of (distances st) cur = Some (Fin cd)"
    by simp
  have all: "\<exists>du. map_of (distances st) u = Some (Fin du) \<and> du \<le> cd"
    if "u \<in> set (visited st @ [cur])" for u
  proof (cases "u = cur")
    case True
    with dc show ?thesis by simp
  next
    case False
    with that have "u \<in> set (visited st)" by simp
    from oinv_below [OF o this top] show ?thesis .
  qed
  have c1: "(v, i) \<in> set rest"
    if "v \<notin> set (visited st @ [cur])" "map_of (distances st) v = Some (Fin i)" for v i
    using oinv_queued [OF o _ that(2)] that(1) sets by auto
  have c2: "\<exists>i. map_of (distances st) v = Some (Fin i) \<and> i \<le> d" if "(v, d) \<in> set rest" for v d
    using oinv_entry [OF o, of v d] that sets by auto
  have c3: "\<exists>du. map_of (distances st) u = Some (Fin du) \<and> du \<le> d"
    if "u \<in> set (visited st @ [cur])" "(v, d) \<in> set rest" for u v d
  proof -
    from that(2) sets least have "cd \<le> d" by auto
    with all [OF that(1)] show ?thesis
      by (auto intro: order_trans)
  qed
  have c5: "\<exists>dv. map_of (distances st) v = Some (Fin dv) \<and> dv \<le> d"
    if "v \<in> set (visited st @ [cur])" "wpath es s v d" for v d
  proof (cases "v = cur")
    case False
    with that(1) have "v \<in> set (visited st)" by simp
    from oinv_lower [OF o this that(2)] show ?thesis .
  next
    case True
    from frontier [OF inv o _ gl nn that(2)] True cur obtain y dy where
      y: "y \<notin> set (visited st)" "map_of (distances st) y = Some (Fin dy)" "dy \<le> d"
      by auto
    from oinv_queued [OF o y(1,2)] least have "cd \<le> dy" by auto
    with y(3) dc True show ?thesis by simp
  qed
  have "oinv g es s (set (visited st)) ?st"
    unfolding oinv_def
  proof (intro conjI)
    show "\<forall>v i. v \<notin> set (visited ?st) \<and> map_of (distances ?st) v = Some (Fin i) \<longrightarrow>
            (v, i) \<in> set (pq ?st)"
      using c1 by (simp; blast)
    show "\<forall>v d. (v, d) \<in> set (pq ?st) \<longrightarrow>
        (\<exists>i. map_of (distances ?st) v = Some (Fin i) \<and> i \<le> d)"
      using c2 by (simp; blast)
    show "\<forall>u v d. u \<in> set (visited ?st) \<and> (v, d) \<in> set (pq ?st) \<longrightarrow>
        (\<exists>du. map_of (distances ?st) u = Some (Fin du) \<and> du \<le> d)"
      using c3 by (simp; blast)
    show "\<forall>u as v w i. u \<in> set (visited st) \<and> map_of g u = Some as \<and> (v, w, i) \<in> set as \<longrightarrow>
        (\<exists>du dv. map_of (distances ?st) u = Some (Fin du) \<and>
           map_of (distances ?st) v = Some (Fin dv) \<and> dv \<le> du + w)"
      using oinv_relaxed [OF o] by (simp; blast)
    show "\<forall>v d. v \<in> set (visited ?st) \<and> wpath es s v d \<longrightarrow>
        (\<exists>dv. map_of (distances ?st) v = Some (Fin dv) \<and> dv \<le> d)"
      using c5 by (simp; blast)
  qed
  with dc all show ?thesis by blast
qed

lemma oinv_expanded:
  assumes o: "oinv g es s X st"
    and cur: "\<forall>as v w i. map_of g cur = Some as \<and> (v, w, i) \<in> set as \<longrightarrow>
        (\<exists>du dv. map_of (distances st) cur = Some (Fin du) \<and>
           map_of (distances st) v = Some (Fin dv) \<and> dv \<le> du + w)"
  shows "oinv g es s (insert cur X) st"
  unfolding oinv_def
proof (intro conjI)
  show "\<forall>v i. v \<notin> set (visited st) \<and> map_of (distances st) v = Some (Fin i) \<longrightarrow>
        (v, i) \<in> set (pq st)"
    using oinv_queued [OF o] by blast
  show "\<forall>v d. (v, d) \<in> set (pq st) \<longrightarrow> (\<exists>i. map_of (distances st) v = Some (Fin i) \<and> i \<le> d)"
    using oinv_entry [OF o] by blast
  show "\<forall>u v d. u \<in> set (visited st) \<and> (v, d) \<in> set (pq st) \<longrightarrow>
        (\<exists>du. map_of (distances st) u = Some (Fin du) \<and> du \<le> d)"
    using oinv_below [OF o] by blast
  show "\<forall>u as v w i. u \<in> insert cur X \<and> map_of g u = Some as \<and> (v, w, i) \<in> set as \<longrightarrow>
        (\<exists>du dv. map_of (distances st) u = Some (Fin du) \<and>
           map_of (distances st) v = Some (Fin dv) \<and> dv \<le> du + w)"
    using oinv_relaxed [OF o] cur by blast
  show "\<forall>v d. v \<in> set (visited st) \<and> wpath es s v d \<longrightarrow>
        (\<exists>dv. map_of (distances st) v = Some (Fin dv) \<and> dv \<le> d)"
    using oinv_lower [OF o] by blast
qed

lemma dijkstra_iter_oinv:
  assumes inv: "dinv g s st" and o: "oinv g es s (set (visited st)) st"
    and t: "t \<notin> set (visited st)" and ne: "pq st \<noteq> []"
    and gl: "\<forall>k. map_of g k = (if k \<in> node_ids nodes then Some (arcs_of es k) else None)"
    and nn: "nonneg es" and g: "proper g"
  shows "\<exists>st' b. dijkstra_iter g t st = Inr (st', b) \<and>
           oinv g es s (set (visited st') - {t}) st' \<and> (b \<longleftrightarrow> t \<in> set (visited st'))"
proof -
  from ne obtain cur cd rest where srt: "sort_key snd (pq st) = (cur, cd) # rest"
    and sets: "set (pq st) = insert (cur, cd) (set rest)"
    by (rule sort_key_pop)
  have least: "\<forall>(v, d) \<in> set (pq st). cd \<le> d"
    by (rule sort_key_min [OF srt])
  let ?st1 = "st\<lparr>pq := rest\<rparr>"
  show ?thesis
  proof (cases "cur \<in> set (visited st)")
    case True
    then have run: "dijkstra_iter g t st = Inr (?st1, False)"
      using srt by (simp add: dijkstra_iter_def)
    have "oinv g es s (set (visited st)) ?st1"
      by (rule oinv_pop_visited [OF o sets True])
    moreover have "set (visited st) - {t} = set (visited st)"
      using t by auto
    ultimately have "oinv g es s (set (visited ?st1) - {t}) ?st1"
      by simp
    with run t show ?thesis
      by (intro exI [of _ ?st1] exI [of _ False]) simp
  next
    case False
    let ?st2 = "?st1\<lparr>visited := visited ?st1 @ [cur]\<rparr>"
    have st2: "?st2 = st\<lparr>pq := rest, visited := visited st @ [cur]\<rparr>"
      by simp
    from oinv_pop_open [OF inv o gl nn sets least False]
    have dc: "map_of (distances st) cur = Some (Fin cd)"
      and o2: "oinv g es s (set (visited st)) ?st2"
      and top: "\<forall>u \<in> set (visited st @ [cur]). \<exists>du. map_of (distances st) u = Some (Fin du) \<and> du \<le> cd"
      unfolding st2 by simp_all
    have inv1: "dinv g s ?st1"
      using sets by (intro dinv_pop [OF inv]) auto
    have inv2: "dinv g s ?st2"
      using dc by (intro dinv_visit [OF inv1]) simp
    show ?thesis
    proof (cases "cur = t")
      case True
      then have run: "dijkstra_iter g t st = Inr (?st2, True)"
        using srt False by (simp add: dijkstra_iter_def)
      have "set (visited ?st2) - {t} = set (visited st)"
        using True t by auto
      with o2 have "oinv g es s (set (visited ?st2) - {t}) ?st2"
        by simp
      with run True show ?thesis
        by (intro exI [of _ ?st2] exI [of _ True]) simp
    next
      case nt: False
      have ngt: "\<not> gt_num cd (num_get (distances ?st2) cur)"
        using dc by (simp add: num_get_def)
      have "map_of g cur \<noteq> None"
        using dinv_dom [OF inv, of cur] dc by simp
      then obtain as where as: "map_of g cur = Some as" by auto
      let ?st3 = "foldl (relax_arc cur) ?st2 as"
      have run: "dijkstra_iter g t st = Inr (?st3, False)"
        using srt False nt ngt as by (simp add: dijkstra_iter_def)
      have dc2: "map_of (distances ?st2) cur = Some (Fin cd)"
        using dc by simp
      have top2: "\<forall>u \<in> set (visited ?st2). \<exists>du. map_of (distances ?st2) u = Some (Fin du) \<and> du \<le> cd"
        using top by simp
      have cur2: "cur \<in> set (visited ?st2)"
        by simp
      have sub2: "set (visited st) \<subseteq> set (visited ?st2)"
        by auto
      from foldl_relax_oinv [OF inv2 o2 sub2 cur2 as subset_refl g dc2 top2]
      have o3: "oinv g es s (set (visited st)) ?st3"
        and bound: "\<forall>v w i. (v, w, i) \<in> set as \<longrightarrow>
            (\<exists>dv. map_of (distances ?st3) v = Some (Fin dv) \<and> dv \<le> cd + w)"
        by simp_all
      have dc3: "map_of (distances ?st3) cur = Some (Fin cd)"
        using foldl_relax_frozen [OF cur2, of cur as] dc by simp
      have "oinv g es s (insert cur (set (visited st))) ?st3"
      proof (rule oinv_expanded [OF o3], intro allI impI)
        fix bs v w i
        assume "map_of g cur = Some bs \<and> (v, w, i) \<in> set bs"
        with as have "(v, w, i) \<in> set as" by simp
        with bound obtain dv where "map_of (distances ?st3) v = Some (Fin dv)" "dv \<le> cd + w"
          by blast
        with dc3 show "\<exists>du dv. map_of (distances ?st3) cur = Some (Fin du) \<and>
           map_of (distances ?st3) v = Some (Fin dv) \<and> dv \<le> du + w"
          by blast
      qed
      moreover have vis3: "visited ?st3 = visited st @ [cur]"
        by (simp add: foldl_relax_visited)
      then have "set (visited ?st3) - {t} = insert cur (set (visited st))"
        using t nt by auto
      ultimately have "oinv g es s (set (visited ?st3) - {t}) ?st3"
        by simp
      moreover have "t \<notin> set (visited ?st3)"
        using vis3 t nt by simp
      ultimately show ?thesis
        using run by (intro exI [of _ ?st3] exI [of _ False]) simp
    qed
  qed
qed

lemma dijkstra_loop_oinv:
  assumes gl: "\<forall>k. map_of g k = (if k \<in> node_ids nodes then Some (arcs_of es k) else None)"
    and nn: "nonneg es" and g: "proper g"
  shows "dinv g s st \<Longrightarrow> oinv g es s (set (visited st)) st \<Longrightarrow> t \<notin> set (visited st) \<Longrightarrow>
         \<exists>st'. dijkstra_loop g t st = Inr st' \<and> oinv g es s (set (visited st') - {t}) st'"
  using gl g
proof (induction g t st rule: dijkstra_loop.induct)
  case (1 g t st)
  note inv = "1.prems"(1) and o = "1.prems"(2) and t = "1.prems"(3)
    and gl = "1.prems"(4) and g = "1.prems"(5)
  show ?case
  proof (cases "pq st = []")
    case True
    have "set (visited st) - {t} = set (visited st)"
      using t by auto
    with o True show ?thesis
      by (subst dijkstra_loop.simps) simp
  next
    case False
    from dijkstra_iter_oinv [OF inv o t False gl nn g] obtain st' b where
      it: "dijkstra_iter g t st = Inr (st', b)"
      and o': "oinv g es s (set (visited st') - {t}) st'"
      and brk: "b \<longleftrightarrow> t \<in> set (visited st')"
      by blast
    from dijkstra_iter_dinv [OF inv False, of t] it have inv': "dinv g s st'"
      by auto
    show ?thesis
    proof (cases b)
      case True
      with it o' False show ?thesis
        by (subst dijkstra_loop.simps) simp
    next
      case nb: False
      with brk have t': "t \<notin> set (visited st')" by simp
      then have "set (visited st') - {t} = set (visited st')" by auto
      with o' have o'': "oinv g es s (set (visited st')) st'" by simp
      from "1.IH" [OF False it refl nb inv' o'' t' gl g] obtain st'' where
        "dijkstra_loop g t st' = Inr st''" "oinv g es s (set (visited st'') - {t}) st''"
        by blast
      with it nb False show ?thesis
        by (subst dijkstra_loop.simps) simp
    qed
  qed
qed

lemma init_oinv:
  assumes inv: "dinv g s (init_dstate nodes s)"
  shows "oinv g es s (set (visited (init_dstate nodes s))) (init_dstate nodes s)"
proof -
  obtain ds pv where tabs: "init_tables nodes = (ds, pv)"
    by (cases "init_tables nodes") auto
  have st: "init_dstate nodes s =
      \<lparr>distances = AList.update s (Fin 0) ds, previous = pv, visited = [], pq = [(s, 0)]\<rparr>"
    by (simp add: init_dstate_def tabs)
  have ds: "map_of ds k = (if k \<in> node_ids nodes then Some PInf else None)" for k
    using init_tables_maps [OF tabs, of k] by simp
  have fin: "v = s \<and> i = 0" if "map_of (AList.update s (Fin 0) ds) v = Some (Fin i)" for v i
    using that by (auto simp: update_conv' ds split: if_splits)
  have s0: "map_of (AList.update s (Fin 0) ds) s = Some (Fin 0)"
    by (simp add: update_conv')
  show ?thesis
    unfolding oinv_def st
  proof (intro conjI allI impI)
    fix v i
    assume "v \<notin> set (visited \<lparr>distances = AList.update s (Fin 0) ds, previous = pv, visited = [], pq = [(s, 0)]\<rparr>) \<and>
       map_of (distances \<lparr>distances = AList.update s (Fin 0) ds, previous = pv, visited = [], pq = [(s, 0)]\<rparr>) v = Some (Fin i)"
    then have "map_of (AList.update s (Fin 0) ds) v = Some (Fin i)" by simp
    from fin [OF this]
    show "(v, i) \<in> set (pq \<lparr>distances = AList.update s (Fin 0) ds, previous = pv, visited = [], pq = [(s, 0)]\<rparr>)"
      by simp
  next
    fix v d
    assume "(v, d) \<in> set (pq \<lparr>distances = AList.update s (Fin 0) ds, previous = pv, visited = [], pq = [(s, 0)]\<rparr>)"
    then have "v = s" "d = 0" by simp_all
    with s0
    show "\<exists>i. map_of (distances \<lparr>distances = AList.update s (Fin 0) ds, previous = pv, visited = [], pq = [(s, 0)]\<rparr>) v = Some (Fin i) \<and> i \<le> d"
      by simp
  qed simp_all
qed

lemma traced_wpath:
  assumes inv: "dinv g s st"
    and gl: "\<forall>k. map_of g k = (if k \<in> node_ids nodes then Some (arcs_of es k) else None)"
  shows "traced (previous st) s v p \<Longrightarrow>
         \<exists>i. map_of (distances st) v = Some (Fin i) \<and> wpath es s v i"
proof (induction rule: traced.induct)
  case root
  show ?case
    using dinv_start [OF inv] wpath.start [of es s] by simp
next
  case (link v u p)
  from link.IH obtain iu where iu: "map_of (distances st) u = Some (Fin iu)" "wpath es s u iu"
    by blast
  from dinv_link [OF inv link.hyps(1)] have "link_ok g (distances st) u v"
    by simp
  then obtain w i as where
    l: "map_of g u = Some as" "(v, w, i) \<in> set as" "map_of (distances st) v = Some (Fin (iu + w))"
    using iu(1) unfolding link_ok_def by auto
  from l(1) gl have "as = arcs_of es u"
    by (auto split: if_splits)
  with l(2) obtain e where e: "e \<in> set es" "\<not> e_blocked e" "joins u v e" "w = e_weight e"
    by (auto simp: set_arcs_of)
  from wpath.hop [OF iu(2) e(1-3)] e(4) l(3) show ?case
    by auto
qed

text \<open>
  On non-negative weights \<open>dijkstra\<close> finds a route exactly when a walk over unblocked
  edges exists, and the cost it returns is the least weight of such a walk.
\<close>

lemma dijkstra_optimal:
  assumes known: "endpoints_known nodes es" and nn: "nonneg es"
    and ids: "s \<noteq> []" "t \<noteq> []" "s \<noteq> t" "s \<in> node_ids nodes" "t \<in> node_ids nodes"
  shows "if (\<exists>d. wpath es s t d)
         then \<exists>p i. dijkstra nodes es s t =
                  Returns \<lparr>path = p, totalCost = Fin i, steps = find_steps es p, found = True\<rparr> \<and>
                wpath es s t i \<and> (\<forall>d. wpath es s t d \<longrightarrow> i \<le> d)
         else dijkstra nodes es s t = Returns no_route"
proof -
  from dijkstra_result [OF known ids] obtain g st where
    gl: "\<forall>k. map_of g k = (if k \<in> node_ids nodes then Some (arcs_of es k) else None)"
    and inv: "dinv g s st" and fin: "pq st = [] \<or> t \<in> set (visited st)"
    and loop: "dijkstra_loop g t (init_dstate nodes s) = Inr st"
    and res: "if num_get (distances st) t = PInf then dijkstra nodes es s t = Returns no_route
            else \<exists>p i. traced (previous st) s t p \<and> map_of (distances st) t = Some (Fin i) \<and>
                   dijkstra nodes es s t =
                     Returns \<lparr>path = p, totalCost = Fin i, steps = find_steps es p, found = True\<rparr>"
    by blast
  have g: "proper g"
    by (rule proper_graph [OF gl known nn])
  have gdom: "map_of g k = None \<longleftrightarrow> k \<notin> node_ids nodes" for k
    using gl by simp
  have inv0: "dinv g s (init_dstate nodes s)"
    by (rule init_dinv [OF gdom ids(4)])
  have t0: "t \<notin> set (visited (init_dstate nodes s))"
    by (cases "init_tables nodes") (simp add: init_dstate_def)
  from dijkstra_loop_oinv [OF gl nn g inv0 init_oinv [OF inv0] t0] loop
  have o: "oinv g es s (set (visited st) - {t}) st"
    by simp
  have queue: "t \<in> set (visited st)" if "map_of (distances st) v = Some (Fin i)"
    "v \<notin> set (visited st)" for v i
    using oinv_queued [OF o that(2,1)] fin by auto
  show ?thesis
  proof (cases "num_get (distances st) t = PInf")
    case True
    have tv: "t \<notin> set (visited st)"
      using dinv_visited [OF inv, of t] True by (auto simp: num_get_def)
    then have o': "oinv g es s (set (visited st)) st"
      using o by simp
    have "\<not> wpath es s t d" for d
    proof
      assume "wpath es s t d"
      from frontier [OF inv o' subset_refl gl nn this] tv obtain y dy where
        "y \<notin> set (visited st)" "map_of (distances st) y = Some (Fin dy)"
        by blast
      from queue [OF this(2,1)] tv show False by simp
    qed
    with res True show ?thesis by simp
  next
    case False
    with res obtain p i where tr: "traced (previous st) s t p"
      and i: "map_of (distances st) t = Some (Fin i)"
      and run: "dijkstra nodes es s t =
          Returns \<lparr>path = p, totalCost = Fin i, steps = find_steps es p, found = True\<rparr>"
      by auto
    from traced_wpath [OF inv gl tr] i have w: "wpath es s t i"
      by simp
    have tv: "t \<in> set (visited st)"
      using queue [OF i] by blast
    have "i \<le> d" if "wpath es s t d" for d
      using oinv_lower [OF o tv that] i by simp
    with w run show ?thesis by auto
  qed
qed

text \<open>Blocking the edges selected by \<open>P\<close>.\<close>

definition block :: "(edge \<Rightarrow> bool) \<Rightarrow> edge list \<Rightarrow> edge list" where
  "block P es = map (\<lambda>e. if P e then e\<lparr>e_blocked := True\<rparr> else e) es"

lemma open_after_block:
  "e \<in> set (block P es) \<Longrightarrow> \<not> e_blocked e \<Longrightarrow> e \<in> set es \<and> \<not> P e"
  by (auto simp: block_def split: if_splits)

lemma wpath_block: "wpath (block P es) s v d \<Longrightarrow> wpath es s v d"
proof (induction rule: wpath.induct)
  case start
  show ?case by (rule wpath.start)
next
  case (hop u d e v)
  from open_after_block [OF hop.hyps(2,3)] have "e \<in> set es" by simp
  from wpath.hop [OF hop.IH this hop.hyps(3,4)] show ?case .
qed

lemma endpoints_known_block: "endpoints_known nodes es \<Longrightarrow> endpoints_known nodes (block P es)"
  unfolding endpoints_known_def using open_after_block [of _ P es] by blast

lemma nonneg_block: "nonneg es \<Longrightarrow> nonneg (block P es)"
  unfolding nonneg_def using open_after_block [of _ P es] by blast

section \<open>Blocked edges\<close>

text \<open>The steps of \<open>dijkstra\<close> when no two edges join the same pair of nodes.\<close>

lemma traced_steps_open:
  assumes inv: "dinv g s st"
    and gl: "\<forall>k. map_of g k = (if k \<in> node_ids nodes then Some (arcs_of es k) else None)"
    and simple: "no_parallel es"
  shows "traced (previous st) s v p \<Longrightarrow>
         \<forall>x \<in> set (find_steps es p). \<exists>e \<in> set es. \<not> e_blocked e \<and>
            x = step_of (step_from x) (step_to x) e"
proof (induction rule: traced.induct)
  case root
  show ?case by simp
next
  case (link v u p)
  from dinv_link [OF inv link.hyps(1)] have "link_ok g (distances st) u v"
    by simp
  then obtain w i as where l: "map_of g u = Some as" "(v, w, i) \<in> set as"
    unfolding link_ok_def by auto
  from l(1) gl have "as = arcs_of es u"
    by (auto split: if_splits)
  with l(2) obtain e where e: "e \<in> set es" "\<not> e_blocked e" "joins u v e"
    by (auto simp: set_arcs_of)
  from traced_ends [OF link.hyps(2)] have p: "p \<noteq> []" "last p = u"
    by simp_all
  have "List.find (joins u v) es = Some e"
  proof (cases "List.find (joins u v) es")
    case None
    with e(1,3) show ?thesis by (auto simp: find_None_iff)
  next
    case (Some e')
    then have "e' \<in> set es" "joins u v e'"
      by (auto simp: find_Some_iff)
    with simple e(1,3) have "e = e'"
      unfolding no_parallel_def by blast
    with Some show ?thesis by simp
  qed
  then have "find_steps es (p @ [v]) = find_steps es p @ [step_of u v e]"
    using find_steps_snoc [OF p(1), of es v] p(2) by simp
  moreover have "step_of u v e = step_of (step_from (step_of u v e)) (step_to (step_of u v e)) e"
    by (simp add: step_of_def)
  ultimately show ?case
    using link.IH e(1,2) by auto
qed

lemma dijkstra_steps_open:
  assumes run: "dijkstra nodes es s t = Returns r" and f: "found r" and simple: "no_parallel es"
  shows "\<forall>x \<in> set (steps r). \<exists>e \<in> set es. \<not> e_blocked e \<and>
            x = step_of (step_from x) (step_to x) e"
proof -
  from dijkstra_found [OF run f] obtain g st p i where
    g: "\<forall>k. map_of g k = (if k \<in> node_ids nodes then Some (arcs_of es k) else None)"
    and inv: "dinv g s st" and tr: "traced (previous st) s t p"
    and r: "r = \<lparr>path = p, totalCost = Fin i, steps = find_steps es p, found = True\<rparr>"
    by blast
  from traced_steps_open [OF inv g simple tr] show ?thesis
    unfolding r by simp
qed

text \<open>The steps of \<open>bellmanFord\<close> come out of \<open>edgeMap\<close>, which holds unblocked edges only.\<close>

lemma map_steps_open:
  "\<forall>x \<in> set (map_steps (edge_map (active es)) p). \<exists>e \<in> set es. \<not> e_blocked e \<and>
      x = step_of (step_from x) (step_to x) e"
proof (induction "edge_map (active es)" p rule: map_steps.induct)
  case (1 a b p)
  show ?case
  proof (cases "map_of (edge_map (active es)) (edge_key a b)")
    case None
    with 1 show ?thesis by simp
  next
    case (Some e)
    from edge_map_lookup [OF this] have "e \<in> set es" "\<not> e_blocked e"
      by (simp_all add: active_def)
    moreover have "step_of a b e = step_of (step_from (step_of a b e)) (step_to (step_of a b e)) e"
      by (simp add: step_of_def)
    ultimately show ?thesis
      using 1 Some by auto
  qed
qed simp_all

lemma bellmanFord_steps_open:
  assumes f: "found (bellmanFord nodes es s t)"
  shows "\<forall>x \<in> set (steps (bellmanFord nodes es s t)). \<exists>e \<in> set es. \<not> e_blocked e \<and>
            x = step_of (step_from x) (step_to x) e"
proof (cases "s = t")
  case True
  with f show ?thesis
    by (auto simp: bellmanFord_def bf_fail_def split: if_splits)
next
  case False
  from bellmanFord_found [OF f False] obtain p where
    "steps (bellmanFord nodes es s t) = map_steps (edge_map (active es)) p"
    by auto
  with map_steps_open [of es p] show ?thesis by simp
qed

section \<open>Negative weights within the exact range\<close>

text \<open>
  The sums of \<open>bellmanFord\<close> are exact in IEEE double arithmetic as long as they stay
  within \<open>2\<^sup>5\<^sup>3\<close> in magnitude. Each relaxation adds one weight to a distance, and
  there are at most \<open>|V| - 1\<close> passes over twice the unblocked edges, followed by one
  more sum per directed edge in the detection loop; so it is enough that every weight,
  multiplied by twice the number of edges and by the number of nodes, stays below that
  bound.
\<close>

definition exact_range :: "node list \<Rightarrow> edge list \<Rightarrow> bool" where
  "exact_range nodes es \<longleftrightarrow>
     (\<forall>e \<in> set es. \<not> e_blocked e \<longrightarrow>
        \<bar>e_weight e\<bar> * (2 * int (length es) * int (length nodes)) \<le> 2 ^ 53)"

definition within :: "int \<Rightarrow> num obj \<Rightarrow> bool" where
  "within M ds \<longleftrightarrow> (\<forall>v i. map_of ds v = Some (Fin i) \<longrightarrow> \<bar>i\<bar> \<le> M)"

lemma within_mono: "within M ds \<Longrightarrow> M \<le> M' \<Longrightarrow> within M' ds"
  unfolding within_def by fastforce

lemma bf_relax_within:
  assumes "within M ds" and "\<bar>w\<bar> \<le> W"
  shows "within (M + W) (fst (bf_relax (ds, pv, u) (a, b, w, i)))"
proof (cases "\<exists>d. num_get ds a = Fin d \<and> lt_num (d + w) (num_get ds b)")
  case True
  then obtain d where d: "num_get ds a = Fin d" "lt_num (d + w) (num_get ds b)"
    by blast
  then have "map_of ds a = Some (Fin d)"
    by (cases "map_of ds a") (simp_all add: num_get_def)
  with assms(1) have "\<bar>d\<bar> \<le> M"
    by (simp add: within_def)
  with assms(2) have "\<bar>d + w\<bar> \<le> M + W" by simp
  moreover have "0 \<le> W" using assms(2) by simp
  ultimately show ?thesis
    using d assms(1) unfolding within_def
    by (auto simp: update_conv' split: if_splits) fastforce
next
  case False
  then have "bf_relax (ds, pv, u) (a, b, w, i) = (ds, pv, u)"
    by (cases "num_get ds a") auto
  moreover have "0 \<le> W" using assms(2) by simp
  ultimately show ?thesis
    using within_mono [OF assms(1), of "M + W"] by simp
qed

lemma foldl_relax_within:
  assumes "\<forall>(a, b, w, i) \<in> set E. \<bar>w\<bar> \<le> W"
  shows "within M ds \<Longrightarrow> within (M + int (length E) * W) (fst (foldl bf_relax (ds, pv, u) E))"
  using assms
proof (induction E arbitrary: M ds pv u)
  case Nil
  then show ?case by simp
next
  case (Cons x E)
  obtain a b w i where x: "x = (a, b, w, i)" by (cases x) auto
  obtain ds' pv' u' where r: "bf_relax (ds, pv, u) (a, b, w, i) = (ds', pv', u')"
    by (cases "bf_relax (ds, pv, u) (a, b, w, i)") auto
  have "\<bar>w\<bar> \<le> W" using Cons.prems(2) x by auto
  from bf_relax_within [OF Cons.prems(1) this, of pv u a b i] r have "within (M + W) ds'"
    by simp
  moreover have "\<forall>(a, b, w, i) \<in> set E. \<bar>w\<bar> \<le> W"
    using Cons.prems(2) by auto
  ultimately have "within (M + W + int (length E) * W) (fst (foldl bf_relax (ds', pv', u') E))"
    by (rule Cons.IH)
  moreover have "foldl bf_relax (ds, pv, u) (x # E) = foldl bf_relax (ds', pv', u') E"
    unfolding x foldl_Cons r ..
  moreover have "M + int (length (x # E)) * W = M + W + int (length E) * W"
    by (simp add: algebra_simps)
  ultimately show ?case by (simp add: algebra_simps)
qed

lemma bf_passes_within:
  assumes "\<forall>(a, b, w, i) \<in> set E. \<bar>w\<bar> \<le> W" and "0 \<le> W"
  shows "within M ds \<Longrightarrow>
         within (M + int k * (int (length E) * W)) (fst (bf_passes k E (ds, pv)))"
proof (induction k arbitrary: M ds pv)
  case 0
  then show ?case by simp
next
  case (Suc k)
  obtain ds' pv' u where f: "foldl bf_relax (ds, pv, False) E = (ds', pv', u)"
    by (cases "foldl bf_relax (ds, pv, False) E") auto
  from foldl_relax_within [OF assms(1) Suc.prems, of pv False] f
  have w1: "within (M + int (length E) * W) ds'" by simp
  have nn: "0 \<le> int k * (int (length E) * W)"
    using assms(2) by simp
  show ?case
  proof (cases u)
    case True
    from Suc.IH [OF w1, of pv'] True f show ?thesis
      by (simp add: algebra_simps)
  next
    case False
    from within_mono [OF w1, of "M + int (Suc k) * (int (length E) * W)"] nn False f
    show ?thesis by (simp add: algebra_simps)
  qed
qed

lemma bf_tables_within:
  assumes "\<forall>(a, b, w, i) \<in> set E. \<bar>w\<bar> \<le> W" and "0 \<le> W"
  shows "within (int (length nodes - 1) * (int (length E) * W)) (fst (bf_tables nodes s E))"
proof -
  obtain ds0 pv0 where tabs: "init_tables nodes = (ds0, pv0)"
    by (cases "init_tables nodes") auto
  have "map_of ds0 k = (if k \<in> node_ids nodes then Some PInf else None)" for k
    using init_tables_maps [OF tabs, of k] by simp
  then have "within 0 (AList.update s (Fin 0) ds0)"
    by (auto simp: within_def update_conv' split: if_splits)
  from bf_passes_within [OF assms this, of "length nodes - 1" pv0] show ?thesis
    by (simp add: bf_tables_def tabs)
qed

text \<open>
  Within the range, every distance of the final table, and every sum that the
  detection loop forms from it, has magnitude at most \<open>2\<^sup>5\<^sup>3\<close>.
\<close>

lemma length_bidirectional: "length (bidirectional es) = 2 * length es"
  by (induction es) (simp_all add: bidirectional_def)

lemma exact_range_sums:
  assumes range: "exact_range nodes es" and s: "nodes \<noteq> []"
    and e: "e \<in> set es" "\<not> e_blocked e"
    and v: "map_of (fst (bf_tables nodes s (bidirectional (active es)))) v = Some (Fin i)"
  shows "\<bar>i\<bar> \<le> 2 ^ 53 \<and> \<bar>i + e_weight e\<bar> \<le> 2 ^ 53"
proof -
  let ?E = "bidirectional (active es)"
  define n where "n = int (length nodes)"
  define m where "m = int (length es)"
  define l where "l = int (length ?E)"
  define K where "K = 2 * m * n"
  define W :: int where "W = 2 ^ 53 div K"
  have n: "1 \<le> n"
    using s by (cases nodes) (simp_all add: n_def)
  have m: "1 \<le> m"
    using e(1) by (cases es) (simp_all add: m_def)
  have "length (active es) \<le> length es"
    by (simp add: active_def)
  then have l: "0 \<le> l" "l \<le> 2 * m"
    by (simp_all add: l_def m_def length_bidirectional)
  have K: "0 < K"
    using n m by (simp add: K_def)
  have W0: "0 \<le> W"
    using K by (simp add: W_def pos_imp_zdiv_nonneg_iff)
  have "K * ((2 ^ 53 :: int) div K) + (2 ^ 53 :: int) mod K = 2 ^ 53"
    by (rule mult_div_mod_eq)
  moreover have "0 \<le> (2 ^ 53 :: int) mod K"
    using K by (rule pos_mod_sign)
  ultimately have "K * ((2 ^ 53 :: int) div K) \<le> 2 ^ 53"
    by linarith
  then have WK: "W * K \<le> 2 ^ 53"
    unfolding W_def by (simp only: mult.commute)
  have small: "\<bar>e_weight x\<bar> \<le> W" if "x \<in> set es" "\<not> e_blocked x" for x
  proof -
    from range that have "\<bar>e_weight x\<bar> * K \<le> 2 ^ 53"
      by (simp add: exact_range_def K_def m_def n_def)
    then have "\<bar>e_weight x\<bar> * K div K \<le> 2 ^ 53 div K"
      using K by (intro zdiv_mono1) simp_all
    then show ?thesis
      using K by (simp add: W_def)
  qed
  have "\<forall>(a, b, w, i) \<in> set ?E. \<bar>w\<bar> \<le> W"
    using small by (auto simp: set_bidirectional active_def)
  from bf_tables_within [OF this W0, of nodes s] v
  have i: "\<bar>i\<bar> \<le> (n - 1) * (l * W)"
    using s by (cases nodes) (auto simp: within_def n_def l_def)
  have "(n - 1) * l \<le> (n - 1) * (2 * m)"
    using n l by (intro mult_left_mono) simp_all
  also have "\<dots> = K - 2 * m"
    by (simp add: K_def algebra_simps)
  finally have "(n - 1) * l + 1 \<le> K"
    using m by simp
  then have "((n - 1) * l + 1) * W \<le> K * W"
    using W0 by (rule mult_right_mono)
  with WK have top: "(n - 1) * (l * W) + W \<le> 2 ^ 53"
    by (simp add: algebra_simps)
  have "\<bar>i + e_weight e\<bar> \<le> \<bar>i\<bar> + \<bar>e_weight e\<bar>"
    by simp
  with i small [OF e] top W0 show ?thesis
    by linarith
qed

text \<open>
  When no edge can be relaxed, no unblocked edge of negative weight joins two nodes
  that have a finite distance.
\<close>

lemma tight_edge_nonneg:
  assumes tight: "still_relaxable ds (bidirectional (active es)) = {}"
    and e: "e \<in> set es" "\<not> e_blocked e" "joins u v e"
    and d: "map_of ds u = Some (Fin du)" "map_of ds v = Some (Fin dv)"
  shows "0 \<le> e_weight e"
proof -
  have "e \<in> set (active es)"
    using e(1,2) by (simp add: active_def)
  then have arcs: "(u, v, e_weight e, e_id e) \<in> set (bidirectional (active es))"
    "(v, u, e_weight e, e_id e) \<in> set (bidirectional (active es))"
    using e(3) by (auto simp: set_bidirectional joins_def)
  have "\<not> relaxable ds (u, v, e_weight e, e_id e)" "\<not> relaxable ds (v, u, e_weight e, e_id e)"
    using tight arcs by (auto simp: still_relaxable_eq)
  then show ?thesis
    using d by (simp add: num_get_def)
qed

lemma traced_finite:
  assumes inv: "binv E V s ds pv"
  shows "traced pv s v p \<Longrightarrow> \<forall>x \<in> set p. \<exists>i. map_of ds x = Some (Fin i)"
proof (induction rule: traced.induct)
  case root
  then show ?case using binv_root [OF inv] by simp
next
  case (link v u p)
  from binv_link [OF inv link.hyps(1)] have "\<exists>i. map_of ds v = Some (Fin i)"
    by blast
  with link.IH show ?case by simp
qed

lemma bf_traced_steps_nonneg:
  assumes inv: "binv (bidirectional (active es)) V s ds pv"
    and tight: "still_relaxable ds (bidirectional (active es)) = {}"
    and uniq: "unique_keys es"
  shows "traced pv s v p \<Longrightarrow>
         \<forall>x \<in> set (map_steps (edge_map (active es)) p). 0 \<le> cost x"
proof (induction rule: traced.induct)
  case root
  show ?case by simp
next
  case (link v u p)
  from binv_link [OF inv link.hyps(1)] obtain du dv w i where
    e: "(u, v, w, i) \<in> set (bidirectional (active es))"
    and d: "map_of ds u = Some (Fin du)" "map_of ds v = Some (Fin dv)"
    by blast
  from e obtain ed where ed: "ed \<in> set (active es)" "joins u v ed" "w = e_weight ed"
    by (auto simp: set_bidirectional)
  have "ed \<in> set es" "\<not> e_blocked ed"
    using ed(1) by (simp_all add: active_def)
  from tight_edge_nonneg [OF tight this ed(2) d] have w: "0 \<le> e_weight ed" .
  from traced_ends [OF link.hyps(2)] have p: "p \<noteq> []" "last p = u"
    by simp_all
  have "map_steps (edge_map (active es)) (p @ [v]) =
        map_steps (edge_map (active es)) p @ [step_of u v ed]"
    using map_steps_snoc [OF p(1), of "edge_map (active es)" v] p(2)
      unique_lookup [OF uniq ed(1,2)] by simp
  then show ?case
    using link.IH w by (simp add: step_of_def)
qed

text \<open>A route that is found runs along no edge of negative weight.\<close>

lemma bellmanFord_route_nonneg:
  assumes f: "found (bellmanFord nodes es s t)" and st: "s \<noteq> t"
  shows "(\<forall>e \<in> set es. \<not> e_blocked e \<and>
            (\<exists>u \<in> set (path (bellmanFord nodes es s t)).
               \<exists>v \<in> set (path (bellmanFord nodes es s t)). joins u v e) \<longrightarrow> 0 \<le> e_weight e) \<and>
         (unique_keys es \<longrightarrow> (\<forall>x \<in> set (steps (bellmanFord nodes es s t)). 0 \<le> cost x))"
proof -
  from bellmanFord_found [OF f st] obtain ds pv p where
    inv: "binv (bidirectional (active es)) (node_ids nodes) s ds pv"
    and tight: "still_relaxable ds (bidirectional (active es)) = {}"
    and tr: "traced pv s t p"
    and r: "bellmanFord nodes es s t =
            \<lparr>path = p, totalCost = num_get ds t, steps = map_steps (edge_map (active es)) p,
             found = True, hasNegativeCycle = False, error = None\<rparr>"
    by blast
  have fin: "\<forall>x \<in> set p. \<exists>i. map_of ds x = Some (Fin i)"
    by (rule traced_finite [OF inv tr])
  have "0 \<le> e_weight e"
    if "e \<in> set es" "\<not> e_blocked e" "u \<in> set p" "v \<in> set p" "joins u v e" for e u v
  proof -
    from fin that(3,4) obtain du dv where
      "map_of ds u = Some (Fin du)" "map_of ds v = Some (Fin dv)"
      by blast
    from tight_edge_nonneg [OF tight that(1,2,5) this] show ?thesis .
  qed
  moreover have "\<forall>x \<in> set (map_steps (edge_map (active es)) p). 0 \<le> cost x"
    if "unique_keys es"
    by (rule bf_traced_steps_nonneg [OF inv tight that tr])
  ultimately show ?thesis
    unfolding r by auto
qed

text \<open>
  Claim C9, as the code has it. The weights are integers within the exact range, and
  origin and destination are distinct, non-empty ids of listed nodes. If some unblocked
  edge of negative weight has its endpoints among the listed nodes and is reachable from
  the origin over unblocked edges between listed nodes, then \<open>bellmanFord\<close> reports
  \<open>hasNegativeCycle = true\<close> and \<open>found = false\<close>, for every such destination,
  reachable or not. So a route that is found runs along no edge of negative weight: no
  unblocked edge that joins two nodes of its path has one, and no step has a negative
  cost when no two unblocked edges share a key of \<open>edgeMap\<close>.
\<close>

theorem negative_edge_detected:
  assumes "exact_range nodes es"
    and "s \<noteq> []" and "t \<noteq> []" and "s \<noteq> t"
    and "s \<in> node_ids nodes" and "t \<in> node_ids nodes"
  shows "(e \<in> set es \<and> \<not> e_blocked e \<and> e_weight e < 0 \<and> e_to e \<in> node_ids nodes \<and>
          (s, e_from e) \<in> (linked nodes es)\<^sup>* \<longrightarrow>
            hasNegativeCycle (bellmanFord nodes es s t) \<and> \<not> found (bellmanFord nodes es s t)) \<and>
         (found (bellmanFord nodes es s t) \<longrightarrow>
            (\<forall>e' \<in> set es. \<not> e_blocked e' \<and>
               (\<exists>u \<in> set (path (bellmanFord nodes es s t)).
                  \<exists>v \<in> set (path (bellmanFord nodes es s t)). joins u v e') \<longrightarrow>
               0 \<le> e_weight e') \<and>
            (unique_keys es \<longrightarrow>
               (\<forall>x \<in> set (steps (bellmanFord nodes es s t)). 0 \<le> cost x)))"
  using bellmanFord_negative_edge [OF assms(2-6), of e es]
    bellmanFord_route_nonneg [OF _ assms(4), of nodes es]
  by blast

lemma toll_exact: "exact_range toll_nodes toll_edges"
  by code_simp

lemma plain_exact: "exact_range plain_nodes plain_edges"
  by code_simp

theorem negative_edge_detected_witness:
  "exact_range toll_nodes toll_edges \<and>
   ''A'' \<in> node_ids toll_nodes \<and> ''C'' \<in> node_ids toll_nodes \<and>
   road ''e2'' ''B'' ''C'' (- 1) \<in> set toll_edges \<and>
   \<not> e_blocked (road ''e2'' ''B'' ''C'' (- 1)) \<and> e_weight (road ''e2'' ''B'' ''C'' (- 1)) < 0 \<and>
   e_to (road ''e2'' ''B'' ''C'' (- 1)) \<in> node_ids toll_nodes \<and>
   (''A'', e_from (road ''e2'' ''B'' ''C'' (- 1))) \<in> (linked toll_nodes toll_edges)\<^sup>* \<and>
   hasNegativeCycle (bellmanFord toll_nodes toll_edges ''A'' ''C'') \<and>
   \<not> found (bellmanFord toll_nodes toll_edges ''A'' ''C'') \<and>
   exact_range plain_nodes plain_edges \<and>
   ''A'' \<in> node_ids plain_nodes \<and> ''C'' \<in> node_ids plain_nodes \<and>
   found (bellmanFord plain_nodes plain_edges ''A'' ''C'') \<and> unique_keys plain_edges \<and>
   list_all (\<lambda>x. 0 \<le> cost x) (steps (bellmanFord plain_nodes plain_edges ''A'' ''C''))"
proof -
  have ids: "''A'' \<in> node_ids toll_nodes" "''C'' \<in> node_ids toll_nodes"
    by (simp_all add: node_ids_def toll_nodes_def mk_node_def)
  have e: "road ''e2'' ''B'' ''C'' (- 1) \<in> set toll_edges"
    "\<not> e_blocked (road ''e2'' ''B'' ''C'' (- 1))" "e_weight (road ''e2'' ''B'' ''C'' (- 1)) < 0"
    "e_to (road ''e2'' ''B'' ''C'' (- 1)) \<in> node_ids toll_nodes"
    by (simp_all add: toll_edges_def road_def node_ids_def toll_nodes_def mk_node_def)
  have r: "(''A'', e_from (road ''e2'' ''B'' ''C'' (- 1))) \<in> (linked toll_nodes toll_edges)\<^sup>*"
    using toll_linked by (simp add: road_def)
  have ne: "''A'' \<noteq> []" "''C'' \<noteq> []" "''A'' \<noteq> ''C''"
    by simp_all
  have pids: "''A'' \<in> node_ids plain_nodes" "''C'' \<in> node_ids plain_nodes"
    by (simp_all add: node_ids_def plain_nodes_def mk_node_def)
  have f: "found (bellmanFord plain_nodes plain_edges ''A'' ''C'')"
    by (simp add: bellmanFord_plain)
  from negative_edge_detected [OF toll_exact ne ids, of "road ''e2'' ''B'' ''C'' (- 1)"] e r
  have neg: "hasNegativeCycle (bellmanFord toll_nodes toll_edges ''A'' ''C'')"
    "\<not> found (bellmanFord toll_nodes toll_edges ''A'' ''C'')"
    by simp_all
  from negative_edge_detected [OF plain_exact ne pids, of "road ''e2'' ''B'' ''C'' (- 1)"]
    f plain_unique_keys
  have "list_all (\<lambda>x. 0 \<le> cost x) (steps (bellmanFord plain_nodes plain_edges ''A'' ''C''))"
    by (simp add: list_all_iff)
  with neg ids e r pids f toll_exact plain_exact plain_unique_keys show ?thesis
    by simp
qed

text \<open>
  The claim as stated fails in three ways. When origin and destination are the same
  node, the guard \<open>startId === endId\<close> returns the singleton route before any edge is
  looked at, although the toll edge B-C starts at the origin B. A toll edge from the
  origin to a node \<open>X\<close> that is not listed is never relaxed, since \<open>distances[X]\<close> is
  \<open>undefined\<close>, and goes unnoticed. And when the keys \<open>`${from}-${to}`\<close> of two edges
  coincide, here \<open>a-b-c\<close> for the edge from \<open>a\<close> to \<open>b-c\<close> and for the toll edge from
  \<open>a-b\<close> to \<open>c\<close>, a step of the route cites the toll edge, which the origin does not
  reach.
\<close>

theorem same_node_negative_edge_counterexample:
  "road ''e2'' ''B'' ''C'' (- 1) \<in> set toll_edges \<and>
   e_from (road ''e2'' ''B'' ''C'' (- 1)) = ''B'' \<and>
   found (bellmanFord toll_nodes toll_edges ''B'' ''B'') \<and>
   \<not> hasNegativeCycle (bellmanFord toll_nodes toll_edges ''B'' ''B'') \<and>
   bellmanFord [mk_node ''A'', mk_node ''B'']
     [road ''e1'' ''A'' ''B'' 1, road ''e2'' ''A'' ''X'' (- 1)] ''A'' ''B'' =
     \<lparr>path = [''A'', ''B''], totalCost = Fin 1,
      steps = [\<lparr>step_from = ''A'', step_to = ''B'', cost = 1, edgeId = ''e1''\<rparr>],
      found = True, hasNegativeCycle = False, error = None\<rparr> \<and>
   bellmanFord [mk_node ''a'', mk_node ''b-c'', mk_node ''a-b'', mk_node ''c'']
     [road ''e1'' ''a'' ''b-c'' 2, road ''e2'' ''a-b'' ''c'' (- 1)] ''a'' ''b-c'' =
     \<lparr>path = [''a'', ''b-c''], totalCost = Fin 2,
      steps = [\<lparr>step_from = ''a'', step_to = ''b-c'', cost = - 1, edgeId = ''e2''\<rparr>],
      found = True, hasNegativeCycle = False, error = None\<rparr>"
  by code_simp

text \<open>
  Claim C3, as the code has it. Origin and destination are distinct, non-empty ids of
  listed nodes. If the destination is tainted (reachable along unblocked edges from a
  node that can still be relaxed after the passes), \<open>bellmanFord\<close> returns
  \<open>found = false\<close> and \<open>hasNegativeCycle = true\<close>. The same holds for every
  destination when the weights are within the exact range, three listed nodes form a
  cycle of unblocked edges of negative total weight and that cycle is reachable from the
  origin over unblocked edges between listed nodes.
\<close>

theorem tainted_destination_rejected:
  assumes "s \<noteq> []" and "t \<noteq> []" and "s \<noteq> t"
    and "s \<in> node_ids nodes" and "t \<in> node_ids nodes"
    and "t \<in> tainted nodes es s \<or>
         (exact_range nodes es \<and> negative_triangle es a b c \<and>
          {a, b, c} \<subseteq> node_ids nodes \<and> (s, a) \<in> (linked nodes es)\<^sup>*)"
  shows "\<not> found (bellmanFord nodes es s t) \<and> hasNegativeCycle (bellmanFord nodes es s t)"
  using tainted_or_triangle_rejected [OF assms(1-5), of es a b c] assms(6) by blast

lemma spur_exact: "exact_range ring_nodes spur_edges"
  by code_simp

theorem tainted_destination_rejected_witness:
  "''S'' \<in> node_ids ring_nodes \<and> ''B'' \<in> node_ids ring_nodes \<and>
   ''C'' \<in> node_ids ring_nodes \<and>
   ''B'' \<in> tainted ring_nodes spur_edges ''S'' \<and>
   exact_range ring_nodes spur_edges \<and>
   negative_triangle spur_edges ''A'' ''B'' ''C'' \<and>
   {''A'', ''B'', ''C''} \<subseteq> node_ids ring_nodes \<and>
   (''S'', ''A'') \<in> (linked ring_nodes spur_edges)\<^sup>* \<and>
   \<not> found (bellmanFord ring_nodes spur_edges ''S'' ''B'') \<and>
   hasNegativeCycle (bellmanFord ring_nodes spur_edges ''S'' ''B'') \<and>
   \<not> found (bellmanFord ring_nodes spur_edges ''S'' ''C'') \<and>
   hasNegativeCycle (bellmanFord ring_nodes spur_edges ''S'' ''C'')"
proof -
  have ids: "''S'' \<in> node_ids ring_nodes" "''B'' \<in> node_ids ring_nodes"
    "''C'' \<in> node_ids ring_nodes"
    by (simp_all add: node_ids_def ring_nodes_def mk_node_def)
  have abc: "{''A'', ''B'', ''C''} \<subseteq> node_ids ring_nodes"
    by (simp add: node_ids_def ring_nodes_def mk_node_def)
  have ne: "''S'' \<noteq> []" "''B'' \<noteq> []" "''S'' \<noteq> ''B''" "''C'' \<noteq> []" "''S'' \<noteq> ''C''"
    by simp_all
  have taint: "''B'' \<in> tainted ring_nodes spur_edges ''S'' \<or>
         (exact_range ring_nodes spur_edges \<and> negative_triangle spur_edges ''A'' ''B'' ''C'' \<and>
          {''A'', ''B'', ''C''} \<subseteq> node_ids ring_nodes \<and>
          (''S'', ''A'') \<in> (linked ring_nodes spur_edges)\<^sup>*)"
    using spur_tainted by simp
  have ring: "''C'' \<in> tainted ring_nodes spur_edges ''S'' \<or>
         (exact_range ring_nodes spur_edges \<and> negative_triangle spur_edges ''A'' ''B'' ''C'' \<and>
          {''A'', ''B'', ''C''} \<subseteq> node_ids ring_nodes \<and>
          (''S'', ''A'') \<in> (linked ring_nodes spur_edges)\<^sup>*)"
    using spur_exact spur_triangle abc spur_linked by simp
  from tainted_destination_rejected [OF ne(1-3) ids(1,2) taint]
    tainted_destination_rejected [OF ne(1,4,5) ids(1,3) ring]
    ids abc spur_tainted spur_triangle spur_linked spur_exact
  show ?thesis by simp
qed

text \<open>
  The claim as stated fails in three ways. When the cycle is out of reach of the origin,
  no edge is ever relaxed from the isolated node S, nothing is tainted, and the
  destination A, a node of the negative triangle, gets \<open>hasNegativeCycle = false\<close>.
  When origin and destination are the same node A of a triangle within reach, the guard
  \<open>startId === endId\<close> returns the singleton route. And when the node C of the triangle
  is not listed, no distance passes through it and the route from S to B is returned.
\<close>

theorem unreached_cycle_counterexample:
  "negative_triangle ring_edges ''A'' ''B'' ''C'' \<and>
   bellmanFord ring_nodes ring_edges ''S'' ''A'' =
     \<lparr>path = [], totalCost = Fin 0, steps = [], found = False, hasNegativeCycle = False,
      error = None\<rparr> \<and>
   negative_triangle spur_edges ''A'' ''B'' ''C'' \<and>
   bellmanFord ring_nodes spur_edges ''A'' ''A'' =
     \<lparr>path = [''A''], totalCost = Fin 0, steps = [], found = True, hasNegativeCycle = False,
      error = None\<rparr> \<and>
   bellmanFord [mk_node ''S'', mk_node ''A'', mk_node ''B''] spur_edges ''S'' ''B'' =
     \<lparr>path = [''S'', ''A'', ''B''], totalCost = Fin 5,
      steps = [\<lparr>step_from = ''S'', step_to = ''A'', cost = 4, edgeId = ''e0''\<rparr>,
               \<lparr>step_from = ''A'', step_to = ''B'', cost = 1, edgeId = ''e1''\<rparr>],
      found = True, hasNegativeCycle = False, error = None\<rparr>"
  by code_simp

section \<open>bellmanFord on non-negative weights\<close>

text \<open>
  \<open>bellmanFord\<close> never moves a distance along an edge with an endpoint that is not
  listed: the walks it can follow use the edges between listed nodes.
\<close>

definition inner :: "node list \<Rightarrow> edge list \<Rightarrow> edge list" where
  "inner nodes es =
     filter (\<lambda>e. e_from e \<in> node_ids nodes \<and> e_to e \<in> node_ids nodes) es"

lemma set_inner:
  "e \<in> set (inner nodes es) \<longleftrightarrow>
     e \<in> set es \<and> e_from e \<in> node_ids nodes \<and> e_to e \<in> node_ids nodes"
  by (auto simp: inner_def)

lemma nonneg_inner: "nonneg es \<Longrightarrow> nonneg (inner nodes es)"
  by (auto simp: nonneg_def set_inner)

lemma wpath_nonneg:
  assumes "nonneg es"
  shows "wpath es s v d \<Longrightarrow> 0 \<le> d"
proof (induction rule: wpath.induct)
  case start
  show ?case by simp
next
  case (hop u d e v)
  then have "0 \<le> e_weight e"
    using assms by (simp add: nonneg_def)
  with hop.IH show ?case by simp
qed

lemma wpath_inner_listed:
  "wpath (inner nodes es) s v d \<Longrightarrow> s \<in> node_ids nodes \<Longrightarrow> v \<in> node_ids nodes"
proof (induction rule: wpath.induct)
  case start
  then show ?case by simp
next
  case (hop u d e v)
  then show ?case by (auto simp: set_inner joins_def)
qed

lemma wpath_mono:
  assumes "\<And>e. e \<in> set es \<Longrightarrow> \<not> e_blocked e \<Longrightarrow> e \<in> set es'"
  shows "wpath es s v d \<Longrightarrow> wpath es' s v d"
proof (induction rule: wpath.induct)
  case start
  show ?case by (rule wpath.start)
next
  case (hop u d e v)
  from wpath.hop [OF hop.IH assms [OF hop.hyps(2,3)] hop.hyps(3,4)] show ?case .
qed

text \<open>\<open>shortest es s v d\<close>: the least weight of a walk from \<open>s\<close> to \<open>v\<close> is \<open>d\<close>.\<close>

definition shortest :: "edge list \<Rightarrow> string \<Rightarrow> string \<Rightarrow> int \<Rightarrow> bool" where
  "shortest es s v d \<longleftrightarrow> wpath es s v d \<and> (\<forall>d'. wpath es s v d' \<longrightarrow> d \<le> d')"

lemma shortest_unique: "shortest es s v d \<Longrightarrow> shortest es s v d' \<Longrightarrow> d = d'"
  unfolding shortest_def by (meson order_antisym)

lemma shortest_exists:
  assumes nn: "nonneg es" and w: "wpath es s v d0"
  shows "\<exists>d. shortest es s v d"
proof -
  let ?P = "\<lambda>n. wpath es s v (int n)"
  have "0 \<le> d0" by (rule wpath_nonneg [OF nn w])
  then have "?P (nat d0)" using w by simp
  then have least: "?P (LEAST n. ?P n)"
    by (rule LeastI)
  have "int (LEAST n. ?P n) \<le> d'" if w': "wpath es s v d'" for d'
  proof -
    have "0 \<le> d'" by (rule wpath_nonneg [OF nn w'])
    then have "?P (nat d')" using w' by simp
    then have "(LEAST n. ?P n) \<le> nat d'"
      by (rule Least_le)
    with \<open>0 \<le> d'\<close> show ?thesis by simp
  qed
  with least show ?thesis
    unfolding shortest_def by blast
qed

lemma shortest_start: "nonneg es \<Longrightarrow> shortest es s s 0"
  unfolding shortest_def using wpath_nonneg [of es s s] wpath.start [of es s] by blast

text \<open>A shortest walk ends with an edge from a node that it reaches by a shortest walk.\<close>

lemma shortest_hop:
  assumes "wpath es s u d" and "e \<in> set es" and "\<not> e_blocked e" and "joins u v e"
    and "shortest es s v (d + e_weight e)"
  shows "shortest es s u d"
  unfolding shortest_def
proof (intro conjI allI impI)
  show "wpath es s u d" by fact
next
  fix d' assume "wpath es s u d'"
  from wpath.hop [OF this assms(2-4)] have "wpath es s v (d' + e_weight e)" .
  with assms(5) have "d + e_weight e \<le> d' + e_weight e"
    unfolding shortest_def by blast
  then show "d \<le> d'" by simp
qed

text \<open>The parent relation of \<open>previous\<close>.\<close>

definition par :: "string option obj \<Rightarrow> (string \<times> string) set" where
  "par pv = {(u, v). map_of pv v = Some (Some u)}"

lemma par_traced:
  assumes "map_of pv s = Some None"
  shows "(s, v) \<in> (par pv)\<^sup>* \<Longrightarrow> \<exists>p. traced pv s v p"
proof (induction rule: rtrancl_induct)
  case base
  show ?case using assms traced.root by blast
next
  case (step y z)
  then obtain p where "traced pv s y p" by blast
  moreover have "map_of pv z = Some (Some y)"
    using step.hyps(2) by (simp add: par_def)
  ultimately show ?case
    using traced.link by blast
qed

lemma traced_unique: "traced pv s v p \<Longrightarrow> traced pv s v q \<Longrightarrow> p = q"
proof (induction arbitrary: q rule: traced.induct)
  case root
  from root.prems root.hyps show ?case
    by (cases rule: traced.cases) simp_all
next
  case (link v u p)
  from link.prems show ?case
  proof (cases rule: traced.cases)
    case root
    with link.hyps(1) show ?thesis by simp
  next
    case (link u' p')
    with link.hyps(1) have "u' = u" by simp
    with link link.IH [of p'] show ?thesis by simp
  qed
qed

lemma traced_prefix:
  "traced pv s v p \<Longrightarrow> x \<in> set p \<Longrightarrow> \<exists>q. traced pv s x q \<and> length q \<le> length p"
proof (induction rule: traced.induct)
  case root
  then show ?case using traced.root [of pv s] by auto
next
  case (link v u p)
  show ?case
  proof (cases "x \<in> set p")
    case True
    from link.IH [OF this] show ?thesis by auto
  next
    case False
    with link.prems have "x = v" by simp
    with traced.link [OF link.hyps(1,2)] show ?thesis by auto
  qed
qed

lemma traced_distinct: "traced pv s v p \<Longrightarrow> distinct p"
proof (induction rule: traced.induct)
  case root
  show ?case by simp
next
  case (link v u p)
  have "v \<notin> set p"
  proof
    assume "v \<in> set p"
    from traced_prefix [OF link.hyps(2) this] obtain q where
      q: "traced pv s v q" "length q \<le> length p"
      by blast
    from traced_unique [OF q(1) traced.link [OF link.hyps(1,2)]] q(2) show False
      by simp
  qed
  with link.IH show ?case by simp
qed

lemma bf_walk_back_complete:
  "traced pv s v p \<Longrightarrow> set p \<inter> set vis = {} \<Longrightarrow>
   bf_walk_back pv vis v acc = Some (p @ acc)"
proof (induction arbitrary: vis acc rule: traced.induct)
  case root
  then show ?case
    by (subst bf_walk_back.simps) simp
next
  case (link v u p)
  have d: "distinct (p @ [v])"
    by (rule traced_distinct [OF traced.link [OF link.hyps(1,2)]])
  then have "set p \<inter> set (v # vis) = {}"
    using link.prems by auto
  from link.IH [OF this, of "v # acc"] link.hyps(1) link.prems show ?case
    by (subst bf_walk_back.simps) simp
qed

text \<open>
  On non-negative weights the tables of \<open>bellmanFord\<close> keep three more properties:
  the origin has no predecessor, every finite distance is the weight of a walk between
  listed nodes, and from every node with a finite distance the chain of predecessors
  leads to the origin.
\<close>

definition ninv :: "node list \<Rightarrow> edge list \<Rightarrow> string \<Rightarrow> num obj \<Rightarrow> string option obj \<Rightarrow> bool" where
  "ninv nodes es s ds pv \<longleftrightarrow>
     binv (bidirectional (active es)) (node_ids nodes) s ds pv \<and>
     map_of pv s = Some None \<and>
     (\<forall>v i. map_of ds v = Some (Fin i) \<longrightarrow>
        wpath (inner nodes es) s v i \<and> (s, v) \<in> (par pv)\<^sup>*)"

lemma ninv_binv: "ninv nodes es s ds pv \<Longrightarrow> binv (bidirectional (active es)) (node_ids nodes) s ds pv"
  unfolding ninv_def by blast

lemma ninv_root: "ninv nodes es s ds pv \<Longrightarrow> map_of pv s = Some None"
  unfolding ninv_def by blast

lemma ninv_walk: "ninv nodes es s ds pv \<Longrightarrow> map_of ds v = Some (Fin i) \<Longrightarrow> wpath (inner nodes es) s v i"
  unfolding ninv_def by blast

lemma ninv_chain: "ninv nodes es s ds pv \<Longrightarrow> map_of ds v = Some (Fin i) \<Longrightarrow> (s, v) \<in> (par pv)\<^sup>*"
  unfolding ninv_def by blast

lemma arc_nonneg:
  "nonneg es \<Longrightarrow> (a, b, w, i) \<in> set (bidirectional (active es)) \<Longrightarrow> 0 \<le> w"
  by (auto simp: set_bidirectional active_def nonneg_def)

text \<open>Along the chain of predecessors the distances do not decrease.\<close>

lemma chain_le:
  assumes inv: "binv (bidirectional (active es)) V s ds pv" and nn: "nonneg es"
  shows "(x, y) \<in> (par pv)\<^sup>* \<Longrightarrow>
         \<forall>dy. map_of ds y = Some (Fin dy) \<longrightarrow> (\<exists>dx. map_of ds x = Some (Fin dx) \<and> dx \<le> dy)"
proof (induction rule: rtrancl_induct)
  case base
  show ?case by simp
next
  case (step y z)
  show ?case
  proof (intro allI impI)
    fix dz assume dz: "map_of ds z = Some (Fin dz)"
    have "map_of pv z = Some (Some y)"
      using step.hyps(2) by (simp add: par_def)
    from binv_link [OF inv this] dz obtain du w i where
      e: "(y, z, w, i) \<in> set (bidirectional (active es))"
      and du: "map_of ds y = Some (Fin du)" "du + w \<le> dz"
      by auto
    from arc_nonneg [OF nn e] du(2) have "du \<le> dz" by simp
    moreover from step.IH du(1) obtain dx where "map_of ds x = Some (Fin dx)" "dx \<le> du"
      by blast
    ultimately show "\<exists>dx. map_of ds x = Some (Fin dx) \<and> dx \<le> dz"
      by auto
  qed
qed

lemma bf_relax_ninv:
  assumes inv: "ninv nodes es s ds pv" and nn: "nonneg es"
    and e: "(a, b, w, i) \<in> set (bidirectional (active es))"
    and r: "bf_relax (ds, pv, upd) (a, b, w, i) = (ds', pv', upd')"
  shows "ninv nodes es s ds' pv'"
proof (cases rule: bf_relax_cases [of ds pv upd a b w i])
  case same
  with r inv show ?thesis by simp
next
  case (update d)
  note binv0 = ninv_binv [OF inv]
  have new: "ds' = AList.update b (Fin (d + w)) ds" "pv' = AList.update b (Some a) pv"
    using r update(3) by simp_all
  have ds': "map_of ds' = (map_of ds)(b \<mapsto> Fin (d + w))"
    and pv': "map_of pv' = (map_of pv)(b \<mapsto> Some a)"
    by (simp_all add: new update_conv')
  have binv1: "binv (bidirectional (active es)) (node_ids nodes) s ds' pv'"
    by (rule bf_relax_binv [OF binv0 e r])
  have da: "map_of ds a = Some (Fin d)"
    using update(1) by (cases "map_of ds a") (simp_all add: num_get_def)
  have a: "a \<in> node_ids nodes"
    using binv_dom [OF binv0, of a] da by auto
  have "map_of ds b \<noteq> None"
    using update(2) by (cases "map_of ds b") (simp_all add: num_get_def)
  then have b: "b \<in> node_ids nodes"
    using binv_dom [OF binv0, of b] by auto
  from e obtain ed where ed: "ed \<in> set es" "\<not> e_blocked ed" "joins a b ed" "w = e_weight ed"
    by (auto simp: set_bidirectional active_def)
  have w: "0 \<le> w"
    by (rule arc_nonneg [OF nn e])
  have "ed \<in> set (inner nodes es)"
    using ed(1,3) a b by (auto simp: set_inner joins_def)
  from wpath.hop [OF ninv_walk [OF inv da] this ed(2,3)]
  have wb: "wpath (inner nodes es) s b (d + w)"
    by (simp add: ed(4))
  have "0 \<le> d + w"
    by (rule wpath_nonneg [OF nonneg_inner [OF nn] wb])
  moreover have "map_of ds s = Some (Fin 0)"
    by (rule binv_root [OF binv0 ninv_root [OF inv]])
  ultimately have bs: "b \<noteq> s"
    using update(2) by (auto simp: num_get_def)
  have root: "map_of pv' s = Some None"
    using ninv_root [OF inv] bs by (simp add: pv')
  have nba: "(b, a) \<notin> (par pv)\<^sup>*"
  proof
    assume "(b, a) \<in> (par pv)\<^sup>*"
    from chain_le [OF binv0 nn this] da obtain db where
      "map_of ds b = Some (Fin db)" "db \<le> d"
      by blast
    with update(2) w show False
      by (simp add: num_get_def)
  qed
  have keep: "(u, v) \<in> par pv'" if "(u, v) \<in> par pv" "v \<noteq> b" for u v
    using that by (simp add: par_def pv')
  have ab: "(a, b) \<in> par pv'"
    by (simp add: par_def pv')
  have avoid: "(s, x) \<in> (par pv)\<^sup>* \<Longrightarrow> (x, a) \<in> (par pv)\<^sup>* \<longrightarrow> (s, x) \<in> (par pv')\<^sup>*" for x
  proof (induction rule: rtrancl_induct)
    case base
    show ?case by simp
  next
    case (step y z)
    show ?case
    proof
      assume za: "(z, a) \<in> (par pv)\<^sup>*"
      with step.hyps(2) have "(y, a) \<in> (par pv)\<^sup>*"
        by (meson converse_rtrancl_into_rtrancl)
      with step.IH have sy: "(s, y) \<in> (par pv')\<^sup>*" by simp
      have "z \<noteq> b" using za nba by auto
      from keep [OF step.hyps(2) this] sy show "(s, z) \<in> (par pv')\<^sup>*"
        by (meson rtrancl_into_rtrancl)
    qed
  qed
  have sa: "(s, a) \<in> (par pv')\<^sup>*"
    using avoid [OF ninv_chain [OF inv da]] by simp
  with ab have sb: "(s, b) \<in> (par pv')\<^sup>*"
    by (meson rtrancl_into_rtrancl)
  have move: "(s, v) \<in> (par pv)\<^sup>* \<Longrightarrow> (s, v) \<in> (par pv')\<^sup>*" for v
  proof (induction rule: rtrancl_induct)
    case base
    show ?case by simp
  next
    case (step y z)
    show ?case
    proof (cases "z = b")
      case True
      with sb show ?thesis by simp
    next
      case False
      from keep [OF step.hyps(2) False] step.IH show ?thesis
        by (meson rtrancl_into_rtrancl)
    qed
  qed
  have fin: "wpath (inner nodes es) s v j \<and> (s, v) \<in> (par pv')\<^sup>*"
    if "map_of ds' v = Some (Fin j)" for v j
  proof (cases "v = b")
    case True
    with that have "j = d + w" by (simp add: ds')
    with wb sb True show ?thesis by simp
  next
    case False
    with that have old: "map_of ds v = Some (Fin j)" by (simp add: ds')
    from ninv_walk [OF inv old] move [OF ninv_chain [OF inv old]] show ?thesis
      by simp
  qed
  show ?thesis
    unfolding ninv_def using binv1 root fin by blast
qed

lemma bf_pass_ninv:
  assumes nn: "nonneg es" and sub: "set xs \<subseteq> set (bidirectional (active es))"
  shows "ninv nodes es s ds pv \<Longrightarrow> foldl bf_relax (ds, pv, upd) xs = (ds', pv', upd') \<Longrightarrow>
         ninv nodes es s ds' pv'"
  using sub
proof (induction xs arbitrary: ds pv upd)
  case Nil
  then show ?case by simp
next
  case (Cons x xs)
  obtain a b w i where x: "x = (a, b, w, i)" by (cases x) auto
  obtain ds1 pv1 upd1 where r: "bf_relax (ds, pv, upd) (a, b, w, i) = (ds1, pv1, upd1)"
    by (cases "bf_relax (ds, pv, upd) (a, b, w, i)") auto
  have "(a, b, w, i) \<in> set (bidirectional (active es))"
    using Cons.prems(3) x by simp
  from bf_relax_ninv [OF Cons.prems(1) nn this r] have inv1: "ninv nodes es s ds1 pv1" .
  have run: "foldl bf_relax (ds1, pv1, upd1) xs = (ds', pv', upd')"
    using Cons.prems(2) unfolding x foldl_Cons r .
  have "set xs \<subseteq> set (bidirectional (active es))"
    using Cons.prems(3) by simp
  from Cons.IH [OF inv1 run this] show ?case .
qed

lemma init_ninv:
  assumes tabs: "init_tables nodes = (ds0, pv0)" and s: "s \<in> node_ids nodes"
  shows "ninv nodes es s (AList.update s (Fin 0) ds0) pv0"
proof -
  have ds: "map_of (AList.update s (Fin 0) ds0) k =
      (if k = s then Some (Fin 0) else if k \<in> node_ids nodes then Some PInf else None)"
    and pv: "map_of pv0 k = (if k \<in> node_ids nodes then Some None else None)" for k
    using init_tables_maps [OF tabs, of k] by (simp_all add: update_conv')
  have "wpath (inner nodes es) s v i \<and> (s, v) \<in> (par pv0)\<^sup>*"
    if "map_of (AList.update s (Fin 0) ds0) v = Some (Fin i)" for v i
  proof -
    from that have "v = s" "i = 0"
      by (auto simp: ds split: if_splits)
    then show ?thesis
      using wpath.start [of "inner nodes es" s] by simp
  qed
  moreover have "map_of pv0 s = Some None"
    using pv [of s] s by simp
  moreover have "binv (bidirectional (active es)) (node_ids nodes) s (AList.update s (Fin 0) ds0) pv0"
    by (rule init_binv [OF tabs s])
  ultimately show ?thesis
    unfolding ninv_def by blast
qed

lemma bf_relax_lowers:
  assumes "bf_relax (ds, pv, upd) (a, b, w, i) = (ds', pv', upd')"
    and "map_of ds v = Some (Fin j)"
  shows "\<exists>k. map_of ds' v = Some (Fin k) \<and> k \<le> j"
proof (cases rule: bf_relax_cases [of ds pv upd a b w i])
  case same
  with assms show ?thesis by simp
next
  case (update d)
  with assms show ?thesis
    by (cases "v = b") (auto simp: update_conv' num_get_def)
qed

lemma bf_pass_lowers:
  "foldl bf_relax (ds, pv, upd) xs = (ds', pv', upd') \<Longrightarrow> map_of ds v = Some (Fin j) \<Longrightarrow>
   \<exists>k. map_of ds' v = Some (Fin k) \<and> k \<le> j"
proof (induction xs arbitrary: ds pv upd j)
  case Nil
  then show ?case by simp
next
  case (Cons x xs)
  obtain a b w i where x: "x = (a, b, w, i)" by (cases x) auto
  obtain ds1 pv1 upd1 where r: "bf_relax (ds, pv, upd) (a, b, w, i) = (ds1, pv1, upd1)"
    by (cases "bf_relax (ds, pv, upd) (a, b, w, i)") auto
  have run: "foldl bf_relax (ds1, pv1, upd1) xs = (ds', pv', upd')"
    using Cons.prems(1) unfolding x foldl_Cons r .
  from bf_relax_lowers [OF r Cons.prems(2)] obtain k where
    k: "map_of ds1 v = Some (Fin k)" "k \<le> j"
    by blast
  from Cons.IH [OF run k(1)] k(2) show ?case
    by (auto intro: order_trans)
qed

text \<open>After the relaxation of an edge its target is within reach of its source.\<close>

lemma bf_relax_bound:
  assumes inv: "binv E V s ds pv"
    and r: "bf_relax (ds, pv, upd) (a, b, w, i) = (ds', pv', upd')"
    and a: "map_of ds a = Some (Fin da)" and b: "b \<in> V"
  shows "\<exists>db. map_of ds' b = Some (Fin db) \<and> db \<le> da + w"
proof (cases rule: bf_relax_cases [of ds pv upd a b w i])
  case same
  from b binv_dom [OF inv, of b] obtain x where x: "map_of ds b = Some x"
    by auto
  from same(2) a have "\<not> lt_num (da + w) x"
    using x by (simp add: num_get_def)
  with binv_values [OF inv x] obtain db where "x = Fin db" "db \<le> da + w"
    by auto
  with x same(1) r show ?thesis by simp
next
  case (update d)
  with a have "d = da" by (simp add: num_get_def)
  with update(3) r show ?thesis
    by (auto simp: update_conv')
qed

lemma bf_pass_bound:
  assumes sub: "set xs \<subseteq> set E"
  shows "binv E V s ds pv \<Longrightarrow> foldl bf_relax (ds, pv, upd) xs = (ds', pv', upd') \<Longrightarrow>
         \<forall>(a, b, w, i) \<in> set xs. \<forall>da. map_of ds a = Some (Fin da) \<and> b \<in> V \<longrightarrow>
            (\<exists>db. map_of ds' b = Some (Fin db) \<and> db \<le> da + w)"
  using sub
proof (induction xs arbitrary: ds pv upd)
  case Nil
  then show ?case by simp
next
  case (Cons x xs)
  obtain a b w i where x: "x = (a, b, w, i)" by (cases x) auto
  obtain ds1 pv1 upd1 where r: "bf_relax (ds, pv, upd) (a, b, w, i) = (ds1, pv1, upd1)"
    by (cases "bf_relax (ds, pv, upd) (a, b, w, i)") auto
  have run: "foldl bf_relax (ds1, pv1, upd1) xs = (ds', pv', upd')"
    using Cons.prems(2) unfolding x foldl_Cons r .
  have xe: "(a, b, w, i) \<in> set E" and rest: "set xs \<subseteq> set E"
    using Cons.prems(3) x by simp_all
  have inv1: "binv E V s ds1 pv1"
    by (rule bf_relax_binv [OF Cons.prems(1) xe r])
  note ih = Cons.IH [OF inv1 run rest]
  show ?case
  proof (intro ballI, clarify)
    fix a' b' w' i' da
    assume y: "(a', b', w', i') \<in> set (x # xs)"
      and da: "map_of ds a' = Some (Fin da)" and b': "b' \<in> V"
    from bf_relax_lowers [OF r da] obtain k where k: "map_of ds1 a' = Some (Fin k)" "k \<le> da"
      by blast
    show "\<exists>db. map_of ds' b' = Some (Fin db) \<and> db \<le> da + w'"
    proof (cases "(a', b', w', i') \<in> set xs")
      case True
      with ih k(1) b' obtain db where "map_of ds' b' = Some (Fin db)" "db \<le> k + w'"
        by blast
      with k(2) show ?thesis by auto
    next
      case False
      with y x have eq: "a' = a" "b' = b" "w' = w"
        by simp_all
      from bf_relax_bound [OF Cons.prems(1) r] da b' eq obtain db1 where
        db1: "map_of ds1 b = Some (Fin db1)" "db1 \<le> da + w"
        by blast
      from bf_pass_lowers [OF run db1(1)] db1(2) eq show ?thesis
        by (auto intro: order_trans)
    qed
  qed
qed

text \<open>The nodes whose distance is already the least weight of a walk.\<close>

definition settled :: "node list \<Rightarrow> edge list \<Rightarrow> string \<Rightarrow> num obj \<Rightarrow> string set" where
  "settled nodes es s ds =
     {v. \<exists>d. map_of ds v = Some (Fin d) \<and> shortest (inner nodes es) s v d}"

lemma settled_mono:
  assumes low: "\<And>v j. map_of ds v = Some (Fin j) \<Longrightarrow> \<exists>k. map_of ds' v = Some (Fin k) \<and> k \<le> j"
    and inv': "ninv nodes es s ds' pv'"
  shows "settled nodes es s ds \<subseteq> settled nodes es s ds'"
proof
  fix v assume "v \<in> settled nodes es s ds"
  then obtain d where d: "map_of ds v = Some (Fin d)" "shortest (inner nodes es) s v d"
    by (auto simp: settled_def)
  from low [OF d(1)] obtain k where k: "map_of ds' v = Some (Fin k)" "k \<le> d"
    by blast
  from ninv_walk [OF inv' k(1)] d(2) have "d \<le> k"
    by (simp add: shortest_def)
  with k d(2) show "v \<in> settled nodes es s ds'"
    by (auto simp: settled_def)
qed

text \<open>
  While some node within reach is not settled, some edge leads from a settled node to
  an unsettled one along a shortest walk.
\<close>

lemma frontier_edge:
  assumes inv: "ninv nodes es s ds pv" and nn: "nonneg es"
  shows "wpath (inner nodes es) s v d \<Longrightarrow> shortest (inner nodes es) s v d \<Longrightarrow>
         v \<in> settled nodes es s ds \<or>
         (\<exists>u y w i du. (u, y, w, i) \<in> set (bidirectional (active es)) \<and>
            map_of ds u = Some (Fin du) \<and> y \<in> node_ids nodes \<and>
            y \<notin> settled nodes es s ds \<and> shortest (inner nodes es) s y (du + w))"
proof (induction rule: wpath.induct)
  case start
  have "map_of ds s = Some (Fin 0)"
    by (rule binv_root [OF ninv_binv [OF inv] ninv_root [OF inv]])
  with start show ?case
    by (auto simp: settled_def)
next
  case (hop u d e v)
  have su: "shortest (inner nodes es) s u d"
    by (rule shortest_hop [OF hop.hyps(1-4) hop.prems])
  from hop.IH [OF su] show ?case
  proof
    assume "u \<in> settled nodes es s ds"
    then obtain du where du: "map_of ds u = Some (Fin du)" "shortest (inner nodes es) s u du"
      by (auto simp: settled_def)
    from shortest_unique [OF su du(2)] have eq: "du = d" by simp
    have e: "e \<in> set es" "e_from e \<in> node_ids nodes" "e_to e \<in> node_ids nodes"
      using hop.hyps(2) by (simp_all add: set_inner)
    then have arc: "(u, v, e_weight e, e_id e) \<in> set (bidirectional (active es))"
      using hop.hyps(3,4) by (auto simp: set_bidirectional active_def)
    have v: "v \<in> node_ids nodes"
      using e(2,3) hop.hyps(4) by (auto simp: joins_def)
    show ?thesis
    proof (cases "v \<in> settled nodes es s ds")
      case True
      then show ?thesis by simp
    next
      case False
      with arc du(1) v hop.prems eq show ?thesis
        by blast
    qed
  next
    assume "\<exists>u y w i du. (u, y, w, i) \<in> set (bidirectional (active es)) \<and>
            map_of ds u = Some (Fin du) \<and> y \<in> node_ids nodes \<and>
            y \<notin> settled nodes es s ds \<and> shortest (inner nodes es) s y (du + w)"
    then show ?thesis by simp
  qed
qed

lemma settled_listed:
  assumes "ninv nodes es s ds pv"
  shows "settled nodes es s ds \<subseteq> node_ids nodes"
proof
  fix x
  assume "x \<in> settled nodes es s ds"
  then have "map_of ds x \<noteq> None"
    by (auto simp: settled_def)
  then show "x \<in> node_ids nodes"
    using binv_dom [OF ninv_binv [OF assms], of x] by auto
qed

lemma finite_settled:
  assumes "ninv nodes es s ds pv"
  shows "finite (settled nodes es s ds)"
  using settled_listed [OF assms] by (rule finite_subset) (simp add: node_ids_def)

text \<open>A pass settles a further node, unless every node within reach is settled.\<close>

lemma pass_progress:
  assumes inv: "ninv nodes es s ds pv" and nn: "nonneg es"
    and run: "foldl bf_relax (ds, pv, upd) (bidirectional (active es)) = (ds1, pv1, upd1)"
    and open_node: "wpath (inner nodes es) s v d0" "v \<notin> settled nodes es s ds"
  shows "\<exists>y. y \<in> settled nodes es s ds1 \<and> y \<notin> settled nodes es s ds"
proof -
  from shortest_exists [OF nonneg_inner [OF nn] open_node(1)] obtain d where
    d: "shortest (inner nodes es) s v d"
    by blast
  then have "wpath (inner nodes es) s v d"
    by (simp add: shortest_def)
  from frontier_edge [OF inv nn this d] open_node(2) obtain u y w i du where
    e: "(u, y, w, i) \<in> set (bidirectional (active es))"
    and du: "map_of ds u = Some (Fin du)" and y: "y \<in> node_ids nodes"
    and ny: "y \<notin> settled nodes es s ds"
    and sy: "shortest (inner nodes es) s y (du + w)"
    by blast
  have inv1: "ninv nodes es s ds1 pv1"
    by (rule bf_pass_ninv [OF nn subset_refl inv run])
  from bf_pass_bound [OF subset_refl ninv_binv [OF inv] run] e du y obtain db where
    db: "map_of ds1 y = Some (Fin db)" "db \<le> du + w"
    by blast
  from ninv_walk [OF inv1 db(1)] sy have "du + w \<le> db"
    by (simp add: shortest_def)
  with db sy have "y \<in> settled nodes es s ds1"
    by (auto simp: settled_def)
  with ny show ?thesis by blast
qed

lemma passes_settle:
  assumes nn: "nonneg es"
  shows "ninv nodes es s ds pv \<Longrightarrow> j \<le> card (settled nodes es s ds) \<Longrightarrow>
         bf_passes k (bidirectional (active es)) (ds, pv) = (ds', pv') \<Longrightarrow>
         ninv nodes es s ds' pv' \<and> settled nodes es s ds \<subseteq> settled nodes es s ds' \<and>
         ((\<forall>v d. wpath (inner nodes es) s v d \<longrightarrow> v \<in> settled nodes es s ds') \<or>
          j + k \<le> card (settled nodes es s ds'))"
proof (induction k arbitrary: ds pv j)
  case 0
  then show ?case by simp
next
  case (Suc k)
  let ?E = "bidirectional (active es)"
  obtain ds1 pv1 upd where f: "foldl bf_relax (ds, pv, False) ?E = (ds1, pv1, upd)"
    by (cases "foldl bf_relax (ds, pv, False) ?E") auto
  have inv1: "ninv nodes es s ds1 pv1"
    by (rule bf_pass_ninv [OF nn subset_refl Suc.prems(1) f])
  have mono1: "settled nodes es s ds \<subseteq> settled nodes es s ds1"
    by (rule settled_mono [OF bf_pass_lowers [OF f] inv1])
  show ?case
  proof (cases upd)
    case False
    with bf_pass_flag [OF f] have same: "ds1 = ds" "pv1 = pv" by simp_all
    have res: "ds' = ds" "pv' = pv"
      using Suc.prems(3) f False same by simp_all
    have "v \<in> settled nodes es s ds" if "wpath (inner nodes es) s v d" for v d
    proof (rule ccontr)
      assume "v \<notin> settled nodes es s ds"
      from pass_progress [OF Suc.prems(1) nn f that this] same show False
        by simp
    qed
    with Suc.prems(1) res show ?thesis by simp
  next
    case True
    then have run: "bf_passes k ?E (ds1, pv1) = (ds', pv')"
      using Suc.prems(3) f by simp
    show ?thesis
    proof (cases "\<forall>v d. wpath (inner nodes es) s v d \<longrightarrow> v \<in> settled nodes es s ds")
      case all: True
      from Suc.IH [OF inv1 le0 run] mono1 all show ?thesis
        by blast
    next
      case False
      then obtain v d where "wpath (inner nodes es) s v d" "v \<notin> settled nodes es s ds"
        by blast
      from pass_progress [OF Suc.prems(1) nn f this] mono1
      have "settled nodes es s ds \<subset> settled nodes es s ds1"
        by blast
      then have "card (settled nodes es s ds) < card (settled nodes es s ds1)"
        by (rule psubset_card_mono [OF finite_settled [OF inv1]])
      with Suc.prems(2) have "Suc j \<le> card (settled nodes es s ds1)"
        by simp
      from Suc.IH [OF inv1 this run] mono1 show ?thesis
        by auto
    qed
  qed
qed

text \<open>When every node within reach is settled, no edge can be relaxed.\<close>

lemma settled_tight:
  assumes inv: "ninv nodes es s ds pv"
    and all: "\<forall>v d. wpath (inner nodes es) s v d \<longrightarrow> v \<in> settled nodes es s ds"
  shows "still_relaxable ds (bidirectional (active es)) = {}"
proof -
  have "\<not> relaxable ds (a, b, w, i)" if e: "(a, b, w, i) \<in> set (bidirectional (active es))"
    for a b w i
  proof
    assume "relaxable ds (a, b, w, i)"
    then obtain da where da: "num_get ds a = Fin da" "lt_num (da + w) (num_get ds b)"
      by (cases "num_get ds a") auto
    have a: "map_of ds a = Some (Fin da)"
      using da(1) by (cases "map_of ds a") (simp_all add: num_get_def)
    have "map_of ds b \<noteq> None"
      using da(2) by (cases "map_of ds b") (simp_all add: num_get_def)
    then have bV: "b \<in> node_ids nodes"
      using binv_dom [OF ninv_binv [OF inv], of b] by auto
    have aV: "a \<in> node_ids nodes"
      using binv_dom [OF ninv_binv [OF inv], of a] a by auto
    from e obtain ed where ed: "ed \<in> set es" "\<not> e_blocked ed" "joins a b ed" "w = e_weight ed"
      by (auto simp: set_bidirectional active_def)
    have "ed \<in> set (inner nodes es)"
      using ed(1,3) aV bV by (auto simp: set_inner joins_def)
    from wpath.hop [OF ninv_walk [OF inv a] this ed(2,3)]
    have wb: "wpath (inner nodes es) s b (da + w)"
      by (simp add: ed(4))
    with all have "b \<in> settled nodes es s ds" by blast
    then obtain db where db: "map_of ds b = Some (Fin db)" "shortest (inner nodes es) s b db"
      by (auto simp: settled_def)
    from db(2) wb have "db \<le> da + w"
      by (simp add: shortest_def)
    with da(2) db(1) show False
      by (simp add: num_get_def)
  qed
  then show ?thesis
    by (auto simp: still_relaxable_eq)
qed

lemma bf_tables_nonneg:
  assumes s: "s \<in> node_ids nodes" and nn: "nonneg es"
  shows "\<exists>ds pv. bf_tables nodes s (bidirectional (active es)) = (ds, pv) \<and>
           ninv nodes es s ds pv \<and>
           (\<forall>v d. wpath (inner nodes es) s v d \<longrightarrow> v \<in> settled nodes es s ds)"
proof -
  let ?E = "bidirectional (active es)"
  obtain ds0 pv0 where tabs: "init_tables nodes = (ds0, pv0)"
    by (cases "init_tables nodes")
  let ?ds = "AList.update s (Fin 0) ds0"
  obtain ds pv where run: "bf_passes (length nodes - 1) ?E (?ds, pv0) = (ds, pv)"
    by (cases "bf_passes (length nodes - 1) ?E (?ds, pv0)")
  have inv0: "ninv nodes es s ?ds pv0"
    by (rule init_ninv [OF tabs s])
  have "map_of ?ds s = Some (Fin 0)"
    by (simp add: update_conv')
  then have "s \<in> settled nodes es s ?ds"
    using shortest_start [OF nonneg_inner [OF nn], of nodes s] by (auto simp: settled_def)
  then have "card (settled nodes es s ?ds) \<noteq> 0"
    using finite_settled [OF inv0] by auto
  then have one: "1 \<le> card (settled nodes es s ?ds)"
    by simp
  from passes_settle [OF nn inv0 one run]
  have inv: "ninv nodes es s ds pv"
    and alt: "(\<forall>v d. wpath (inner nodes es) s v d \<longrightarrow> v \<in> settled nodes es s ds) \<or>
          1 + (length nodes - 1) \<le> card (settled nodes es s ds)"
    by simp_all
  have all: "\<forall>v d. wpath (inner nodes es) s v d \<longrightarrow> v \<in> settled nodes es s ds"
  proof (cases "1 + (length nodes - 1) \<le> card (settled nodes es s ds)")
    case False
    with alt show ?thesis by simp
  next
    case True
    have "nodes \<noteq> []"
      using s by (auto simp: node_ids_def)
    then have "length nodes \<le> card (settled nodes es s ds)"
      using True by (cases nodes) simp_all
    moreover have "card (node_ids nodes) \<le> length nodes"
      unfolding node_ids_def by (metis card_image_le card_length le_trans List.finite_set)
    ultimately have "card (node_ids nodes) \<le> card (settled nodes es s ds)"
      by simp
    with settled_listed [OF inv] have "settled nodes es s ds = node_ids nodes"
      by (intro card_seteq) (simp_all add: node_ids_def)
    then show ?thesis
      using wpath_inner_listed [OF _ s] by blast
  qed
  from inv all run tabs show ?thesis
    by (simp add: bf_tables_def)
qed

text \<open>
  On non-negative weights \<open>bellmanFord\<close> finds a route whenever a walk over listed
  nodes leads from the origin to the destination.
\<close>

lemma wpath_no_edges:
  assumes "active es = []"
  shows "wpath (inner nodes es) s v d \<Longrightarrow> v = s"
proof (induction rule: wpath.induct)
  case start
  show ?case by simp
next
  case (hop u d e v)
  from hop.hyps(2,3) have "e \<in> set (active es)"
    by (simp add: set_inner active_def)
  with assms show ?case by simp
qed

lemma bidirectional_empty: "bidirectional es = [] \<longleftrightarrow> es = []"
  by (cases es) (simp_all add: bidirectional_def)

lemma bellmanFord_nonneg:
  assumes q: "s \<noteq> []" "t \<noteq> []" "s \<noteq> t" "s \<in> node_ids nodes" "t \<in> node_ids nodes"
    and nn: "nonneg es" and w: "wpath (inner nodes es) s t d"
  shows "found (bellmanFord nodes es s t)"
proof -
  let ?E = "bidirectional (active es)"
  from bf_tables_nonneg [OF q(4) nn] obtain ds pv where
    tabs: "bf_tables nodes s ?E = (ds, pv)" and inv: "ninv nodes es s ds pv"
    and all: "\<forall>v d. wpath (inner nodes es) s v d \<longrightarrow> v \<in> settled nodes es s ds"
    by blast
  have tight: "still_relaxable ds ?E = {}"
    by (rule settled_tight [OF inv all])
  then have cyc: "negative_cycle_nodes (length nodes) ?E ds = {}"
    by (simp add: negative_cycle_nodes_def)
  have some: "?E \<noteq> []"
    using wpath_no_edges [OF _ w] q(3) by (auto simp: bidirectional_empty)
  have nodes: "nodes \<noteq> []"
    using q(4) by (auto simp: node_ids_def)
  have run: "bellmanFord nodes es s t = bf_report s t (edge_map (active es)) ds pv {}"
    using q nodes some tabs cyc
    by (simp add: bellmanFord_def bf_search_def node_ids_def active_def)
  from all w have "t \<in> settled nodes es s ds" by blast
  then obtain i where i: "map_of ds t = Some (Fin i)"
    by (auto simp: settled_def)
  from par_traced [OF ninv_root [OF inv] ninv_chain [OF inv i]] obtain p where
    tr: "traced pv s t p"
    by blast
  from bf_walk_back_complete [OF tr, of "[]" "[]"] have walk: "bf_walk_back pv [] t [] = Some p"
    by simp
  from traced_ends [OF tr] i walk show ?thesis
    unfolding run by (simp add: bf_report_def num_get_def)
qed

section \<open>Blocking neither shortens nor creates a route\<close>

text \<open>
  When no edge can be relaxed, the distances of \<open>bellmanFord\<close> are lower bounds of
  the walks over listed nodes, and each of them is the weight of such a walk.
\<close>

lemma traced_root: "traced pv s v p \<Longrightarrow> map_of pv s = Some None"
  by (induction rule: traced.induct) simp_all

lemma bf_lower:
  assumes inv: "binv (bidirectional (active es)) (node_ids nodes) s ds pv"
    and tight: "still_relaxable ds (bidirectional (active es)) = {}"
    and s0: "map_of ds s = Some (Fin 0)"
  shows "wpath (inner nodes es) s v d \<Longrightarrow> \<exists>dv. map_of ds v = Some (Fin dv) \<and> dv \<le> d"
proof (induction rule: wpath.induct)
  case start
  show ?case using s0 by simp
next
  case (hop u d e v)
  from hop.IH obtain du where du: "map_of ds u = Some (Fin du)" "du \<le> d"
    by blast
  have e: "e \<in> set es" "e_from e \<in> node_ids nodes" "e_to e \<in> node_ids nodes"
    using hop.hyps(2) by (simp_all add: set_inner)
  have "e \<in> set (active es)"
    using e(1) hop.hyps(3) by (simp add: active_def)
  then have arc: "(u, v, e_weight e, e_id e) \<in> set (bidirectional (active es))"
    using hop.hyps(4) by (auto simp: set_bidirectional)
  from e(2,3) hop.hyps(4) have "v \<in> node_ids nodes"
    by (auto simp: joins_def)
  with binv_dom [OF inv, of v] obtain x where x: "map_of ds v = Some x"
    by auto
  have "\<not> relaxable ds (u, v, e_weight e, e_id e)"
    using tight arc by (auto simp: still_relaxable_eq)
  then have "\<not> lt_num (du + e_weight e) x"
    using du(1) x by (simp add: num_get_def)
  with binv_values [OF inv x] obtain dv where "x = Fin dv" "dv \<le> du + e_weight e"
    by auto
  with x du(2) show ?case by auto
qed

lemma bf_traced_wpath:
  assumes inv: "binv (bidirectional (active es)) (node_ids nodes) s ds pv"
    and tight: "still_relaxable ds (bidirectional (active es)) = {}"
  shows "traced pv s v p \<Longrightarrow> \<exists>i. map_of ds v = Some (Fin i) \<and> wpath (inner nodes es) s v i"
proof (induction rule: traced.induct)
  case root
  then show ?case
    using binv_root [OF inv] wpath.start [of "inner nodes es" s] by simp
next
  case (link v u p)
  from link.IH obtain iu where iu: "map_of ds u = Some (Fin iu)" "wpath (inner nodes es) s u iu"
    by blast
  from binv_link [OF inv link.hyps(1)] iu(1) obtain dv w i where
    e: "(u, v, w, i) \<in> set (bidirectional (active es))"
    and dv: "map_of ds v = Some (Fin dv)" and le: "iu + w \<le> dv"
    by auto
  have "\<not> relaxable ds (u, v, w, i)"
    using tight e by (auto simp: still_relaxable_eq)
  then have "dv \<le> iu + w"
    using iu(1) dv by (simp add: num_get_def)
  with le have eq: "dv = iu + w" by simp
  from e obtain ed where ed: "ed \<in> set es" "\<not> e_blocked ed" "joins u v ed" "w = e_weight ed"
    by (auto simp: set_bidirectional active_def)
  have "u \<in> node_ids nodes" "v \<in> node_ids nodes"
    using binv_dom [OF inv, of u] binv_dom [OF inv, of v] iu(1) dv by auto
  with ed(1,3) have "ed \<in> set (inner nodes es)"
    by (auto simp: set_inner joins_def)
  from wpath.hop [OF iu(2) this ed(2,3)] dv eq ed(4) show ?case
    by auto
qed

lemma bellmanFord_cost:
  assumes f: "found (bellmanFord nodes es s t)" and st: "s \<noteq> t"
  shows "\<exists>i. totalCost (bellmanFord nodes es s t) = Fin i \<and> shortest (inner nodes es) s t i"
proof -
  from bellmanFord_found [OF f st] obtain ds pv p where
    inv: "binv (bidirectional (active es)) (node_ids nodes) s ds pv"
    and tight: "still_relaxable ds (bidirectional (active es)) = {}"
    and tr: "traced pv s t p"
    and r: "bellmanFord nodes es s t =
            \<lparr>path = p, totalCost = num_get ds t, steps = map_steps (edge_map (active es)) p,
             found = True, hasNegativeCycle = False, error = None\<rparr>"
    by blast
  from bf_traced_wpath [OF inv tight tr] obtain i where
    i: "map_of ds t = Some (Fin i)" "wpath (inner nodes es) s t i"
    by blast
  have s0: "map_of ds s = Some (Fin 0)"
    by (rule binv_root [OF inv traced_root [OF tr]])
  have "i \<le> d" if "wpath (inner nodes es) s t d" for d
    using bf_lower [OF inv tight s0 that] i(1) by simp
  with i show ?thesis
    unfolding r shortest_def by (auto simp: num_get_def)
qed

lemma inner_block:
  assumes "wpath (inner nodes (block P es)) s v d"
  shows "wpath (inner nodes es) s v d"
proof (rule wpath_mono [OF _ assms])
  fix e
  assume "e \<in> set (inner nodes (block P es))" "\<not> e_blocked e"
  then show "e \<in> set (inner nodes es)"
    using open_after_block [of e P es] by (simp add: set_inner)
qed

text \<open>
  A route that \<open>bellmanFord\<close> finds with some edges blocked costs no less than the one
  it finds without blocking them; on non-negative weights the latter is always found.
\<close>

lemma bellmanFord_block:
  assumes f: "found (bellmanFord nodes es s t)" and f': "found (bellmanFord nodes (block P es) s t)"
  shows "\<exists>i i'. totalCost (bellmanFord nodes es s t) = Fin i \<and>
           totalCost (bellmanFord nodes (block P es) s t) = Fin i' \<and> i \<le> i'"
proof (cases "s = t")
  case True
  with f f' show ?thesis
    by (auto simp: bellmanFord_def bf_fail_def split: if_splits)
next
  case False
  from bellmanFord_cost [OF f False] obtain i where
    i: "totalCost (bellmanFord nodes es s t) = Fin i" "shortest (inner nodes es) s t i"
    by blast
  from bellmanFord_cost [OF f' False] obtain i' where
    i': "totalCost (bellmanFord nodes (block P es) s t) = Fin i'"
      "shortest (inner nodes (block P es)) s t i'"
    by blast
  from i'(2) have "wpath (inner nodes es) s t i'"
    using inner_block [of nodes P es s t i'] by (simp add: shortest_def)
  with i(2) have "i \<le> i'"
    by (simp add: shortest_def)
  with i(1) i'(1) show ?thesis by blast
qed

lemma bellmanFord_block_found:
  assumes nn: "nonneg es" and f': "found (bellmanFord nodes (block P es) s t)"
  shows "found (bellmanFord nodes es s t)"
proof (cases "s = t")
  case True
  with f' show ?thesis
    by (auto simp: bellmanFord_def bf_fail_def split: if_splits)
next
  case False
  from bellmanFord_found [OF f' False] have ids: "s \<in> node_ids nodes" "t \<in> node_ids nodes"
    by simp_all
  from f' have q: "s \<noteq> []" "t \<noteq> []"
    by (auto simp: bellmanFord_def bf_fail_def split: if_splits)
  from bellmanFord_cost [OF f' False] obtain i' where
    "shortest (inner nodes (block P es)) s t i'"
    by blast
  then have "wpath (inner nodes es) s t i'"
    using inner_block [of nodes P es s t i'] by (simp add: shortest_def)
  from bellmanFord_nonneg [OF q False ids nn this] show ?thesis .
qed

text \<open>
  On non-negative weights, a route that \<open>dijkstra\<close> finds with some edges blocked is
  also found without blocking them, at no higher cost.
\<close>

lemma dijkstra_block:
  assumes known: "endpoints_known nodes es" and nn: "nonneg es"
    and run: "dijkstra nodes (block P es) s t = Returns r'" and f: "found r'"
  shows "\<exists>r i i'. dijkstra nodes es s t = Returns r \<and> found r \<and>
           totalCost r = Fin i \<and> totalCost r' = Fin i' \<and> i \<le> i'"
proof -
  from dijkstra_found_ids [OF run f]
  have ids: "s \<noteq> []" "t \<noteq> []" "s \<noteq> t" "s \<in> node_ids nodes" "t \<in> node_ids nodes"
    by simp_all
  have blocked: "\<exists>i'. totalCost r' = Fin i' \<and> wpath (block P es) s t i'"
  proof (cases "\<exists>d. wpath (block P es) s t d")
    case True
    with dijkstra_optimal [OF endpoints_known_block [OF known] nonneg_block [OF nn] ids, of P]
      run show ?thesis by auto
  next
    case False
    with dijkstra_optimal [OF endpoints_known_block [OF known] nonneg_block [OF nn] ids, of P]
      run f show ?thesis by (auto simp: no_route_def)
  qed
  then obtain i' where i': "totalCost r' = Fin i'" "wpath (block P es) s t i'"
    by blast
  from wpath_block [OF i'(2)] have w: "wpath es s t i'" .
  then have "\<exists>d. wpath es s t d" by blast
  with dijkstra_optimal [OF known nn ids] obtain p i where
    r: "dijkstra nodes es s t =
          Returns \<lparr>path = p, totalCost = Fin i, steps = find_steps es p, found = True\<rparr>"
    and least: "\<forall>d. wpath es s t d \<longrightarrow> i \<le> d"
    by auto
  from least w have "i \<le> i'" by simp
  with r i'(1) show ?thesis by simp
qed


text \<open>
  Claim C7, as the code has it. A step that \<open>bellmanFord\<close> returns is taken from an
  unblocked edge; so is a step that \<open>dijkstra\<close> returns when no two edges of the
  snapshot join the same pair of nodes. On non-negative weights, blocking edges neither
  shortens nor creates a route: when \<open>dijkstra\<close> finds a route with the edges selected
  by \<open>P\<close> blocked, on a snapshot whose unblocked edges join listed nodes, it finds one
  without blocking them, at no higher cost; when \<open>bellmanFord\<close> finds a route with the
  edges blocked, on any snapshot, it finds one without blocking them. And on any weights,
  when \<open>bellmanFord\<close> finds a route both with and without the blocking, the route found
  without it costs no more.
\<close>

theorem blocking_never_helps:
  "(dijkstra nodes es s t = Returns r \<and> found r \<and> no_parallel es \<longrightarrow>
      (\<forall>x \<in> set (steps r). \<exists>e \<in> set es. \<not> e_blocked e \<and>
          x = step_of (step_from x) (step_to x) e)) \<and>
   (found (bellmanFord nodes es s t) \<longrightarrow>
      (\<forall>x \<in> set (steps (bellmanFord nodes es s t)). \<exists>e \<in> set es. \<not> e_blocked e \<and>
          x = step_of (step_from x) (step_to x) e)) \<and>
   (endpoints_known nodes es \<and> nonneg es \<and>
    dijkstra nodes (block P es) s t = Returns r' \<and> found r' \<longrightarrow>
      (\<exists>r0 i i'. dijkstra nodes es s t = Returns r0 \<and> found r0 \<and>
          totalCost r0 = Fin i \<and> totalCost r' = Fin i' \<and> i \<le> i')) \<and>
   (nonneg es \<and> found (bellmanFord nodes (block P es) s t) \<longrightarrow>
      found (bellmanFord nodes es s t)) \<and>
   (found (bellmanFord nodes es s t) \<and> found (bellmanFord nodes (block P es) s t) \<longrightarrow>
      (\<exists>i i'. totalCost (bellmanFord nodes es s t) = Fin i \<and>
          totalCost (bellmanFord nodes (block P es) s t) = Fin i' \<and> i \<le> i'))"
  using dijkstra_steps_open [of nodes es s t r] bellmanFord_steps_open [of nodes es s t]
    dijkstra_block [of nodes es P s t r'] bellmanFord_block_found [of es nodes P s t]
    bellmanFord_block [of nodes es s t P]
  by blast

definition detour_nodes :: "node list" where
  "detour_nodes = map mk_node [''A'', ''B'', ''C'']"

definition detour_edges :: "edge list" where
  "detour_edges = [road ''e1'' ''A'' ''B'' 2, road ''e2'' ''B'' ''C'' 3, road ''e3'' ''A'' ''C'' 10]"

definition detour_route :: route where
  "detour_route =
     \<lparr>path = [''A'', ''B'', ''C''], totalCost = Fin 5,
      steps = [\<lparr>step_from = ''A'', step_to = ''B'', cost = 2, edgeId = ''e1''\<rparr>,
               \<lparr>step_from = ''B'', step_to = ''C'', cost = 3, edgeId = ''e2''\<rparr>],
      found = True\<rparr>"

definition direct_route :: route where
  "direct_route =
     \<lparr>path = [''A'', ''C''], totalCost = Fin 10,
      steps = [\<lparr>step_from = ''A'', step_to = ''C'', cost = 10, edgeId = ''e3''\<rparr>],
      found = True\<rparr>"

lemma dijkstra_detour:
  "dijkstra detour_nodes detour_edges ''A'' ''C'' = Returns detour_route"
  by code_simp

lemma dijkstra_direct:
  "dijkstra detour_nodes (block (\<lambda>e. e_id e = ''e2'') detour_edges) ''A'' ''C'' = Returns direct_route"
  by code_simp

lemma bellmanFord_detour:
  "found (bellmanFord detour_nodes detour_edges ''A'' ''C'') \<and>
   totalCost (bellmanFord detour_nodes detour_edges ''A'' ''C'') = Fin 5"
  by code_simp

lemma bellmanFord_direct:
  "found (bellmanFord detour_nodes (block (\<lambda>e. e_id e = ''e2'') detour_edges) ''A'' ''C'') \<and>
   totalCost (bellmanFord detour_nodes (block (\<lambda>e. e_id e = ''e2'') detour_edges) ''A'' ''C'') = Fin 10"
  by code_simp

lemma detour_known: "endpoints_known detour_nodes detour_edges"
  by code_simp

lemma detour_nonneg: "nonneg detour_edges"
  by code_simp

lemma detour_no_parallel: "no_parallel detour_edges"
  by (auto simp: no_parallel_def detour_edges_def joins_def road_def)

theorem blocking_never_helps_witness:
  "no_parallel detour_edges \<and> endpoints_known detour_nodes detour_edges \<and> nonneg detour_edges \<and>
   dijkstra detour_nodes detour_edges ''A'' ''C'' = Returns detour_route \<and> found detour_route \<and>
   dijkstra detour_nodes (block (\<lambda>e. e_id e = ''e2'') detour_edges) ''A'' ''C'' = Returns direct_route \<and>
   found direct_route \<and>
   found (bellmanFord detour_nodes detour_edges ''A'' ''C'') \<and>
   found (bellmanFord detour_nodes (block (\<lambda>e. e_id e = ''e2'') detour_edges) ''A'' ''C'') \<and>
   list_all (\<lambda>x. \<exists>e \<in> set detour_edges. \<not> e_blocked e \<and>
       x = step_of (step_from x) (step_to x) e) (steps detour_route) \<and>
   list_all (\<lambda>x. \<exists>e \<in> set detour_edges. \<not> e_blocked e \<and>
       x = step_of (step_from x) (step_to x) e)
     (steps (bellmanFord detour_nodes detour_edges ''A'' ''C'')) \<and>
   (\<exists>i i'. totalCost detour_route = Fin i \<and> totalCost direct_route = Fin i' \<and> i \<le> i') \<and>
   (\<exists>i i'. totalCost (bellmanFord detour_nodes detour_edges ''A'' ''C'') = Fin i \<and>
      totalCost (bellmanFord detour_nodes (block (\<lambda>e. e_id e = ''e2'') detour_edges) ''A'' ''C'') = Fin i' \<and>
      i \<le> i')"
proof -
  have f: "found detour_route" "found direct_route"
    by (simp_all add: detour_route_def direct_route_def)
  from blocking_never_helps [of detour_nodes detour_edges "''A''" "''C''" detour_route
      "\<lambda>e. e_id e = ''e2''" direct_route]
    dijkstra_detour dijkstra_direct bellmanFord_detour bellmanFord_direct
    detour_known detour_nonneg detour_no_parallel f
  show ?thesis by (simp add: list_all_iff)
qed

text \<open>
  The claim as stated fails in three ways. With a blocked and an open edge between the
  same two nodes, the step of \<open>dijkstra\<close> names the blocked one. With a negative weight,
  \<open>dijkstra\<close> stops at the destination too early, and blocking the edge S-T lowers the
  cost from 1 to -3. And \<open>bellmanFord\<close> refuses the toll road A-B-C as a negative
  cycle, but finds the route from A to B once the toll edge B-C is blocked.
\<close>

theorem blocking_counterexample:
  "dijkstra [mk_node ''A'', mk_node ''B'']
     [closed_road ''e1'' ''A'' ''B'' 1, road ''e2'' ''A'' ''B'' 4] ''A'' ''B'' =
     Returns \<lparr>path = [''A'', ''B''], totalCost = Fin 4,
       steps = [\<lparr>step_from = ''A'', step_to = ''B'', cost = 1, edgeId = ''e1''\<rparr>],
       found = True\<rparr> \<and>
   dijkstra [mk_node ''S'', mk_node ''A'', mk_node ''T'']
     [road ''e1'' ''S'' ''T'' 1, road ''e2'' ''S'' ''A'' 2, road ''e3'' ''A'' ''T'' (- 5)]
     ''S'' ''T'' =
     Returns \<lparr>path = [''S'', ''T''], totalCost = Fin 1,
       steps = [\<lparr>step_from = ''S'', step_to = ''T'', cost = 1, edgeId = ''e1''\<rparr>],
       found = True\<rparr> \<and>
   dijkstra [mk_node ''S'', mk_node ''A'', mk_node ''T'']
     [closed_road ''e1'' ''S'' ''T'' 1, road ''e2'' ''S'' ''A'' 2, road ''e3'' ''A'' ''T'' (- 5)]
     ''S'' ''T'' =
     Returns \<lparr>path = [''S'', ''A'', ''T''], totalCost = Fin (- 3),
       steps = [\<lparr>step_from = ''S'', step_to = ''A'', cost = 2, edgeId = ''e2''\<rparr>,
                \<lparr>step_from = ''A'', step_to = ''T'', cost = - 5, edgeId = ''e3''\<rparr>],
       found = True\<rparr> \<and>
   bellmanFord [mk_node ''A'', mk_node ''B'', mk_node ''C'']
     [road ''e1'' ''A'' ''B'' 1, road ''e2'' ''B'' ''C'' (- 1)] ''A'' ''B'' =
     \<lparr>path = [], totalCost = NInf, steps = [], found = False, hasNegativeCycle = True,
      error = Some ''Destination is affected by a negative weight cycle''\<rparr> \<and>
   bellmanFord [mk_node ''A'', mk_node ''B'', mk_node ''C'']
     [road ''e1'' ''A'' ''B'' 1, closed_road ''e2'' ''B'' ''C'' (- 1)] ''A'' ''B'' =
     \<lparr>path = [''A'', ''B''], totalCost = Fin 1,
      steps = [\<lparr>step_from = ''A'', step_to = ''B'', cost = 1, edgeId = ''e1''\<rparr>],
      found = True, hasNegativeCycle = False, error = None\<rparr>"
  by code_simp

end
